(* ===== verification/Prelude.thy ===== *)
theory Prelude
  imports Main "HOL-Library.Word"
begin

text \<open>
  Shared vocabulary of the development: the machine types of the C++ sources, the faults a
  memory access or a library call can end in, checked block copies, and the list and word
  lemmas that several components use.

  A byte (\<open>char\<close>, \<open>unsigned char\<close>, \<open>uint8_t\<close> in the sources) is a HOL \<open>char\<close>, so
  \<open>std::string\<close> is \<open>string\<close> and a literal of the source can be written as it is there.
  \<open>size_t\<close> and the fixed-width integers are words of their width: addition wraps, as in
  C++ for unsigned types.
\<close>

unbundle bit_operations_syntax

named_theorems bytes_simps \<open>evaluation of machine words, bytes and block copies\<close>
named_theorems inv_intros \<open>preservation of component invariants\<close>

type_synonym byte = char
type_synonym u8 = "8 word"
type_synonym u16 = "16 word"
type_synonym u32 = "32 word"
type_synonym u64 = "64 word"
type_synonym size_t = "64 word"

section \<open>Faults and their propagation\<close>

text \<open>
  What stops an operation: an access outside an object, through a null pointer or through a
  pointer to an object that is gone, or a use of a variable that was never set (undefined behaviour
  in C++), a standard-library exception, or a loop that does not end.
\<close>

datatype fault =
    OutOfBounds
  | NullPointer
  | DanglingPointer
  | Uninitialised
  | LengthError
  | Diverges

definition bindE :: "'e + 'a \<Rightarrow> ('a \<Rightarrow> 'e + 'b) \<Rightarrow> 'e + 'b" where
  "bindE m f = (case m of Inl e \<Rightarrow> Inl e | Inr x \<Rightarrow> f x)"

lemma bindE_Inl [simp]: "bindE (Inl e) f = Inl e"
  by (simp add: bindE_def)

lemma bindE_Inr [simp]: "bindE (Inr x) f = f x"
  by (simp add: bindE_def)

lemma bindE_eq_Inr: "bindE m f = Inr y \<longleftrightarrow> (\<exists>x. m = Inr x \<and> f x = Inr y)"
  by (cases m) auto

text \<open>What is behind a pointer; using \<open>nullptr\<close> is a fault.\<close>

definition deref :: "'a option \<Rightarrow> fault + 'a" where
  "deref p = (case p of None \<Rightarrow> Inl NullPointer | Some d \<Rightarrow> Inr d)"

section \<open>Checked block copies\<close>

text \<open>
  \<open>memcpy\<close> out of and into an array object. Both are total only within the object: outside
  it they are the fault \<open>OutOfBounds\<close>, so that a result \<open>Inr\<close> of an operation includes
  that every access it made was in bounds.
\<close>

definition mem_read :: "'a list \<Rightarrow> nat \<Rightarrow> nat \<Rightarrow> fault + 'a list" where
  "mem_read buf pos len =
     (if pos + len \<le> length buf then Inr (take len (drop pos buf)) else Inl OutOfBounds)"

definition mem_write :: "'a list \<Rightarrow> nat \<Rightarrow> 'a list \<Rightarrow> fault + 'a list" where
  "mem_write buf pos src =
     (if pos + length src \<le> length buf
      then Inr (take pos buf @ src @ drop (pos + length src) buf) else Inl OutOfBounds)"

lemma mem_read_ok [bytes_simps]:
  "pos + len \<le> length buf \<Longrightarrow> mem_read buf pos len = Inr (take len (drop pos buf))"
  by (simp add: mem_read_def)

lemma mem_write_ok [bytes_simps]:
  "pos + length src \<le> length buf \<Longrightarrow>
   mem_write buf pos src = Inr (take pos buf @ src @ drop (pos + length src) buf)"
  by (simp add: mem_write_def)

lemma nth_splice:
  assumes "pos + length src \<le> length buf" and "j < length buf"
  shows "(take pos buf @ src @ drop (pos + length src) buf) ! j =
    (if pos \<le> j \<and> j < pos + length src then src ! (j - pos) else buf ! j)"
  using assms by (auto simp: nth_append min_def)

section \<open>Words\<close>

lemma unat_of_nat_64 [bytes_simps]: "n < 2 ^ 64 \<Longrightarrow> unat (of_nat n :: 64 word) = n"
  by (simp add: unat_of_nat take_bit_nat_eq_self)

lemma unat_lt_64: "unat (v :: 64 word) < 2 ^ 64"
  using unsigned_less [of v, where 'a = nat] by simp

lemma unat_add_64:
  "unat (a :: 64 word) + unat b < 2 ^ 64 \<Longrightarrow> unat (a + b) = unat a + unat b"
  by (simp add: unat_word_ariths)

lemma unat_mult_64:
  "unat (a :: 64 word) * unat b < 2 ^ 64 \<Longrightarrow> unat (a * b) = unat a * unat b"
  by (simp add: unat_word_ariths)

lemma unat_sub_64: "unat (b :: 64 word) \<le> unat a \<Longrightarrow> unat (a - b) = unat a - unat b"
  by (simp add: unat_sub word_le_nat_alt)

lemma unat_and_pow2_minus_1:
  assumes "k < 64"
  shows "unat (x AND (2 ^ k - 1) :: 64 word) = unat x mod 2 ^ k"
proof -
  have "x AND (2 ^ k - 1) = take_bit k x"
    by (simp only: take_bit_eq_mask mask_eq_exp_minus_1)
  then have "unat (x AND (2 ^ k - 1)) = unat (take_bit k x)"
    by (rule arg_cong)
  also have "\<dots> = take_bit k (unat x)"
    by (rule unsigned_take_bit_eq)
  finally show ?thesis
    by (simp only: take_bit_eq_mod)
qed

lemma and_not_mask_eq: "(x :: 64 word) AND NOT (mask k) = push_bit k (drop_bit k x)"
  by (rule bit_eqI) (auto simp: bit_simps)

lemma unat_pow2_64: "k < 64 \<Longrightarrow> unat (2 ^ k :: 64 word) = 2 ^ k"
  using unat_of_nat_64 [of "2 ^ k"] power_strict_increasing [of k 64 "2 :: nat"] by simp

section \<open>Bytes and strings\<close>

text \<open>
  \<open>static_cast<char>\<close> of an integer keeps its low eight bits; \<open>static_cast<uint8_t>\<close> of a
  character reads them back. \<open>str_size\<close> and \<open>substr\<close> are the members of \<open>std::string\<close>;
  \<open>substr\<close> clamps the count to what is left.
\<close>

definition to_byte :: "u64 \<Rightarrow> byte" where
  "to_byte w = char_of (unat w)"

definition byte_of :: "byte \<Rightarrow> u8" where
  "byte_of c = of_nat (of_char c)"

definition str_size :: "string \<Rightarrow> size_t" where
  "str_size s = of_nat (length s)"

definition substr :: "string \<Rightarrow> size_t \<Rightarrow> size_t \<Rightarrow> string" where
  "substr s pos n = take (unat n) (drop (unat pos) s)"

lemma byte_of_to_byte [simp]: "byte_of (to_byte w) = ucast w"
proof -
  have "unat (byte_of (to_byte w)) = unat w mod 256"
    by (simp add: byte_of_def to_byte_def unat_of_nat take_bit_eq_mod)
  also have "\<dots> = unat (ucast w :: u8)"
    by (simp add: unsigned_ucast_eq take_bit_eq_mod)
  finally show ?thesis
    by (simp only: word_unat_eq_iff)
qed

lemma unat_str_size [simp]: "length s < 2 ^ 64 \<Longrightarrow> unat (str_size s) = length s"
  by (simp add: str_size_def unat_of_nat_64)

end
