(* ===== verification/SizeClass.thy ===== *)
theory SizeClass
  imports Prelude
begin

text \<open>
  The size classes of the memory pool (\<open>v2/include/Common.h\<close>): requests are rounded up to a
  multiple of \<open>ALIGNMENT\<close>, and class \<open>index\<close> serves the blocks of \<open>(index + 1) * ALIGNMENT\<close>
  bytes.
\<close>

definition ALIGNMENT :: size_t where
  "ALIGNMENT = 8"

definition MAX_BYTES :: size_t where
  "MAX_BYTES = 256 * 1024"

definition FREE_LIST_SIZE :: size_t where
  "FREE_LIST_SIZE = MAX_BYTES div ALIGNMENT"

definition roundUp :: "size_t \<Rightarrow> size_t" where
  "roundUp bytes = (bytes + ALIGNMENT - 1) AND NOT (ALIGNMENT - 1)"

definition getIndex :: "size_t \<Rightarrow> size_t" where
  "getIndex bytes =
     (let bytes = max bytes ALIGNMENT in (bytes + ALIGNMENT - 1) div ALIGNMENT - 1)"

lemma FREE_LIST_SIZE_val: "FREE_LIST_SIZE = 32768"
  by (simp add: FREE_LIST_SIZE_def MAX_BYTES_def ALIGNMENT_def)

lemma unat_roundUp:
  assumes "unat bytes + 7 < 2 ^ 64"
  shows "unat (roundUp bytes) = (unat bytes + 7) div 8 * 8"
proof -
  have s: "unat (bytes + 7) = unat bytes + 7"
    using assms by (simp add: unat_word_ariths)
  have "ALIGNMENT - 1 = mask 3" and "bytes + ALIGNMENT - 1 = bytes + 7"
    by (simp_all add: ALIGNMENT_def mask_eq_exp_minus_1)
  then have "roundUp bytes = push_bit 3 (drop_bit 3 (bytes + 7))"
    by (simp only: roundUp_def and_not_mask_eq)
  then have "roundUp bytes = (bytes + 7) div 8 * 8"
    by (simp add: push_bit_eq_mult drop_bit_eq_div)
  then show ?thesis
    using assms by (simp add: unat_mult_64 unat_div s)
qed

lemma unat_getIndex:
  assumes "unat bytes + 7 < 2 ^ 64"
  shows "unat (getIndex bytes) = (max (unat bytes) 8 + 7) div 8 - 1"
proof -
  let ?b = "max bytes ALIGNMENT"
  have b: "unat ?b = max (unat bytes) 8"
    by (simp add: ALIGNMENT_def max_def word_le_nat_alt)
  have "unat (?b + 7) = unat ?b + 7"
    using assms by (intro unat_add_64 [of _ 7, simplified]) (simp add: b)
  then have d: "unat ((?b + 7) div 8) = (max (unat bytes) 8 + 7) div 8"
    by (simp add: unat_div b)
  have "getIndex bytes = (?b + 7) div 8 - 1"
    by (simp add: getIndex_def Let_def ALIGNMENT_def ac_simps)
  moreover have "unat (1 :: 64 word) \<le> unat ((?b + 7) div 8)"
    unfolding d by simp
  ultimately show ?thesis
    by (simp add: unat_sub_64 d)
qed

text \<open>
  Every request of at most \<open>MAX_BYTES\<close> bytes has a size class inside the free-list
  arrays, and the blocks of that class, \<open>(index + 1) * ALIGNMENT\<close> bytes long, are what
  \<open>roundUp\<close> computes for the request: large enough for it, a multiple of the alignment, and
  less than one alignment unit too large.
\<close>

theorem size_class_fits:
  assumes "0 < bytes" and "bytes \<le> MAX_BYTES"
  shows "getIndex bytes < FREE_LIST_SIZE
    \<and> (getIndex bytes + 1) * ALIGNMENT = roundUp bytes
    \<and> bytes \<le> roundUp bytes \<and> unat (roundUp bytes) < unat bytes + 8
    \<and> 8 dvd unat (roundUp bytes)"
proof -
  let ?n = "unat bytes"
  have n: "0 < ?n" "?n \<le> 262144"
    using assms by (auto simp: MAX_BYTES_def word_le_nat_alt word_less_nat_alt)
  then have i: "unat (getIndex bytes) = (?n + 7) div 8 - 1"
    by (cases "?n < 8") (simp_all add: unat_getIndex max_def)
  have r: "unat (roundUp bytes) = (?n + 7) div 8 * 8"
    using n by (simp add: unat_roundUp)
  have "unat (getIndex bytes + 1) = (?n + 7) div 8"
    using n i by (subst unat_add_64) auto
  then have "unat ((getIndex bytes + 1) * 8) = (?n + 7) div 8 * 8"
    using n by (subst unat_mult_64) auto
  then have eq: "(getIndex bytes + 1) * ALIGNMENT = roundUp bytes"
    using r by (simp add: ALIGNMENT_def word_unat_eq_iff)
  have lt: "getIndex bytes < FREE_LIST_SIZE"
    using n i by (simp add: FREE_LIST_SIZE_val word_less_nat_alt)
  have "bytes \<le> roundUp bytes" "unat (roundUp bytes) < ?n + 8" "8 dvd unat (roundUp bytes)"
    using r by (auto simp: word_le_nat_alt)
  with eq lt show ?thesis
    by blast
qed

theorem size_class_fits_witness:
  "(getIndex 100 + 1) * ALIGNMENT = roundUp 100 \<and> roundUp 100 = 104 \<and> getIndex 100 = 12"
proof -
  have "(0 :: size_t) < 100" and "100 \<le> MAX_BYTES"
    by (simp_all add: MAX_BYTES_def)
  from size_class_fits [OF this] show ?thesis
    by (simp add: getIndex_def roundUp_def ALIGNMENT_def max_def)
qed

end
