(* ===== verification/ByteFifo.thy ===== *)
theory ByteFifo
  imports Prelude
begin

text \<open>
  The contract the server's two buffer classes share: a queue of bytes to which chunks are
  appended at one end and from which bytes are taken at the other. The receive path (one append
  per \<open>recv\<close>) and the send path (three appends per packet) only rely on this contract; the
  theories of the two classes show that the classes keep it.
\<close>

text \<open>A run of appends that stops at the first fault.\<close>

fun append_all :: "('s \<Rightarrow> byte list \<Rightarrow> fault + 's) \<Rightarrow> 's \<Rightarrow> byte list list \<Rightarrow> fault + 's" where
  "append_all app s [] = Inr s"
| "append_all app s (c # cs) = bindE (app s c) (\<lambda>s'. append_all app s' cs)"

locale byte_fifo =
  fixes inv :: "'s \<Rightarrow> bool"
    and contents :: "'s \<Rightarrow> byte list"
    and append :: "'s \<Rightarrow> byte list \<Rightarrow> fault + 's"
    and consume :: "'s \<Rightarrow> size_t \<Rightarrow> 's"
    and limit :: nat
  assumes append_ok: "inv s \<Longrightarrow> length (contents s) + length bs \<le> limit \<Longrightarrow>
      \<exists>s'. append s bs = Inr s' \<and> inv s' \<and> contents s' = contents s @ bs"
    and consume_ok: "inv s \<Longrightarrow> unat n \<le> length (contents s) \<Longrightarrow>
      inv (consume s n) \<and> contents (consume s n) = drop (unat n) (contents s)"
begin

lemma append_all_ok:
  "inv s \<Longrightarrow> length (contents s) + length (concat cs) \<le> limit \<Longrightarrow>
   \<exists>s'. append_all append s cs = Inr s' \<and> inv s' \<and> contents s' = contents s @ concat cs"
proof (induction cs arbitrary: s)
  case Nil
  then show ?case by simp
next
  case (Cons c cs)
  then obtain s1 where "append s c = Inr s1" "inv s1" "contents s1 = contents s @ c"
    using append_ok [of s c] by auto
  then show ?case
    using Cons.IH [of s1] Cons.prems by (auto simp: add.assoc)
qed

text \<open>How a stream is cut into chunks does not matter.\<close>

lemma append_all_chunking:
  assumes "inv s" and "length (contents s) + length (concat cs) \<le> limit"
    and "concat cs = concat ds"
  shows "\<exists>s' s''. append_all append s cs = Inr s' \<and> append_all append s ds = Inr s''
    \<and> contents s' = contents s''"
  using append_all_ok [OF assms(1,2)] append_all_ok [OF assms(1), of ds] assms(2,3) by auto

text \<open>Appending and then consuming what was there before leaves exactly the new bytes.\<close>

lemma append_consume:
  assumes "inv s" and "length (contents s) + length bs \<le> limit" and "append s bs = Inr s'"
    and "unat n = length (contents s)"
  shows "contents (consume s' n) = bs"
  using append_ok [OF assms(1,2)] consume_ok [of s' n] assms(3,4) by auto

end

end
