(* ===== verification/RecvBuffer.thy ===== *)
theory RecvBuffer
  imports ByteFifo
begin

text \<open>
  \<open>PoolRecvBuffer\<close> (\<open>EpollChatServer.h\<close>): the ring buffer that collects the bytes of a
  connection until whole packets are there. The array has a power of two as length, positions
  are reduced with a mask, and the buffer grows by moving its content to a larger array.
  Every copy is one of the checked copies of the prelude, so a result \<open>Inr\<close> says that all of
  them stayed inside the array.
\<close>

section \<open>The class\<close>

record recv_buffer =
  rb_buf :: "byte list"
  rb_read :: size_t
  rb_size :: size_t

definition nextPowerOfTwo :: "size_t \<Rightarrow> size_t" where
  "nextPowerOfTwo x =
     (let n = (if x \<le> 1 then 1 else x) in
      if n AND (n - 1) = 0 then n
      else
       let n = n - 1;
           n = n OR drop_bit 1 n;
           n = n OR drop_bit 2 n;
           n = n OR drop_bit 4 n;
           n = n OR drop_bit 8 n;
           n = n OR drop_bit 16 n;
           n = n OR drop_bit 32 n
       in n + 1)"

text \<open>\<open>std::vector<uint8_t> v(n)\<close>: \<open>n\<close> zero bytes, or \<open>std::length_error\<close> above \<open>max_size()\<close>.\<close>

definition vector_max_size :: size_t where
  "vector_max_size = 2 ^ 63 - 1"

definition new_vector :: "size_t \<Rightarrow> fault + byte list" where
  "new_vector n =
     (if n \<le> vector_max_size then Inr (replicate (unat n) (CHR 0x00)) else Inl LengthError)"

definition rb_cap :: "recv_buffer \<Rightarrow> size_t" where
  "rb_cap rb = of_nat (length (rb_buf rb))"

definition PoolRecvBuffer :: "size_t \<Rightarrow> fault + recv_buffer" where
  "PoolRecvBuffer initialCapacity =
     bindE (new_vector (nextPowerOfTwo initialCapacity)) (\<lambda>v.
       Inr \<lparr>rb_buf = v, rb_read = 0, rb_size = 0\<rparr>)"

definition rb_ensureCapacityForAppend :: "recv_buffer \<Rightarrow> size_t \<Rightarrow> fault + recv_buffer" where
  "rb_ensureCapacityForAppend rb appendLen =
     (if rb_cap rb - rb_size rb \<ge> appendLen then Inr rb
      else
       let required = rb_size rb + appendLen;
           newCapacity = nextPowerOfTwo required
       in bindE (new_vector newCapacity) (\<lambda>newBuf.
          bindE
           (if rb_size rb > 0 then
              let first = min (rb_size rb) (rb_cap rb - rb_read rb) in
              bindE (mem_read (rb_buf rb) (unat (rb_read rb)) (unat first)) (\<lambda>part1.
              bindE (mem_write newBuf 0 part1) (\<lambda>newBuf.
                if rb_size rb > first then
                  bindE (mem_read (rb_buf rb) 0 (unat (rb_size rb - first))) (\<lambda>part2.
                    mem_write newBuf (unat first) part2)
                else Inr newBuf))
            else Inr newBuf) (\<lambda>newBuf.
          Inr (rb\<lparr>rb_buf := newBuf, rb_read := 0\<rparr>))))"

definition rb_append :: "recv_buffer \<Rightarrow> byte list \<Rightarrow> fault + recv_buffer" where
  "rb_append rb src =
     (let len = of_nat (length src) :: size_t in
      if len = 0 then Inr rb
      else bindE (rb_ensureCapacityForAppend rb len) (\<lambda>rb.
        let mask = rb_cap rb - 1;
            writePos = (rb_read rb + rb_size rb) AND mask;
            first = min len (rb_cap rb - writePos)
        in bindE (mem_write (rb_buf rb) (unat writePos) (take (unat first) src)) (\<lambda>buf.
           bindE (if len > first then mem_write buf 0 (drop (unat first) src) else Inr buf)
             (\<lambda>buf. Inr (rb\<lparr>rb_buf := buf, rb_size := rb_size rb + len\<rparr>)))))"

text \<open>\<open>peek\<close> gives \<open>None\<close> where the code returns \<open>false\<close>, else the bytes written to \<open>dst\<close>.\<close>

definition rb_peek :: "recv_buffer \<Rightarrow> size_t \<Rightarrow> size_t \<Rightarrow> fault + byte list option" where
  "rb_peek rb len offset =
     (if offset + len > rb_size rb then Inr None
      else
       let mask = rb_cap rb - 1;
           start = (rb_read rb + offset) AND mask;
           first = min len (rb_cap rb - start)
       in bindE (mem_read (rb_buf rb) (unat start) (unat first)) (\<lambda>part1.
          bindE (if len > first then mem_read (rb_buf rb) 0 (unat (len - first)) else Inr [])
            (\<lambda>part2. Inr (Some (part1 @ part2)))))"

definition rb_peekString :: "recv_buffer \<Rightarrow> size_t \<Rightarrow> size_t \<Rightarrow> fault + string" where
  "rb_peekString rb offset len =
     (if len = 0 then Inr []
      else bindE (rb_peek rb len offset) (\<lambda>r.
        case r of None \<Rightarrow> Inr [] | Some out \<Rightarrow> Inr out))"

definition rb_consume :: "recv_buffer \<Rightarrow> size_t \<Rightarrow> recv_buffer" where
  "rb_consume rb len =
     (if len \<ge> rb_size rb then rb\<lparr>rb_read := 0, rb_size := 0\<rparr>
      else
       let mask = rb_cap rb - 1
       in rb\<lparr>rb_read := (rb_read rb + len) AND mask, rb_size := rb_size rb - len\<rparr>)"

section \<open>Rounding up to a power of two\<close>

text \<open>
  The shifts of \<open>nextPowerOfTwo\<close> smear every set bit downwards: after the shift by \<open>w\<close>, bit
  \<open>i\<close> of the word says whether one of the bits \<open>i, ..., i + 2 w - 1\<close> of the start was set.
\<close>

definition smeared :: "nat \<Rightarrow> size_t \<Rightarrow> size_t \<Rightarrow> bool" where
  "smeared w a x \<longleftrightarrow> (\<forall>i < 64. bit x i \<longleftrightarrow> (\<exists>j < w. bit a (i + j)))"

lemma smeared_start: "smeared 1 a a"
  by (simp add: smeared_def)

lemma smeared_step:
  assumes "smeared w a x"
  shows "smeared (2 * w) a (x OR drop_bit w x)"
  unfolding smeared_def
proof (intro allI impI)
  fix i :: nat
  assume i: "i < 64"
  have hi: "bit x (i + w) \<longleftrightarrow> (\<exists>j < w. bit a (i + w + j))"
  proof (cases "i + w < 64")
    case True
    then show ?thesis using assms by (simp add: smeared_def)
  next
    case False
    then show ?thesis by (auto dest: bit_imp_le_length)
  qed
  have "bit (x OR drop_bit w x) i \<longleftrightarrow> bit x i \<or> bit x (i + w)"
    by (simp add: bit_or_iff bit_drop_bit_eq add.commute)
  also have "\<dots> \<longleftrightarrow> (\<exists>j < w. bit a (i + j)) \<or> (\<exists>j < w. bit a (i + w + j))"
    using assms i hi by (simp add: smeared_def)
  also have "\<dots> \<longleftrightarrow> (\<exists>j < 2 * w. bit a (i + j))"
  proof
    assume "(\<exists>j < w. bit a (i + j)) \<or> (\<exists>j < w. bit a (i + w + j))"
    then show "\<exists>j < 2 * w. bit a (i + j)"
      by (metis add.assoc add_less_cancel_left mult_2 trans_less_add1)
  next
    assume "\<exists>j < 2 * w. bit a (i + j)"
    then obtain j where j: "j < 2 * w" "bit a (i + j)" by blast
    show "(\<exists>j < w. bit a (i + j)) \<or> (\<exists>j < w. bit a (i + w + j))"
    proof (cases "j < w")
      case False
      then have "j - w < w" "i + w + (j - w) = i + j" using j by auto
      then show ?thesis using j by metis
    qed (use j in blast)
  qed
  finally show "bit (x OR drop_bit w x) i \<longleftrightarrow> (\<exists>j < 2 * w. bit a (i + j))" .
qed

lemma smeared_64:
  assumes "smeared 64 a x" and "bit a h" and "\<And>j. bit a j \<Longrightarrow> j \<le> h"
  shows "x = mask (Suc h)"
proof (rule bit_word_eqI)
  fix i :: nat
  assume i: "i < LENGTH(64)"
  have h: "h < 64" using assms(2) by (auto dest: bit_imp_le_length)
  have "(\<exists>j < 64. bit a (i + j)) \<longleftrightarrow> i \<le> h"
  proof
    assume "i \<le> h"
    then show "\<exists>j < 64. bit a (i + j)"
      using assms(2) h by (intro exI [of _ "h - i"]) auto
  qed (use assms(3) in fastforce)
  then show "bit x i = bit (mask (Suc h) :: size_t) i"
    using assms(1) i h by (auto simp: smeared_def bit_mask_iff)
qed

lemma pow2_interval: "0 < n \<Longrightarrow> \<exists>h. 2 ^ h \<le> n \<and> n < 2 ^ Suc h" for n :: nat
proof (induction n rule: less_induct)
  case (less n)
  show ?case
  proof (cases "n = 1")
    case True
    then show ?thesis by (intro exI [of _ 0]) simp
  next
    case False
    with less obtain h where "2 ^ h \<le> n div 2" "n div 2 < 2 ^ Suc h"
      by (metis One_nat_def div_less_dividend div_greater_zero_iff less_2_cases_iff not_less
          numeral_2_eq_2 lessI nat_neq_iff)
    then show ?thesis by (intro exI [of _ "Suc h"]) auto
  qed
qed

lemma bit_unat: "bit (a :: size_t) j \<longleftrightarrow> odd (unat a div 2 ^ j)"
proof -
  have "bit a j \<longleftrightarrow> bit (unat a) j"
    by (auto simp: bit_unsigned_iff dest: bit_imp_le_length)
  then show ?thesis
    by (simp only: bit_iff_odd)
qed

lemma top_bit:
  fixes a :: size_t
  assumes "2 ^ h \<le> unat a" and "unat a < 2 ^ Suc h"
  shows "bit a h" and "bit a j \<Longrightarrow> j \<le> h"
proof -
  have "unat a div 2 ^ h = 1"
    using assms by (intro div_nat_eqI) auto
  then show "bit a h"
    by (simp add: bit_unat)
  show "j \<le> h" if "bit a j"
  proof (rule ccontr)
    assume "\<not> j \<le> h"
    then have "(2 :: nat) ^ Suc h \<le> 2 ^ j"
      by (intro power_increasing) auto
    then have "unat a div 2 ^ j = 0"
      using assms(2) by simp
    with that show False by (simp add: bit_unat)
  qed
qed

lemma pow2_test:
  fixes n :: size_t
  assumes "n \<noteq> 0" and "n AND (n - 1) = 0"
  shows "\<exists>k < 64. unat n = 2 ^ k"
proof -
  have "0 < unat n" using assms(1) by (simp add: unat_gt_0)
  then obtain h where h: "2 ^ h \<le> unat n" "unat n < 2 ^ Suc h"
    using pow2_interval by blast
  have hn: "bit n h" using top_bit(1) [OF h] .
  have "\<not> 2 ^ h \<le> unat (n - 1)"
  proof
    assume "2 ^ h \<le> unat (n - 1)"
    moreover have "unat (n - 1) < 2 ^ Suc h"
      using h(2) assms(1) by (simp add: unat_minus_one)
    ultimately have "bit (n - 1) h" by (rule top_bit(1))
    with hn have "bit (n AND (n - 1)) h" by (simp add: bit_and_iff)
    with assms(2) show False by simp
  qed
  then have "unat n = 2 ^ h"
    using h assms(1) by (simp add: unat_minus_one)
  moreover have "h < 64" using hn by (auto dest: bit_imp_le_length)
  ultimately show ?thesis by blast
qed

lemma smear_word:
  fixes n :: size_t
  defines "a \<equiv> n - 1"
  assumes "2 ^ h \<le> unat a" and "unat a < 2 ^ Suc h" and "n AND (n - 1) \<noteq> 0" and "n > 1"
  shows "nextPowerOfTwo n = 2 ^ Suc h"
proof -
  let ?s = "\<lambda>w x. x OR drop_bit w x :: size_t"
  have "smeared 64 a (?s 32 (?s 16 (?s 8 (?s 4 (?s 2 (?s 1 a))))))"
    using smeared_start [of a, THEN smeared_step, THEN smeared_step, THEN smeared_step,
      THEN smeared_step, THEN smeared_step, THEN smeared_step] by simp
  then have "?s 32 (?s 16 (?s 8 (?s 4 (?s 2 (?s 1 a))))) = mask (Suc h)"
    using top_bit [OF assms(2,3)] by (rule smeared_64)
  moreover have "nextPowerOfTwo n = ?s 32 (?s 16 (?s 8 (?s 4 (?s 2 (?s 1 a))))) + 1"
    using assms(4,5) by (simp only: nextPowerOfTwo_def Let_def a_def) (auto dest: leD)
  ultimately show ?thesis
    by (simp add: mask_eq_exp_minus_1)
qed

lemma nextPowerOfTwo_spec:
  assumes "unat x \<le> 2 ^ 63"
  shows "\<exists>k \<le> 63. unat (nextPowerOfTwo x) = 2 ^ k \<and> unat x \<le> 2 ^ k
    \<and> (\<forall>j. unat x \<le> 2 ^ j \<longrightarrow> k \<le> j)"
proof (cases "x \<le> 1")
  case True
  then have "nextPowerOfTwo x = 1" and "unat x \<le> 1"
    by (simp_all add: nextPowerOfTwo_def word_le_nat_alt)
  then show ?thesis by (intro exI [of _ 0]) simp
next
  case False
  then have gt: "x > 1" "1 < unat x" "x \<noteq> 0"
    by (auto simp: not_le word_less_nat_alt)
  show ?thesis
  proof (cases "x AND (x - 1) = 0")
    case True
    then have "nextPowerOfTwo x = x"
      using False by (simp add: nextPowerOfTwo_def)
    moreover obtain k where k: "unat x = 2 ^ k"
      using pow2_test [OF gt(3) True] by blast
    moreover have "k \<le> 63"
      using power_le_imp_le_exp [of "2 :: nat" k 63] assms k by simp
    ultimately show ?thesis
      by (intro exI [of _ k]) (auto simp: power_increasing_iff)
  next
    case nt: False
    have u: "unat (x - 1) = unat x - 1" using gt by (simp add: unat_minus_one)
    then obtain h where h: "2 ^ h \<le> unat (x - 1)" "unat (x - 1) < 2 ^ Suc h"
      using pow2_interval [of "unat (x - 1)"] gt by auto
    have npt: "nextPowerOfTwo x = 2 ^ Suc h"
      using h nt gt(1) by (rule smear_word)
    have "(2 :: nat) ^ h < 2 ^ 63" using h(1) u gt assms by linarith
    then have h63: "Suc h \<le> 63"
      using power_less_imp_less_exp [of "2 :: nat" h 63] by simp
    then have "unat (2 ^ Suc h :: size_t) = 2 ^ Suc h"
      by (intro unat_pow2_64) simp
    moreover have "Suc h \<le> j" if "unat x \<le> 2 ^ j" for j
    proof -
      have "(2 :: nat) ^ h < 2 ^ j" using h(1) u gt that by linarith
      then show ?thesis by simp
    qed
    ultimately show ?thesis
      using npt h u gt h63 by (intro exI [of _ "Suc h"]) auto
  qed
qed

section \<open>The ring as a byte list\<close>

definition ring_read :: "'a list \<Rightarrow> nat \<Rightarrow> nat \<Rightarrow> 'a list" where
  "ring_read buf r n = map (\<lambda>i. buf ! ((r + i) mod length buf)) [0..<n]"

definition splice :: "'a list \<Rightarrow> nat \<Rightarrow> 'a list \<Rightarrow> 'a list" where
  "splice buf pos src = take pos buf @ src @ drop (pos + length src) buf"

definition ring_write :: "'a list \<Rightarrow> nat \<Rightarrow> 'a list \<Rightarrow> 'a list" where
  "ring_write buf w src =
     (let f = min (length src) (length buf - w)
      in splice (splice buf w (take f src)) 0 (drop f src))"

lemma length_splice [simp]:
  "pos + length src \<le> length buf \<Longrightarrow> length (splice buf pos src) = length buf"
  by (simp add: splice_def)

lemma splice_Nil [simp]: "splice buf pos [] = buf"
  by (simp add: splice_def)

lemma nth_splice_if:
  "pos + length src \<le> length buf \<Longrightarrow> j < length buf \<Longrightarrow>
   splice buf pos src ! j = (if pos \<le> j \<and> j < pos + length src then src ! (j - pos) else buf ! j)"
  unfolding splice_def by (rule nth_splice)

lemma length_ring_read [simp]: "length (ring_read buf r n) = n"
  by (simp add: ring_read_def)

lemma ring_read_split:
  assumes "r < length buf" and "n \<le> length buf"
  shows "ring_read buf r n =
    take (min n (length buf - r)) (drop r buf) @ take (n - min n (length buf - r)) buf"
proof (rule nth_equalityI)
  fix i
  assume "i < length (ring_read buf r n)"
  then have i: "i < n" by simp
  show "ring_read buf r n ! i =
    (take (min n (length buf - r)) (drop r buf) @ take (n - min n (length buf - r)) buf) ! i"
  proof (cases "i < length buf - r")
    case True
    then show ?thesis using i assms by (simp add: ring_read_def nth_append)
  next
    case False
    then have "min n (length buf - r) = length buf - r" and "r + i - length buf < length buf"
      using i assms by auto
    moreover have "(r + i) mod length buf = r + i - length buf"
      using False calculation(2) by (simp add: le_mod_geq)
    ultimately show ?thesis
      using False i assms by (simp add: ring_read_def nth_append add.commute)
  qed
qed (use assms in auto)

lemma mod_shift: "b \<le> a \<Longrightarrow> a - b < L \<Longrightarrow> (a + L - b) mod L = a - b" for L :: nat
  by (metis Nat.add_diff_assoc2 mod_add_self2 mod_less)

lemma nth_ring_write:
  assumes "w < length buf" and "length src \<le> length buf" and "j < length buf"
  shows "ring_write buf w src ! j =
    (let d = (j + length buf - w) mod length buf in if d < length src then src ! d else buf ! j)"
proof (cases "w \<le> j")
  case True
  then have "(j + length buf - w) mod length buf = j - w"
    using assms by (intro mod_shift) auto
  with True assms show ?thesis
    by (auto simp: ring_write_def nth_splice_if Let_def min_def)
next
  case False
  then have "(j + length buf - w) mod length buf = j + length buf - w"
    using assms by simp
  with False assms show ?thesis
    by (auto simp: ring_write_def nth_splice_if Let_def min_def intro: arg_cong [where f = "nth src"])
qed

lemma length_ring_write [simp]:
  "w < length buf \<Longrightarrow> length src \<le> length buf \<Longrightarrow> length (ring_write buf w src) = length buf"
  by (auto simp: ring_write_def Let_def)

lemma ring_distance:
  fixes L :: nat
  assumes "0 < L" and "n \<le> L"
  shows "((r + i) mod L + L - (r + n) mod L) mod L = (i + L - n) mod L"
proof -
  have le: "(r + n) mod L \<le> (r + i) mod L + L"
    using assms(1) by (meson mod_less_divisor less_imp_le trans_le_add2)
  have "int (((r + i) mod L + L - (r + n) mod L) mod L)
      = (int ((r + i) mod L) - int ((r + n) mod L) + int L) mod int L"
    using le by (simp add: zmod_int algebra_simps)
  also have "\<dots> = (int ((r + i) mod L) - int ((r + n) mod L)) mod int L"
    by (rule mod_add_self2)
  also have "\<dots> = (int (r + i) - int (r + n)) mod int L"
    by (simp only: zmod_int mod_diff_eq)
  also have "\<dots> = (int i - int n + int L) mod int L"
    by simp
  also have "\<dots> = int ((i + L - n) mod L)"
    using assms(2) by (simp only: zmod_int of_nat_diff) (simp add: algebra_simps)
  finally show ?thesis by linarith
qed

lemma ring_read_write:
  assumes "0 < length buf" and "n + length src \<le> length buf"
  shows "ring_read (ring_write buf ((r + n) mod length buf) src) r (n + length src) =
    ring_read buf r n @ src"
proof (rule nth_equalityI)
  let ?L = "length buf" and ?w = "(r + n) mod length buf"
  have w: "?w < ?L" using assms(1) by simp
  fix i
  assume "i < length (ring_read (ring_write buf ?w src) r (n + length src))"
  then have i: "i < n + length src" by simp
  have d: "((r + i) mod ?L + ?L - ?w) mod ?L = (i + ?L - n) mod ?L"
    using assms by (intro ring_distance) auto
  have nth: "ring_write buf ?w src ! ((r + i) mod ?L) =
      (if (i + ?L - n) mod ?L < length src then src ! ((i + ?L - n) mod ?L)
       else buf ! ((r + i) mod ?L))"
    unfolding d [symmetric] using assms
    by (subst nth_ring_write [OF w]) (simp_all only: Let_def, auto)
  show "ring_read (ring_write buf ?w src) r (n + length src) ! i = (ring_read buf r n @ src) ! i"
  proof (cases "i < n")
    case True
    then have "(i + ?L - n) mod ?L = i + ?L - n" and "\<not> i + ?L - n < length src"
      using assms by auto
    with True show ?thesis
      using i assms w by (simp add: ring_read_def nth_append nth)
  next
    case False
    then have "(i + ?L - n) mod ?L = i - n" and "i - n < length src"
      using i assms by (auto intro: mod_shift)
    with False show ?thesis
      using i assms w by (simp add: ring_read_def nth_append nth)
  qed
qed (use assms in simp)

lemma ring_read_drop:
  assumes "k \<le> n"
  shows "ring_read buf ((r + k) mod length buf) (n - k) = drop k (ring_read buf r n)"
  using assms by (intro nth_equalityI) (auto simp: ring_read_def mod_add_left_eq add.assoc)

section \<open>Invariant, abstraction and the operations\<close>

definition rb_inv :: "recv_buffer \<Rightarrow> bool" where
  "rb_inv rb \<longleftrightarrow> (\<exists>k \<le> 62. length (rb_buf rb) = 2 ^ k)
     \<and> unat (rb_read rb) < length (rb_buf rb) \<and> unat (rb_size rb) \<le> length (rb_buf rb)"

definition rb_bytes :: "recv_buffer \<Rightarrow> byte list" where
  "rb_bytes rb = ring_read (rb_buf rb) (unat (rb_read rb)) (unat (rb_size rb))"

lemma length_rb_bytes [simp]: "length (rb_bytes rb) = unat (rb_size rb)"
  by (simp add: rb_bytes_def)

lemma rb_inv_cap:
  assumes "rb_inv rb"
  shows "unat (rb_cap rb) = length (rb_buf rb)" and "length (rb_buf rb) \<le> 2 ^ 62"
    and "0 < length (rb_buf rb)"
    and "unat (x AND (rb_cap rb - 1)) = unat x mod length (rb_buf rb)"
proof -
  obtain k where k: "k \<le> 62" "length (rb_buf rb) = 2 ^ k"
    using assms by (auto simp: rb_inv_def)
  show le: "length (rb_buf rb) \<le> 2 ^ 62"
    unfolding k(2) using k(1) by (rule power_increasing) simp
  then show "unat (rb_cap rb) = length (rb_buf rb)"
    by (simp add: rb_cap_def unat_of_nat_64)
  show "0 < length (rb_buf rb)" using k by simp
  have "rb_cap rb = 2 ^ k" by (simp add: rb_cap_def k(2))
  then show "unat (x AND (rb_cap rb - 1)) = unat x mod length (rb_buf rb)"
    using k by (simp only: unat_and_pow2_minus_1)
qed

lemma unat_min: "unat (min a b :: size_t) = min (unat a) (unat b)"
  by (simp add: min_def word_le_nat_alt)

lemma rb_copy_out:
  assumes "rb_inv rb" and "s < length (rb_buf rb)" and "n \<le> length (rb_buf rb)"
    and "f = min n (length (rb_buf rb) - s)"
  shows "mem_read (rb_buf rb) s f = Inr (take f (drop s (rb_buf rb)))"
    and "mem_read (rb_buf rb) 0 (n - f) = Inr (take (n - f) (rb_buf rb))"
    and "take f (drop s (rb_buf rb)) @ take (n - f) (rb_buf rb) = ring_read (rb_buf rb) s n"
  using assms ring_read_split [of s "rb_buf rb" n] by (auto simp: mem_read_def)

lemma rb_grow_ok:
  assumes inv: "rb_inv rb" and room: "unat (rb_size rb) + unat len \<le> 2 ^ 62"
    and small: "\<not> rb_cap rb - rb_size rb \<ge> len"
  shows "\<exists>k v. k \<le> 62 \<and> length v = 2 ^ k \<and> unat (rb_size rb) + unat len \<le> 2 ^ k
    \<and> take (unat (rb_size rb)) v = rb_bytes rb
    \<and> rb_ensureCapacityForAppend rb len = Inr (rb\<lparr>rb_buf := v, rb_read := 0\<rparr>)"
proof -
  let ?L = "length (rb_buf rb)" and ?n = "unat (rb_size rb)" and ?r = "unat (rb_read rb)"
  let ?req = "rb_size rb + len" and ?f = "min (rb_size rb) (rb_cap rb - rb_read rb)"
  note cap = rb_inv_cap [OF inv]
  have bnd: "?r < ?L" "?n \<le> ?L" using inv by (auto simp: rb_inv_def)
  have req: "unat ?req = ?n + unat len"
    using room by (intro unat_add_64) simp
  obtain k where k: "k \<le> 62" "unat (nextPowerOfTwo ?req) = 2 ^ k" "unat ?req \<le> 2 ^ k"
    using nextPowerOfTwo_spec [of ?req] room req by force
  let ?v = "replicate (2 ^ k) (CHR 0x00)"
  have "(2 :: nat) ^ k \<le> 2 ^ 62" using k(1) by (rule power_increasing) simp
  then have vec: "new_vector (nextPowerOfTwo ?req) = Inr ?v"
    by (simp add: new_vector_def vector_max_size_def word_le_nat_alt k(2))
  have f: "unat ?f = min ?n (?L - ?r)"
    using bnd by (simp add: unat_min unat_sub_64 cap)
  note out = rb_copy_out [OF inv bnd f]
  have rest: "unat (rb_size rb - ?f) = ?n - unat ?f"
    by (intro unat_sub_64) (simp add: f)
  have gt: "rb_size rb > ?f \<longleftrightarrow> ?n > unat ?f"
    by (simp add: word_less_nat_alt)
  have n2: "?n \<le> 2 ^ k" using k(3) req by simp
  define nb where "nb = rb_bytes rb @ drop ?n ?v"
  have "rb_ensureCapacityForAppend rb len = Inr (rb\<lparr>rb_buf := nb, rb_read := 0\<rparr>)"
  proof (cases "rb_size rb > 0")
    case True
    show ?thesis
      using small True vec out n2 f bnd unfolding rb_ensureCapacityForAppend_def Let_def gt rest
      by (auto simp: nb_def rb_bytes_def mem_write_def min_def drop_Cons' simp flip: out(3))
  next
    case False
    then have "rb_bytes rb = []" by (simp add: rb_bytes_def ring_read_def word_gt_0)
    with False small vec show ?thesis
      by (simp add: rb_ensureCapacityForAppend_def nb_def word_gt_0)
  qed
  then show ?thesis
    using k n2 req by (intro exI [of _ k] exI [of _ nb]) (simp add: nb_def)
qed

lemma rb_ensure_ok:
  assumes inv: "rb_inv rb" and room: "unat (rb_size rb) + unat len \<le> 2 ^ 62"
  shows "\<exists>rb'. rb_ensureCapacityForAppend rb len = Inr rb' \<and> rb_inv rb'
    \<and> rb_bytes rb' = rb_bytes rb \<and> rb_size rb' = rb_size rb
    \<and> unat (rb_size rb) + unat len \<le> length (rb_buf rb')"
proof (cases "rb_cap rb - rb_size rb \<ge> len")
  case True
  have "unat (rb_cap rb - rb_size rb) = length (rb_buf rb) - unat (rb_size rb)"
    using inv by (subst unat_sub_64) (auto simp: rb_inv_cap [OF inv] rb_inv_def)
  with True inv show ?thesis
    by (auto simp: rb_ensureCapacityForAppend_def word_le_nat_alt rb_inv_def)
next
  case False
  let ?n = "unat (rb_size rb)"
  obtain k v where v: "k \<le> 62" "length v = 2 ^ k" "?n + unat len \<le> 2 ^ k"
      "take ?n v = rb_bytes rb"
      "rb_ensureCapacityForAppend rb len = Inr (rb\<lparr>rb_buf := v, rb_read := 0\<rparr>)"
    using rb_grow_ok [OF inv room False] by blast
  have "ring_read v 0 ?n = take ?n v"
    using v(2,3) by (intro nth_equalityI) (auto simp: ring_read_def)
  with v show ?thesis
    by (auto simp: rb_inv_def rb_bytes_def)
qed

lemma rb_append_ok:
  assumes inv: "rb_inv rb" and room: "unat (rb_size rb) + length src \<le> 2 ^ 62"
  shows "\<exists>rb'. rb_append rb src = Inr rb' \<and> rb_inv rb' \<and> rb_bytes rb' = rb_bytes rb @ src"
proof (cases "src = []")
  case True
  then show ?thesis using inv by (simp add: rb_append_def)
next
  case False
  let ?len = "of_nat (length src) :: size_t"
  have len: "unat ?len = length src"
    using room by (intro unat_of_nat_64) simp
  then have nz: "?len \<noteq> 0" using False by (metis length_0_conv unat_0)
  obtain b where b: "rb_ensureCapacityForAppend rb ?len = Inr b" "rb_inv b"
      "rb_bytes b = rb_bytes rb" "rb_size b = rb_size rb"
      "unat (rb_size rb) + unat ?len \<le> length (rb_buf b)"
    using rb_ensure_ok [OF inv] room len by metis
  let ?L = "length (rb_buf b)" and ?r = "unat (rb_read b)" and ?n = "unat (rb_size b)"
  note cap = rb_inv_cap [OF b(2)]
  have fits: "?n + length src \<le> ?L" using b len by simp
  have bnd: "?r < ?L" "?n \<le> ?L" using b(2) by (auto simp: rb_inv_def)
  let ?wp = "(rb_read b + rb_size b) AND (rb_cap b - 1)"
  have "unat (rb_read b + rb_size b) = ?r + ?n"
    using bnd cap(2) by (intro unat_add_64) simp
  then have wp: "unat ?wp = (?r + ?n) mod ?L" by (simp only: cap(4))
  then have wpl: "unat ?wp < ?L" using cap(3) by simp
  let ?f = "min ?len (rb_cap b - ?wp)"
  have f: "unat ?f = min (length src) (?L - unat ?wp)"
    using wpl by (simp add: unat_min unat_sub_64 cap len)
  have gt: "?len > ?f \<longleftrightarrow> length src > unat ?f" by (simp add: word_less_nat_alt len)
  define nb where "nb = ring_write (rb_buf b) ((?r + ?n) mod ?L) src"
  have w1: "mem_write (rb_buf b) (unat ?wp) (take (unat ?f) src) =
      Inr (splice (rb_buf b) (unat ?wp) (take (unat ?f) src))"
    unfolding f using wpl by (simp add: mem_write_def splice_def)
  have "rb_append rb src = Inr (b\<lparr>rb_buf := nb, rb_size := rb_size b + ?len\<rparr>)"
    using nz b(1) wpl fits unfolding rb_append_def Let_def gt bindE_Inr b(1) w1
    by (auto simp: mem_write_def splice_def nb_def ring_write_def Let_def f wp)
  moreover have "unat (rb_size b + ?len) = ?n + length src"
    using fits cap(2) len by (subst unat_add_64) auto
  moreover have "length nb = ?L" using fits cap(3) by (simp add: nb_def)
  moreover have "ring_read nb ?r (?n + length src) = rb_bytes b @ src"
    unfolding nb_def rb_bytes_def using cap(3) fits by (rule ring_read_write)
  ultimately show ?thesis
    using b(2) fits by (auto simp: rb_inv_def rb_bytes_def b(3) [unfolded rb_bytes_def])
qed

lemma rb_peek_ok:
  assumes inv: "rb_inv rb" and nowrap: "unat offset + unat len < 2 ^ 64"
  shows "rb_peek rb len offset =
    Inr (if unat offset + unat len \<le> unat (rb_size rb)
         then Some (take (unat len) (drop (unat offset) (rb_bytes rb))) else None)"
proof -
  let ?L = "length (rb_buf rb)" and ?r = "unat (rb_read rb)" and ?n = "unat (rb_size rb)"
  note cap = rb_inv_cap [OF inv]
  have bnd: "?r < ?L" "?n \<le> ?L" using inv by (auto simp: rb_inv_def)
  have test: "offset + len > rb_size rb \<longleftrightarrow> unat offset + unat len > ?n"
    using unat_add_64 [OF nowrap] by (simp add: word_less_nat_alt)
  show ?thesis
  proof (cases "unat offset + unat len \<le> ?n")
    case True
    let ?s = "(rb_read rb + offset) AND (rb_cap rb - 1)"
    have "unat (rb_read rb + offset) = ?r + unat offset"
      using bnd cap(2) True by (intro unat_add_64) simp
    then have s: "unat ?s = (?r + unat offset) mod ?L" by (simp only: cap(4))
    then have sl: "unat ?s < ?L" using cap(3) by simp
    let ?f = "min len (rb_cap rb - ?s)"
    have f: "unat ?f = min (unat len) (?L - unat ?s)"
      using sl by (simp add: unat_min unat_sub_64 cap)
    have ll: "unat len \<le> ?L" using True bnd by simp
    note out = rb_copy_out [OF inv sl ll f]
    have rest: "unat (len - ?f) = unat len - unat ?f"
      by (intro unat_sub_64) (simp add: f)
    have gt: "len > ?f \<longleftrightarrow> unat len > unat ?f" by (simp add: word_less_nat_alt)
    have "rb_peek rb len offset = Inr (Some (ring_read (rb_buf rb) (unat ?s) (unat len)))"
      using True out unfolding rb_peek_def Let_def gt rest test by auto
    also have "ring_read (rb_buf rb) (unat ?s) (unat len) =
        take (unat len) (drop (unat offset) (rb_bytes rb))"
      unfolding s rb_bytes_def using True
      by (subst ring_read_drop [symmetric]) (auto simp: ring_read_def take_map)
    finally show ?thesis using True by simp
  next
    case False
    then show ?thesis by (simp add: rb_peek_def test)
  qed
qed

lemma rb_peekString_ok:
  assumes "rb_inv rb" and "unat offset + unat len \<le> unat (rb_size rb)"
  shows "rb_peekString rb offset len = Inr (take (unat len) (drop (unat offset) (rb_bytes rb)))"
proof -
  have "unat offset + unat len < 2 ^ 64"
    using assms rb_inv_cap(2) [OF assms(1)] by (simp add: rb_inv_def)
  from rb_peek_ok [OF assms(1) this] assms(2) show ?thesis
    by (auto simp: rb_peekString_def)
qed

lemma rb_consume_ok:
  assumes inv: "rb_inv rb"
  shows "rb_inv (rb_consume rb len) \<and> rb_bytes (rb_consume rb len) = drop (unat len) (rb_bytes rb)"
proof (cases "len \<ge> rb_size rb")
  case True
  then show ?thesis
    using inv by (auto simp: rb_consume_def rb_inv_def rb_bytes_def ring_read_def word_le_nat_alt)
next
  case False
  let ?L = "length (rb_buf rb)" and ?r = "unat (rb_read rb)" and ?n = "unat (rb_size rb)"
  note cap = rb_inv_cap [OF inv]
  have bnd: "?r < ?L" "?n \<le> ?L" "unat len < ?n"
    using inv False by (auto simp: rb_inv_def word_le_nat_alt)
  have "unat (rb_read rb + len) = ?r + unat len"
    using bnd cap(2) by (intro unat_add_64) simp
  then have s: "unat ((rb_read rb + len) AND (rb_cap rb - 1)) = (?r + unat len) mod ?L"
    by (simp only: cap(4))
  have z: "unat (rb_size rb - len) = ?n - unat len"
    using bnd by (intro unat_sub_64) simp
  have "ring_read (rb_buf rb) ((?r + unat len) mod ?L) (?n - unat len) = drop (unat len) (rb_bytes rb)"
    unfolding rb_bytes_def using bnd by (intro ring_read_drop) simp
  then show ?thesis
    using inv False bnd cap(3) unfolding rb_consume_def Let_def rb_inv_def rb_bytes_def
    by (auto simp: s z)
qed

lemma PoolRecvBuffer_ok:
  assumes "unat c \<le> 2 ^ 62"
  shows "\<exists>rb. PoolRecvBuffer c = Inr rb \<and> rb_inv rb \<and> rb_bytes rb = []"
proof -
  obtain k where k: "k \<le> 62" "unat (nextPowerOfTwo c) = 2 ^ k"
    using nextPowerOfTwo_spec [of c] assms by force
  have "(2 :: nat) ^ k \<le> 2 ^ 62" using k(1) by (rule power_increasing) simp
  then show ?thesis
    using k by (auto simp: PoolRecvBuffer_def new_vector_def vector_max_size_def word_le_nat_alt
        rb_inv_def rb_bytes_def ring_read_def)
qed

section \<open>The buffer keeps the byte-queue contract\<close>

interpretation rbuf: byte_fifo rb_inv rb_bytes rb_append rb_consume "2 ^ 62"
  by unfold_locales (simp_all add: rb_append_ok rb_consume_ok)

section \<open>Properties\<close>

text \<open>
  \<open>nextPowerOfTwo\<close> computes, for every argument up to \<open>2 ^ 63\<close>, the least power of two that
  is not below it.
\<close>

theorem next_power_of_two:
  assumes "unat x \<le> 2 ^ 63"
  shows "\<exists>k \<le> 63. unat (nextPowerOfTwo x) = 2 ^ k \<and> unat x \<le> 2 ^ k
    \<and> (\<forall>j. unat x \<le> 2 ^ j \<longrightarrow> k \<le> j)"
  using assms by (rule nextPowerOfTwo_spec)

theorem next_power_of_two_witness:
  "\<exists>k \<le> 63. unat (nextPowerOfTwo 5000) = 2 ^ k \<and> 5000 \<le> (2 :: nat) ^ k"
  using next_power_of_two [of 5000] by auto

text \<open>
  (C6) The receive buffer implements a byte queue. On a well-formed buffer every append of up to
  \<open>2 ^ 62\<close> bytes in total succeeds, stays inside the array (also when the write wraps around its
  end or the array is replaced by a larger one) and adds exactly the given bytes at the back;
  \<open>peek\<close> answers with exactly the bytes asked for, or with \<open>false\<close> when they are not all there;
  \<open>consume\<close> removes bytes from the front.
\<close>

theorem recv_buffer_queue:
  assumes "rb_inv rb" and "length (rb_bytes rb) + length src \<le> 2 ^ 62"
    and "unat off + unat len < 2 ^ 64"
  shows "(\<exists>rb'. rb_append rb src = Inr rb' \<and> rb_inv rb' \<and> rb_bytes rb' = rb_bytes rb @ src)
    \<and> rb_peek rb len off =
        Inr (if unat off + unat len \<le> length (rb_bytes rb)
             then Some (take (unat len) (drop (unat off) (rb_bytes rb))) else None)
    \<and> rb_inv (rb_consume rb len) \<and> rb_bytes (rb_consume rb len) = drop (unat len) (rb_bytes rb)"
  using rbuf.append_ok [OF assms(1,2)] rb_peek_ok [OF assms(1,3)] rb_consume_ok [OF assms(1)] by simp

definition rb_example :: recv_buffer where
  "rb_example = \<lparr>rb_buf = ''dabc'', rb_read = 1, rb_size = 3\<rparr>"

theorem recv_buffer_queue_witness:
  "(\<exists>rb'. rb_append rb_example ''xyz'' = Inr rb' \<and> rb_bytes rb' = ''abcxyz'')
   \<and> rb_peek rb_example 2 1 = Inr (Some ''bc'')"
proof -
  have "rb_inv rb_example" and "rb_bytes rb_example = ''abc''"
    by (simp_all add: rb_example_def rb_inv_def rb_bytes_def ring_read_def upt_rec exI [of _ 2])
  with recv_buffer_queue [of rb_example "''xyz''" 1 2] show ?thesis
    by auto
qed

end
