(* ===== verification/SendBuffer.thy ===== *)
theory SendBuffer
  imports ByteFifo
begin

text \<open>
  \<open>PoolSendBuffer\<close> (\<open>EpollChatServer.h\<close>): the linear buffer behind the two send queues of a
  connection. Sent bytes are skipped by advancing an offset, the rest is moved to the front
  before an append, and the block is replaced by one of doubled capacity when it is too small.

  The block comes from \<open>MemoryPool::allocate\<close>. The operations take its answer as an argument
  \<open>alloc\<close>: for a requested size, the old content of the block, or \<open>None\<close> for \<open>nullptr\<close>.
\<close>

section \<open>The class\<close>

record send_buffer =
  sb_capacity :: size_t
  sb_size :: size_t
  sb_offset :: size_t
  sb_data :: "byte list option"

type_synonym allocator = "size_t \<Rightarrow> byte list option"

definition PoolSendBuffer :: "allocator \<Rightarrow> size_t \<Rightarrow> send_buffer" where
  "PoolSendBuffer alloc initialCapacity =
     \<lparr>sb_capacity = initialCapacity, sb_size = 0, sb_offset = 0, sb_data = alloc initialCapacity\<rparr>"

definition sb_remaining :: "send_buffer \<Rightarrow> size_t" where
  "sb_remaining sb = sb_size sb - sb_offset sb"

definition sb_pendingAfterAppend :: "send_buffer \<Rightarrow> size_t \<Rightarrow> size_t" where
  "sb_pendingAfterAppend sb appendLen = sb_remaining sb + appendLen"

text \<open>\<open>currentData()\<close> together with the \<open>len\<close> bytes a reader takes from it.\<close>

definition sb_currentData :: "send_buffer \<Rightarrow> size_t \<Rightarrow> fault + byte list" where
  "sb_currentData sb len =
     bindE (deref (sb_data sb)) (\<lambda>d. mem_read d (unat (sb_offset sb)) (unat len))"

definition sb_consume :: "send_buffer \<Rightarrow> size_t \<Rightarrow> send_buffer" where
  "sb_consume sb len =
     (let sb = sb\<lparr>sb_offset := sb_offset sb + len\<rparr> in
      if sb_offset sb \<ge> sb_size sb then sb\<lparr>sb_offset := 0, sb_size := 0\<rparr> else sb)"

definition sb_swap :: "send_buffer \<times> send_buffer \<Rightarrow> send_buffer \<times> send_buffer" where
  "sb_swap p = (snd p, fst p)"

text \<open>\<open>while (newCapacity < required) newCapacity *= 2;\<close>, which need not end.\<close>

partial_function (option) growCapacity :: "size_t \<Rightarrow> size_t \<Rightarrow> size_t option" where
  "growCapacity newCapacity required =
     (if newCapacity < required then growCapacity (newCapacity * 2) required
      else Some newCapacity)"

text \<open>The part of \<open>ensureCapacityForAppend\<close> that moves the unsent bytes to the front.\<close>

definition sb_compact :: "send_buffer \<Rightarrow> fault + send_buffer" where
  "sb_compact sb =
     (if sb_offset sb > 0 then
        let remain = sb_size sb - sb_offset sb in
        bindE (if remain > 0 then
                 bindE (deref (sb_data sb)) (\<lambda>d.
                 bindE (mem_read d (unat (sb_offset sb)) (unat remain)) (\<lambda>part.
                 bindE (mem_write d 0 part) (\<lambda>d. Inr (Some d))))
               else Inr (sb_data sb)) (\<lambda>data.
        Inr (sb\<lparr>sb_data := data, sb_size := remain, sb_offset := 0\<rparr>))
      else Inr sb)"

definition sb_ensureCapacityForAppend :: "allocator \<Rightarrow> send_buffer \<Rightarrow> size_t \<Rightarrow> fault + send_buffer" where
  "sb_ensureCapacityForAppend alloc sb appendLen =
     bindE (sb_compact sb) (\<lambda>sb.
     let required = sb_size sb + appendLen in
     if required \<le> sb_capacity sb then Inr sb
     else case growCapacity (sb_capacity sb) required of
         None \<Rightarrow> Inl Diverges
       | Some newCapacity \<Rightarrow>
           bindE (deref (alloc newCapacity)) (\<lambda>newData.
           bindE (deref (sb_data sb)) (\<lambda>d.
           bindE (mem_read d 0 (unat (sb_size sb))) (\<lambda>part.
           bindE (mem_write newData 0 part) (\<lambda>newData.
           Inr (sb\<lparr>sb_data := Some newData, sb_capacity := newCapacity\<rparr>))))))"

definition sb_append :: "allocator \<Rightarrow> send_buffer \<Rightarrow> byte list \<Rightarrow> fault + send_buffer" where
  "sb_append alloc sb src =
     (let len = of_nat (length src) :: size_t in
      if len = 0 then Inr sb
      else bindE (sb_ensureCapacityForAppend alloc sb len) (\<lambda>sb.
           bindE (deref (sb_data sb)) (\<lambda>d.
           bindE (mem_write d (unat (sb_size sb)) src) (\<lambda>d.
           Inr (sb\<lparr>sb_data := Some d, sb_size := sb_size sb + len\<rparr>)))))"

section \<open>Growth by doubling\<close>

lemma growCapacity_returns:
  assumes "0 < unat c" and "unat r \<le> 2 ^ 63"
  shows "\<exists>c' k. growCapacity c r = Some c' \<and> unat c' = unat c * 2 ^ k \<and> unat r \<le> unat c'
    \<and> (k = 0 \<or> unat c' < 2 * unat r)"
  using assms
proof (induction "unat r - unat c" arbitrary: c rule: less_induct)
  case less
  show ?case
  proof (cases "c < r")
    case True
    then have lt: "unat c < unat r" by (simp add: word_less_nat_alt)
    then have dbl: "unat (c * 2) = unat c * 2"
      using less.prems by (subst unat_mult_64) auto
    have "\<exists>c' k. growCapacity (c * 2) r = Some c' \<and> unat c' = unat (c * 2) * 2 ^ k
        \<and> unat r \<le> unat c' \<and> (k = 0 \<or> unat c' < 2 * unat r)"
      using less.prems lt dbl by (intro less.hyps) auto
    then obtain c' k where c': "growCapacity (c * 2) r = Some c'" "unat c' = unat (c * 2) * 2 ^ k"
        "unat r \<le> unat c'" "k = 0 \<or> unat c' < 2 * unat r"
      by blast
    have pow: "unat c' = unat c * 2 ^ Suc k" using c'(2) dbl by simp
    have "growCapacity c r = Some c'"
      using True c'(1) by (subst growCapacity.simps) simp
    moreover have "unat c' < 2 * unat r" using pow c'(4) lt by auto
    ultimately show ?thesis using pow c'(3) by blast
  next
    case False
    then have "growCapacity c r = Some c" by (subst growCapacity.simps) simp
    with False show ?thesis by (intro exI [of _ c] exI [of _ 0]) (auto simp: word_less_nat_alt)
  qed
qed

lemma growCapacity_ok:
  assumes "0 < unat c" and "unat c \<le> 2 ^ 63" and "unat r \<le> 2 ^ 62"
  shows "\<exists>c'. growCapacity c r = Some c' \<and> r \<le> c' \<and> c \<le> c' \<and> unat c' \<le> 2 ^ 63"
proof -
  have "unat r \<le> 2 ^ 63" using assms(3) by simp
  then obtain c' k where "growCapacity c r = Some c'" "unat c' = unat c * 2 ^ k" "unat r \<le> unat c'"
      "k = 0 \<or> unat c' < 2 * unat r"
    using growCapacity_returns [OF assms(1)] by blast
  moreover have "unat c \<le> unat c'" using calculation(2) by simp
  ultimately show ?thesis using assms by (auto simp: word_le_nat_alt)
qed

text \<open>A capacity of zero is never left: the loop doubles zero for ever.\<close>

lemma growCapacity_result:
  assumes "growCapacity c r = Some c'"
  shows "r \<le> c' \<and> (c = 0 \<longrightarrow> c' = 0)"
proof (rule growCapacity.raw_induct [OF _ assms])
  fix f :: "size_t \<Rightarrow> size_t \<Rightarrow> size_t option" and c r c' :: size_t
  assume IH: "\<And>c r c'. f c r = Some c' \<Longrightarrow> r \<le> c' \<and> (c = 0 \<longrightarrow> c' = 0)"
    and step: "(if c < r then f (c * 2) r else Some c) = Some c'"
  show "r \<le> c' \<and> (c = 0 \<longrightarrow> c' = 0)"
    using step IH [of "c * 2" r c'] by (auto split: if_splits simp: not_less)
qed

lemma growCapacity_zero: "0 < r \<Longrightarrow> growCapacity 0 r = None"
  using growCapacity_result [of 0 r] by (cases "growCapacity 0 r") (auto simp: word_gt_0)

section \<open>Invariant, abstraction and the operations\<close>

definition sb_inv :: "send_buffer \<Rightarrow> bool" where
  "sb_inv sb \<longleftrightarrow> (case sb_data sb of None \<Rightarrow> False | Some d \<Rightarrow> length d = unat (sb_capacity sb))
     \<and> 0 < unat (sb_capacity sb) \<and> unat (sb_capacity sb) \<le> 2 ^ 63
     \<and> unat (sb_offset sb) \<le> unat (sb_size sb) \<and> unat (sb_size sb) \<le> unat (sb_capacity sb)"

definition sb_bytes :: "send_buffer \<Rightarrow> byte list" where
  "sb_bytes sb = (case sb_data sb of None \<Rightarrow> []
     | Some d \<Rightarrow> drop (unat (sb_offset sb)) (take (unat (sb_size sb)) d))"

text \<open>An allocator that always answers, with blocks of arbitrary old content \<open>junk\<close>.\<close>

definition block_of :: "(nat \<Rightarrow> byte) \<Rightarrow> allocator" where
  "block_of junk n = Some (map junk [0..<unat n])"

lemma sb_invE:
  assumes "sb_inv sb"
  obtains d where "sb_data sb = Some d" "length d = unat (sb_capacity sb)"
    "0 < unat (sb_capacity sb)" "unat (sb_capacity sb) \<le> 2 ^ 63"
    "unat (sb_offset sb) \<le> unat (sb_size sb)" "unat (sb_size sb) \<le> unat (sb_capacity sb)"
    "sb_bytes sb = drop (unat (sb_offset sb)) (take (unat (sb_size sb)) d)"
  using assms by (auto simp: sb_inv_def sb_bytes_def split: option.splits)

lemma sb_remaining_ok: "sb_inv sb \<Longrightarrow> unat (sb_remaining sb) = length (sb_bytes sb)"
  by (erule sb_invE) (simp add: sb_remaining_def unat_sub_64)

lemma sb_compact_ok:
  assumes "sb_inv sb"
  shows "\<exists>sb'. sb_compact sb = Inr sb' \<and> sb_inv sb' \<and> sb_bytes sb' = sb_bytes sb \<and> sb_offset sb' = 0
    \<and> sb_capacity sb' = sb_capacity sb"
proof -
  from assms obtain d where d: "sb_data sb = Some d" "length d = unat (sb_capacity sb)"
    "0 < unat (sb_capacity sb)" "unat (sb_capacity sb) \<le> 2 ^ 63"
    "unat (sb_offset sb) \<le> unat (sb_size sb)" "unat (sb_size sb) \<le> unat (sb_capacity sb)"
    "sb_bytes sb = drop (unat (sb_offset sb)) (take (unat (sb_size sb)) d)"
    by (rule sb_invE)
  have rem: "unat (sb_size sb - sb_offset sb) = unat (sb_size sb) - unat (sb_offset sb)"
    using d by (intro unat_sub_64)
  show ?thesis
  proof (cases "sb_offset sb > 0")
    case True
    with d rem show ?thesis
      by (auto simp: sb_compact_def Let_def deref_def mem_read_def mem_write_def sb_inv_def
          sb_bytes_def word_gt_0 drop_take)
  next
    case False
    with assms show ?thesis by (auto simp: sb_compact_def word_gt_0)
  qed
qed

lemma sb_front:
  assumes "sb_data s = Some d" and "length d = unat (sb_capacity s)" and "0 < unat (sb_capacity s)"
    and "unat (sb_capacity s) \<le> 2 ^ 63" and "sb_offset s = 0"
    and "unat (sb_size s) \<le> unat (sb_capacity s)"
  shows "sb_inv s" and "sb_bytes s = take (unat (sb_size s)) d"
  using assms by (simp_all add: sb_inv_def sb_bytes_def)

lemma sb_ensure_ok:
  assumes inv: "sb_inv sb" and room: "length (sb_bytes sb) + unat len \<le> 2 ^ 62"
  shows "\<exists>sb'. sb_ensureCapacityForAppend (block_of junk) sb len = Inr sb' \<and> sb_inv sb'
    \<and> sb_bytes sb' = sb_bytes sb \<and> sb_offset sb' = 0
    \<and> unat (sb_size sb') + unat len \<le> unat (sb_capacity sb')"
proof -
  obtain s where s: "sb_compact sb = Inr s" "sb_inv s" "sb_bytes s = sb_bytes sb" "sb_offset s = 0"
    using sb_compact_ok [OF inv] by blast
  from s(2) obtain d where d: "sb_data s = Some d" "length d = unat (sb_capacity s)"
    "0 < unat (sb_capacity s)" "unat (sb_capacity s) \<le> 2 ^ 63"
    "unat (sb_size s) \<le> unat (sb_capacity s)" "sb_bytes s = take (unat (sb_size s)) d"
    by (rule sb_invE) (simp add: s(4))
  have n: "unat (sb_size s) = length (sb_bytes sb)" using d s(3) by simp
  have req: "unat (sb_size s + len) = unat (sb_size s) + unat len"
    using room n by (intro unat_add_64) simp
  show ?thesis
  proof (cases "sb_size s + len \<le> sb_capacity s")
    case True
    with s req show ?thesis
      by (auto simp: sb_ensureCapacityForAppend_def word_le_nat_alt)
  next
    case False
    obtain c where c: "growCapacity (sb_capacity s) (sb_size s + len) = Some c"
        "sb_size s + len \<le> c" "sb_capacity s \<le> c" "unat c \<le> 2 ^ 63"
      using growCapacity_ok [OF d(3,4), of "sb_size s + len"] room req n by auto
    let ?nd = "take (unat (sb_size s)) d @ drop (unat (sb_size s)) (map junk [0..<unat c])"
    let ?s = "s\<lparr>sb_data := Some ?nd, sb_capacity := c\<rparr>"
    have le: "unat (sb_size s) + unat len \<le> unat c"
      using c(2) req by (simp add: word_le_nat_alt)
    then have "sb_ensureCapacityForAppend (block_of junk) sb len = Inr ?s"
      using False s(1) c d by (simp add: sb_ensureCapacityForAppend_def deref_def block_of_def
          mem_read_def mem_write_def)
    moreover have "sb_inv ?s" and "sb_bytes ?s = take (unat (sb_size ?s)) ?nd"
      using sb_front [of ?s ?nd] s(4) d le c by (simp_all add: word_le_nat_alt)
    ultimately show ?thesis
      using s(3,4) d le by simp
  qed
qed

lemma sb_append_ok:
  assumes inv: "sb_inv sb" and room: "length (sb_bytes sb) + length src \<le> 2 ^ 62"
  shows "\<exists>sb'. sb_append (block_of junk) sb src = Inr sb' \<and> sb_inv sb'
    \<and> sb_bytes sb' = sb_bytes sb @ src"
proof (cases "src = []")
  case True
  then show ?thesis using inv by (simp add: sb_append_def)
next
  case False
  let ?len = "of_nat (length src) :: size_t"
  have len: "unat ?len = length src"
    using room by (intro unat_of_nat_64) simp
  then have nz: "?len \<noteq> 0" using False by (metis length_0_conv unat_0)
  obtain s where s: "sb_ensureCapacityForAppend (block_of junk) sb ?len = Inr s" "sb_inv s"
      "sb_bytes s = sb_bytes sb" "sb_offset s = 0"
      "unat (sb_size s) + unat ?len \<le> unat (sb_capacity s)"
    using sb_ensure_ok [OF inv, of ?len junk] room len by auto
  from s(2) obtain d where d: "sb_data s = Some d" "length d = unat (sb_capacity s)"
    "0 < unat (sb_capacity s)" "unat (sb_capacity s) \<le> 2 ^ 63"
    "sb_bytes s = take (unat (sb_size s)) d"
    by (rule sb_invE) (simp add: s(4))
  have n: "unat (sb_size s + ?len) = unat (sb_size s) + length src"
    using s(5) d(4) len by (subst unat_add_64) auto
  let ?d = "take (unat (sb_size s)) d @ src @ drop (unat (sb_size s) + length src) d"
  let ?s = "s\<lparr>sb_data := Some ?d, sb_size := sb_size s + ?len\<rparr>"
  have "sb_append (block_of junk) sb src = Inr ?s"
    using nz s(1,5) d len by (simp add: sb_append_def deref_def mem_write_def)
  moreover have "sb_inv ?s" and "sb_bytes ?s = take (unat (sb_size ?s)) ?d"
    using sb_front [of ?s ?d] s(4,5) d n len by simp_all
  ultimately show ?thesis
    using s(3,5) d n len by simp
qed

lemma sb_consume_ok:
  assumes inv: "sb_inv sb" and le: "unat n \<le> length (sb_bytes sb)"
  shows "sb_inv (sb_consume sb n) \<and> sb_bytes (sb_consume sb n) = drop (unat n) (sb_bytes sb)"
proof -
  from inv obtain d where d: "sb_data sb = Some d" "length d = unat (sb_capacity sb)"
    "unat (sb_capacity sb) \<le> 2 ^ 63"
    "unat (sb_offset sb) \<le> unat (sb_size sb)" "unat (sb_size sb) \<le> unat (sb_capacity sb)"
    "sb_bytes sb = drop (unat (sb_offset sb)) (take (unat (sb_size sb)) d)"
    by (rule sb_invE)
  have off: "unat (sb_offset sb + n) = unat (sb_offset sb) + unat n"
    using d le by (intro unat_add_64) simp
  show ?thesis
    using inv d le off
    by (auto simp: sb_consume_def Let_def sb_inv_def sb_bytes_def word_le_nat_alt add.commute)
qed

lemma sb_currentData_ok:
  assumes "sb_inv sb" and "unat len \<le> length (sb_bytes sb)"
  shows "sb_currentData sb len = Inr (take (unat len) (sb_bytes sb))"
  using assms by (elim sb_invE) (auto simp: sb_currentData_def deref_def mem_read_def take_drop)

lemma PoolSendBuffer_ok:
  "0 < unat c \<Longrightarrow> unat c \<le> 2 ^ 63 \<Longrightarrow>
   sb_inv (PoolSendBuffer (block_of junk) c) \<and> sb_bytes (PoolSendBuffer (block_of junk) c) = []"
  by (simp add: PoolSendBuffer_def block_of_def sb_inv_def sb_bytes_def)

section \<open>The buffer keeps the byte-queue contract\<close>

interpretation sbuf: byte_fifo sb_inv sb_bytes "sb_append (block_of junk)" sb_consume "2 ^ 62"
  for junk
  by unfold_locales (simp_all add: sb_append_ok sb_consume_ok)

section \<open>Properties\<close>

text \<open>
  The doubling loop of \<open>ensureCapacityForAppend\<close> ends for every positive capacity and every
  request up to \<open>2 ^ 63\<close> bytes, with the first doubling of the capacity that is large enough;
  with capacity zero it never ends.
\<close>

theorem grow_capacity_terminates:
  "(0 < c \<and> unat r \<le> 2 ^ 63 \<longrightarrow>
     (\<exists>c' k. growCapacity c r = Some c' \<and> unat c' = unat c * 2 ^ k \<and> r \<le> c'
        \<and> (k = 0 \<or> unat c' < 2 * unat r)))
   \<and> (0 < r \<longrightarrow> growCapacity 0 r = None)"
  using growCapacity_returns [of c r] growCapacity_zero [of r]
  by (auto simp: word_le_nat_alt word_less_nat_alt)

theorem grow_capacity_terminates_witness:
  "(\<exists>c' k. growCapacity 4096 10000 = Some c' \<and> unat c' = 4096 * 2 ^ k \<and> 10000 \<le> c')
   \<and> growCapacity 0 1 = None"
  using grow_capacity_terminates [of 4096 10000] grow_capacity_terminates [of 1 1] by auto

text \<open>
  (C7) The send buffer implements a byte queue: an append puts exactly the given bytes behind the
  unsent ones (through compaction and growth, with no access outside the block), \<open>currentData\<close>
  shows the oldest unsent bytes, \<open>consume\<close> removes them, and \<open>remaining\<close> is their number.
\<close>

theorem send_buffer_queue:
  assumes "sb_inv sb" and "length (sb_bytes sb) + length src \<le> 2 ^ 62"
    and "unat n \<le> length (sb_bytes sb)"
  shows "(\<exists>sb'. sb_append (block_of junk) sb src = Inr sb' \<and> sb_inv sb'
       \<and> sb_bytes sb' = sb_bytes sb @ src)
    \<and> sb_currentData sb n = Inr (take (unat n) (sb_bytes sb))
    \<and> sb_inv (sb_consume sb n) \<and> sb_bytes (sb_consume sb n) = drop (unat n) (sb_bytes sb)
    \<and> unat (sb_remaining sb) = length (sb_bytes sb)"
  using sbuf.append_ok [OF assms(1,2)] sb_currentData_ok [OF assms(1,3)]
    sbuf.consume_ok [OF assms(1,3)] sb_remaining_ok [OF assms(1)] by simp

definition sb_example :: send_buffer where
  "sb_example = \<lparr>sb_capacity = 4, sb_size = 3, sb_offset = 1, sb_data = Some ''wxyz''\<rparr>"

theorem send_buffer_queue_witness:
  "\<exists>sb'. sb_append (block_of (\<lambda>_. CHR ''?'')) sb_example ''abc'' = Inr sb' \<and> sb_bytes sb' = ''xyabc''"
proof -
  have "sb_inv sb_example" and "sb_bytes sb_example = ''xy''"
    by (simp_all add: sb_example_def sb_inv_def sb_bytes_def)
  with send_buffer_queue [of sb_example "''abc''" 1 "\<lambda>_. CHR ''?''"] show ?thesis
    by auto
qed

text \<open>
  When the buffer has to grow and the memory pool answers \<open>nullptr\<close>, the append goes on with
  the null pointer: \<open>ensureCapacityForAppend\<close> never looks at the pointer it got.
\<close>

theorem send_append_unchecked_null:
  assumes "sb_inv sb" and "length (sb_bytes sb) + length src \<le> 2 ^ 62"
    and "unat (sb_capacity sb) < length (sb_bytes sb) + length src"
    and "src \<noteq> []"
  shows "sb_append (\<lambda>_. None) sb src = Inl NullPointer"
proof -
  let ?len = "of_nat (length src) :: size_t"
  have len: "unat ?len = length src"
    using assms(2) by (intro unat_of_nat_64) simp
  then have nz: "?len \<noteq> 0" using assms(4) by (metis length_0_conv unat_0)
  obtain s where s: "sb_compact sb = Inr s" "sb_inv s" "sb_bytes s = sb_bytes sb" "sb_offset s = 0"
      "sb_capacity s = sb_capacity sb"
    using sb_compact_ok [OF assms(1)] by blast
  have n: "unat (sb_size s) = length (sb_bytes sb)" and cap: "0 < unat (sb_capacity s)"
      "unat (sb_capacity s) \<le> 2 ^ 63"
    using s(2-4) sb_remaining_ok [OF s(2)] by (auto simp: sb_remaining_def elim: sb_invE)
  have req: "unat (sb_size s + ?len) = length (sb_bytes sb) + length src"
    using assms(2) n len by (subst unat_add_64) auto
  obtain c where "growCapacity (sb_capacity s) (sb_size s + ?len) = Some c"
    using growCapacity_ok [OF cap, of "sb_size s + ?len"] req assms(2) by auto
  moreover have "\<not> sb_size s + ?len \<le> sb_capacity s"
    using req assms(3) s(5) by (simp add: word_le_nat_alt)
  ultimately show ?thesis
    using nz s(1) by (simp add: sb_append_def sb_ensureCapacityForAppend_def deref_def)
qed

theorem send_append_unchecked_null_witness:
  "sb_append (\<lambda>_. None) sb_example ''abc'' = Inl NullPointer"
  by (rule send_append_unchecked_null) (simp_all add: sb_example_def sb_inv_def sb_bytes_def)

end
