(* ===== verification/Wire.thy ===== *)
theory Wire
  imports Prelude
begin

text \<open>
  The protobuf-style wire format of packet bodies (namespace \<open>pb\<close> of \<open>EpollChatServer.cpp\<close>):
  base-128 varints, tagged strings and integers, and skipping of a field. Offsets are \<open>size_t\<close>,
  so that \<open>off + len\<close> wraps around as in the source.
\<close>

section \<open>Varints\<close>

function writeVarint :: "u64 \<Rightarrow> string \<Rightarrow> string" where
  "writeVarint v out =
     (if v \<ge> 0x80 then writeVarint (drop_bit 7 v) (out @ [to_byte ((v AND 0x7F) OR 0x80)])
      else out @ [to_byte v])"
  by pat_completeness auto
termination
proof (relation "measure (\<lambda>(v, out). unat v)")
  fix v :: u64 and out :: string
  assume "v \<ge> 0x80"
  then have "0 < unat v" by (simp add: word_le_nat_alt)
  then have "unat v div 128 < unat v" by simp
  then show "((drop_bit 7 v, out @ [to_byte ((v AND 0x7F) OR 0x80)]), v, out)
      \<in> measure (\<lambda>(v, out). unat v)"
    by (simp add: drop_bit_eq_div unat_div)
qed simp

declare writeVarint.simps [simp del]

text \<open>
  The reading loop: result flag, the advanced offset and the value. \<open>shift\<close> takes the values
  0, 7, ..., 63.
\<close>

function readVarint_loop :: "string \<Rightarrow> size_t \<Rightarrow> u64 \<Rightarrow> nat \<Rightarrow> bool \<times> size_t \<times> u64" where
  "readVarint_loop inp off v shift =
     (if off < str_size inp \<and> shift \<le> 63 then
        let b = byte_of (inp ! unat off);
            off = off + 1;
            v = v OR push_bit shift (ucast (b AND 0x7F))
        in if b AND 0x80 = 0 then (True, off, v) else readVarint_loop inp off v (shift + 7)
      else (False, off, v))"
  by pat_completeness auto
termination
  by (relation "measure (\<lambda>(inp, off, v, shift). 64 - shift)") auto

declare readVarint_loop.simps [simp del]

definition readVarint :: "string \<Rightarrow> size_t \<Rightarrow> bool \<times> size_t \<times> u64" where
  "readVarint inp off = readVarint_loop inp off 0 0"

section \<open>Fields\<close>

definition writeKey :: "u32 \<Rightarrow> u8 \<Rightarrow> string \<Rightarrow> string" where
  "writeKey fieldNo wireType out =
     writeVarint (push_bit 3 (ucast fieldNo) OR ucast wireType) out"

definition writeString :: "u32 \<Rightarrow> string \<Rightarrow> string \<Rightarrow> string" where
  "writeString fieldNo s out = writeVarint (str_size s) (writeKey fieldNo 2 out) @ s"

definition writeUint64 :: "u32 \<Rightarrow> u64 \<Rightarrow> string \<Rightarrow> string" where
  "writeUint64 fieldNo v out = writeVarint v (writeKey fieldNo 0 out)"

definition skipField :: "u8 \<Rightarrow> string \<Rightarrow> size_t \<Rightarrow> bool \<times> size_t" where
  "skipField wt inp off =
     (if wt = 0 then (case readVarint inp off of (ok, off, tmp) \<Rightarrow> (ok, off))
      else if wt = 2 then
        (case readVarint inp off of (ok, off, len) \<Rightarrow>
          if \<not> ok then (False, off)
          else if off + len > str_size inp then (False, off)
          else (True, off + len))
      else (False, off))"

section \<open>Reading back what was written\<close>

text \<open>The bytes \<open>writeVarint\<close> appends.\<close>

definition varint :: "u64 \<Rightarrow> string" where
  "varint v = writeVarint v []"

lemma writeVarint_append: "writeVarint v (out @ out') = out @ writeVarint v out'"
proof (induction v out' rule: writeVarint.induct)
  case (1 v out')
  then show ?case
    by (subst (1 2) writeVarint.simps) simp
qed

lemma writeVarint_eq: "writeVarint v out = out @ varint v"
  using writeVarint_append [of v out "[]"] by (simp add: varint_def)

lemma varint_simps:
  "varint v = (if v \<ge> 0x80 then to_byte ((v AND 0x7F) OR 0x80) # varint (drop_bit 7 v)
     else [to_byte v])"
  unfolding varint_def by (subst writeVarint.simps) (simp add: writeVarint_eq)

lemma mask7: "(0x7F :: u64) = mask 7" "(0x7F :: u8) = mask 7"
    "(0x80 :: u64) = 2 ^ 7" "(0x80 :: u8) = 2 ^ 7"
  by (simp_all add: mask_eq_exp_minus_1)

lemmas word_bits = bit_and_iff bit_or_iff bit_unsigned_iff bit_mask_iff bit_exp_iff bit_take_bit_iff
  bit_push_bit_iff bit_drop_bit_eq

lemma varint_cont_byte:
  "ucast ((ucast ((v AND 0x7F) OR 0x80) :: u8) AND 0x7F) = take_bit 7 (v :: u64)"
  "(ucast ((v AND 0x7F) OR 0x80) :: u8) AND 0x80 \<noteq> 0"
proof -
  show "ucast ((ucast ((v AND 0x7F) OR 0x80) :: u8) AND 0x7F) = take_bit 7 v"
    unfolding mask7 by (rule bit_word_eqI) (simp only: word_bits, auto)
  have "bit ((ucast ((v AND 0x7F) OR 0x80) :: u8) AND 0x80) 7"
    unfolding mask7 by (simp only: word_bits) simp
  then show "(ucast ((v AND 0x7F) OR 0x80) :: u8) AND 0x80 \<noteq> 0"
    by auto
qed

lemma varint_last_byte:
  assumes "\<not> v \<ge> (0x80 :: u64)"
  shows "ucast ((ucast v :: u8) AND 0x7F) = v" and "(ucast v :: u8) AND 0x80 = 0"
proof -
  have "unat v < 2 ^ 7" using assms by (simp add: word_le_nat_alt)
  then have "take_bit 7 v = v"
    by (simp add: word_unat_eq_iff unsigned_take_bit_eq take_bit_nat_eq_self)
  then have lo: "n < 7" if "bit v n" for n
    using that by (metis bit_take_bit_iff)
  show "ucast ((ucast v :: u8) AND 0x7F) = v"
    unfolding mask7 by (rule bit_word_eqI) (simp only: word_bits, use lo in fastforce)
  show "(ucast v :: u8) AND 0x80 = 0"
    unfolding mask7 by (rule bit_word_eqI) (simp only: word_bits, use lo in fastforce)
qed

lemma push_bit_join:
  "push_bit s (take_bit 7 v) OR push_bit (s + 7) (drop_bit 7 v) = push_bit s (v :: u64)"
proof (rule bit_word_eqI)
  fix n :: nat
  assume "n < LENGTH(64)"
  moreover have "n - s < 7 \<or> 7 + (n - (s + 7)) = n - s" by arith
  ultimately show "bit (push_bit s (take_bit 7 v) OR push_bit (s + 7) (drop_bit 7 v)) n =
      bit (push_bit s v) n"
    by (auto simp: bit_simps)
qed

text \<open>
  One run of the loop over the bytes of \<open>v\<close>, from any accumulator. Ten bytes are enough: the
  loop's bound on \<open>shift\<close> is never reached before the last byte of a 64-bit value.
\<close>

lemma readVarint_loop_varint:
  assumes "shift \<le> 63" and "unat v < 2 ^ (64 - shift)"
    and "unat off = length pre" and "length (pre @ varint v @ post) < 2 ^ 64"
  shows "readVarint_loop (pre @ varint v @ post) off acc shift =
    (True, off + of_nat (length (varint v)), acc OR push_bit shift v)"
  using assms
proof (induction v arbitrary: shift off pre acc rule: measure_induct_rule [of unat])
  case (less v)
  let ?inp = "pre @ varint v @ post"
  have ne: "varint v \<noteq> []" by (subst varint_simps) simp
  then have "off < str_size ?inp"
    using less.prems by (simp add: word_less_nat_alt)
  then have go: "off < str_size ?inp \<and> shift \<le> 63" using less.prems by simp
  have nth: "?inp ! unat off = hd (varint v)"
    using ne less.prems(3) by (simp add: nth_append hd_conv_nth)
  show ?case
  proof (cases "v \<ge> 0x80")
    case True
    let ?c = "to_byte ((v AND 0x7F) OR 0x80)"
    have vv: "varint v = ?c # varint (drop_bit 7 v)"
      using True by (subst varint_simps) simp
    have dr: "unat (drop_bit 7 v) = unat v div 2 ^ 7"
      by (simp add: drop_bit_eq_div unat_div)
    have big: "2 ^ 7 \<le> unat v" using True by (simp add: word_le_nat_alt)
    have "(2 :: nat) ^ 7 < 2 ^ (64 - shift)" using big less.prems(2) by linarith
    then have "7 < 64 - shift" by (rule power_less_imp_less_exp [rotated]) simp
    then have sh: "shift + 7 \<le> 63" "64 - shift = 7 + (64 - (shift + 7))" by auto
    have "unat v div 2 ^ 7 < 2 ^ (64 - (shift + 7))"
      using less.prems(2) unfolding sh(2) power_add by (simp add: less_mult_imp_div_less mult.commute)
    moreover have "unat (off + 1) = length (pre @ [?c])"
      using less.prems(3,4) by (subst unat_add_64) (auto simp: vv)
    ultimately have "readVarint_loop ((pre @ [?c]) @ varint (drop_bit 7 v) @ post) (off + 1)
        (acc OR push_bit shift (take_bit 7 v)) (shift + 7) =
        (True, off + 1 + of_nat (length (varint (drop_bit 7 v))),
         (acc OR push_bit shift (take_bit 7 v)) OR push_bit (shift + 7) (drop_bit 7 v))"
      using less.prems(4) sh(1) big dr by (intro less.IH) (auto simp: vv)
    then show ?thesis
      using go nth by (subst readVarint_loop.simps)
        (simp add: vv varint_cont_byte or.assoc push_bit_join Let_def)
  next
    case False
    then have "varint v = [to_byte v]" by (subst varint_simps) simp
    with go nth show ?thesis
      by (subst readVarint_loop.simps) (simp add: varint_last_byte [OF False] Let_def)
  qed
qed

lemma readVarint_varint:
  assumes "off = of_nat (length pre)" and "length (pre @ varint v @ post) < 2 ^ 64"
  shows "readVarint (pre @ varint v @ post) off = (True, of_nat (length (pre @ varint v)), v)"
proof -
  have "unat off = length pre" using assms by (simp add: unat_of_nat_64)
  moreover have "unat v < 2 ^ (64 - 0)" using unat_lt_64 [of v] by simp
  ultimately have "readVarint_loop (pre @ varint v @ post) off 0 0 =
      (True, off + of_nat (length (varint v)), 0 OR push_bit 0 v)"
    using assms(2) by (intro readVarint_loop_varint) auto
  then show ?thesis using assms(1) by (simp add: readVarint_def)
qed

lemma varint_length: "unat v < 2 ^ (7 * n) \<Longrightarrow> 0 < n \<Longrightarrow> length (varint v) \<le> n"
proof (induction n arbitrary: v)
  case (Suc n)
  show ?case
  proof (cases "v \<ge> 0x80")
    case True
    have dr: "unat (drop_bit 7 v) = unat v div 2 ^ 7"
      by (simp add: drop_bit_eq_div unat_div)
    have "unat v < 2 ^ 7 * 2 ^ (7 * n)" using Suc.prems by (simp add: power_add)
    then have lt: "unat (drop_bit 7 v) < 2 ^ (7 * n)"
      unfolding dr by (simp add: less_mult_imp_div_less mult.commute)
    have "n \<noteq> 0"
      using True Suc.prems by (intro notI) (simp add: word_le_nat_alt)
    then show ?thesis
      using True Suc.IH [OF lt] by (subst varint_simps) simp
  qed (subst varint_simps, simp)
qed simp

text \<open>The loop never moves the offset backwards or past the end, and progresses on success.\<close>

lemma readVarint_loop_bounds:
  assumes "readVarint_loop inp off v shift = (ok, off', v')"
    and "length inp < 2 ^ 64" and "unat off \<le> length inp"
  shows "unat off \<le> unat off' \<and> unat off' \<le> length inp \<and> (ok \<longrightarrow> unat off < unat off')"
  using assms
proof (induction inp off v shift rule: readVarint_loop.induct)
  case (1 inp off v shift)
  show ?case
  proof (cases "off < str_size inp \<and> shift \<le> 63")
    case True
    then have "unat off < length inp" using 1 by (simp add: word_less_nat_alt)
    then have inc: "unat (off + 1) = unat off + 1"
      using "1.prems"(2) by (subst unat_add_64) auto
    let ?b = "byte_of (inp ! unat off)"
    show ?thesis
    proof (cases "?b AND 0x80 = 0")
      case stop: True
      then show ?thesis
        using "1.prems"(1) True inc \<open>unat off < length inp\<close>
        by (subst (asm) readVarint_loop.simps) (auto simp: Let_def)
    next
      case False
      then have "readVarint_loop inp (off + 1) (v OR push_bit shift (ucast (?b AND 0x7F))) (shift + 7)
          = (ok, off', v')"
        using "1.prems"(1) True by (subst (asm) readVarint_loop.simps) (auto simp: Let_def)
      then show ?thesis
        using "1.IH" [OF True refl refl refl False] "1.prems"(2) inc \<open>unat off < length inp\<close> by auto
    qed
  next
    case False
    then show ?thesis
      using 1 by (subst (asm) readVarint_loop.simps) auto
  qed
qed

lemmas readVarint_bounds = readVarint_loop_bounds [of _ _ 0 0, folded readVarint_def]

section \<open>Keys\<close>

lemma key_parts:
  fixes f :: u32 and w :: u8
  assumes "w < 8"
  shows "ucast (drop_bit 3 (push_bit 3 (ucast f) OR ucast w :: u64)) = f"
    and "ucast ((push_bit 3 (ucast f) OR ucast w :: u64) AND 7) = w"
proof -
  have seven: "(7 :: u64) = mask 3" by (simp add: mask_eq_exp_minus_1)
  have "unat w < 2 ^ 3" using assms by (simp add: word_less_nat_alt)
  then have "take_bit 3 w = w"
    by (simp add: word_unat_eq_iff unsigned_take_bit_eq take_bit_nat_eq_self)
  then have lo: "n < 3" if "bit w n" for n
    using that by (metis bit_take_bit_iff)
  show "ucast (drop_bit 3 (push_bit 3 (ucast f) OR ucast w :: u64)) = f"
    by (rule bit_word_eqI) (auto simp: bit_simps dest: lo)
  show "ucast ((push_bit 3 (ucast f) OR ucast w :: u64) AND 7) = w"
    unfolding seven by (rule bit_word_eqI) (auto simp: bit_simps dest: lo)
qed

section \<open>Properties\<close>

text \<open>
  (C8) Reading inverts writing: a varint written behind any output and followed by any bytes is
  read back from that place with its value, the offset ends right behind it, and it takes at
  most ten bytes.
\<close>

theorem varint_roundtrip:
  assumes "length (writeVarint v out @ post) < 2 ^ 64"
  shows "readVarint (writeVarint v out @ post) (str_size out) =
      (True, str_size (writeVarint v out), v)
    \<and> length (writeVarint v out) \<le> length out + 10"
proof -
  have "unat v < 2 ^ (7 * 10)" using unat_lt_64 [of v] by simp
  then have "length (varint v) \<le> 10" by (rule varint_length) simp
  then show ?thesis
    using readVarint_varint [of "str_size out" out v post] assms
    by (simp add: writeVarint_eq str_size_def)
qed

theorem varint_roundtrip_witness:
  "readVarint (writeVarint 300 ''ab'' @ ''z'') (str_size ''ab'') =
     (True, str_size (writeVarint 300 ''ab''), 300)"
proof -
  have "length (writeVarint 300 ''ab'' @ ''z'') < 2 ^ 64"
    by (simp add: writeVarint.simps)
  then show ?thesis using varint_roundtrip by blast
qed

end
