(* ===== verification/Json.thy ===== *)
theory Json
  imports Prelude
begin

text \<open>
  The hand-written JSON text handling of \<open>EpollChatServer.cpp\<close>: extraction of a field by a
  tolerant and by a strict scanner, decimal numbers, arrays of numbers, and the builders of chat
  bodies. Positions in a string are kept as the text that is left from there on.
\<close>

section \<open>Decimal numbers\<close>

text \<open>\<open>std::to_string\<close> and \<open>std::isdigit\<close>.\<close>

definition digit_char :: "nat \<Rightarrow> char" where
  "digit_char d = char_of (48 + d)"

fun to_string :: "nat \<Rightarrow> string" where
  "to_string n = (if n < 10 then [digit_char n] else to_string (n div 10) @ [digit_char (n mod 10)])"

declare to_string.simps [simp del]

definition isdigit :: "char \<Rightarrow> bool" where
  "isdigit c \<longleftrightarrow> 48 \<le> (of_char c :: nat) \<and> (of_char c :: nat) \<le> 57"

definition digit_val :: "char \<Rightarrow> u64" where
  "digit_val c = of_nat (of_char c) - 48"

fun parseUint64_loop :: "u64 \<Rightarrow> string \<Rightarrow> u64" where
  "parseUint64_loop v [] = v"
| "parseUint64_loop v (ch # s) =
     (if \<not> isdigit ch then 0 else parseUint64_loop (v * 10 + digit_val ch) s)"

definition parseUint64Safe :: "string \<Rightarrow> u64" where
  "parseUint64Safe s = (if s = [] then 0 else parseUint64_loop 0 s)"

section \<open>Scanners\<close>

text \<open>\<open>std::string::find\<close>: what is left from the first match on.\<close>

fun find_sub :: "string \<Rightarrow> string \<Rightarrow> string option" where
  "find_sub needle [] = (if needle = [] then Some [] else None)"
| "find_sub needle (c # cs) =
     (if take (length needle) (c # cs) = needle then Some (c # cs) else find_sub needle cs)"

abbreviation DQ :: char where "DQ \<equiv> CHR 0x22" \<comment> \<open>double quote\<close>
abbreviation BSL :: char where "BSL \<equiv> CHR 0x5C" \<comment> \<open>backslash\<close>

definition extractJsonValueLite :: "string \<Rightarrow> string \<Rightarrow> string" where
  \<open>extractJsonValueLite json key =
     (let searchKey = ''"'' @ key @ ''"'' in
      case find_sub searchKey json of
        None \<Rightarrow> ''''
      | Some rest \<Rightarrow>
          (case find_sub '':'' rest of
             None \<Rightarrow> ''''
           | Some rest \<Rightarrow>
               takeWhile (\<lambda>c. c \<noteq> CHR ''"'' \<and> c \<noteq> CHR '','' \<and> c \<noteq> CHR ''}'')
                 (dropWhile (\<lambda>c. c = CHR '' '' \<or> c = CHR ''"'') (tl rest))))\<close>

text \<open>\<open>EpollChatServer::extractJsonValue\<close> repeats the same code as a member function.\<close>

definition extractJsonValue :: "string \<Rightarrow> string \<Rightarrow> string" where
  \<open>extractJsonValue json key =
     (let searchKey = ''"'' @ key @ ''"'' in
      case find_sub searchKey json of
        None \<Rightarrow> ''''
      | Some rest \<Rightarrow>
          (case find_sub '':'' rest of
             None \<Rightarrow> ''''
           | Some rest \<Rightarrow>
               takeWhile (\<lambda>c. c \<noteq> CHR ''"'' \<and> c \<noteq> CHR '','' \<and> c \<noteq> CHR ''}'')
                 (dropWhile (\<lambda>c. c = CHR '' '' \<or> c = CHR ''"'') (tl rest))))\<close>

definition is_ws :: "char \<Rightarrow> bool" where
  "is_ws c \<longleftrightarrow> c = CHR '' '' \<or> c = CHR 0x09 \<or> c = CHR 0x0D \<or> c = CHR 0x0A"

text \<open>
  The value between the quotes: the text up to the first quote that is the first character of
  the value or has no backslash before it. \<open>prev\<close> is the character before the current one,
  \<open>None\<close> at the start of the value.
\<close>

fun scanValue :: "char option \<Rightarrow> string \<Rightarrow> string option" where
  "scanValue prev [] = None"
| "scanValue prev (c # cs) =
     (if c = DQ \<and> prev \<noteq> Some BSL then Some []
      else map_option (Cons c) (scanValue (Some c) cs))"

text \<open>The part of \<open>extractJsonStringFast\<close> behind the matched key.\<close>

definition keyedValue :: "string \<Rightarrow> string option" where
  "keyedValue rest =
     (case dropWhile is_ws rest of
        [] \<Rightarrow> None
      | c # p \<Rightarrow>
          if c \<noteq> CHR '':'' then None
          else (case dropWhile is_ws p of
                  [] \<Rightarrow> None
                | c # p \<Rightarrow> if c \<noteq> DQ then None else scanValue None p))"

fun extractFast_loop :: "string \<Rightarrow> string \<Rightarrow> string option" where
  "extractFast_loop key [] = None"
| "extractFast_loop key (c # cs) =
     (if length key + 2 \<le> length (c # cs) then
        if c \<noteq> DQ then extractFast_loop key cs
        else if 1 + length key \<ge> length (c # cs) then None
        else if take (length key) cs \<noteq> key \<or> cs ! length key \<noteq> DQ then extractFast_loop key cs
        else keyedValue (drop (length key + 1) cs)
      else None)"

text \<open>\<open>None\<close> stands for the result \<open>false\<close>, with \<open>out\<close> left as it was.\<close>

definition extractJsonStringFast :: "string \<Rightarrow> string \<Rightarrow> string option" where
  "extractJsonStringFast json key =
     (if length key = 0 \<or> length json < length key + 2 then None else extractFast_loop key json)"

definition parseChatFieldsFast :: "string \<Rightarrow> (string \<times> string \<times> string) option" where
  "parseChatFieldsFast json =
     (case extractJsonStringFast json ''sender'' of None \<Rightarrow> None
      | Some sender \<Rightarrow>
          (case extractJsonStringFast json ''target'' of None \<Rightarrow> None
           | Some target \<Rightarrow>
               (case extractJsonStringFast json ''message'' of None \<Rightarrow> None
                | Some message \<Rightarrow> Some (sender, target, message))))"

text \<open>
  The loop of \<open>parseJsonUint64ArrayFast\<close>. \<open>std::stoull\<close> of a digit string is its value, or the
  exception \<open>out_of_range\<close>, which the code swallows, when that exceeds 64 bits.
\<close>

fun digits_val :: "nat \<Rightarrow> string \<Rightarrow> nat" where
  "digits_val v [] = v"
| "digits_val v (c # cs) = digits_val (v * 10 + (of_char c - 48)) cs"

definition stoull_digits :: "string \<Rightarrow> u64 option" where
  "stoull_digits s = (if digits_val 0 s < 2 ^ 64 then Some (of_nat (digits_val 0 s)) else None)"

definition is_sep :: "char \<Rightarrow> bool" where
  "is_sep c \<longleftrightarrow> is_ws c \<or> c = CHR '',''"

definition to_delim :: "string \<Rightarrow> string" where
  "to_delim s = dropWhile (\<lambda>c. c \<noteq> CHR '','' \<and> c \<noteq> CHR '']'') s"

lemma length_dropWhile_less: "xs \<noteq> [] \<Longrightarrow> P (hd xs) \<Longrightarrow> length (dropWhile P xs) < length xs"
  by (cases xs) (auto simp: length_dropWhile_le le_imp_less_Suc)

lemma parseArray_progress:
  assumes "dropWhile is_sep rest \<noteq> []" and "hd (dropWhile is_sep rest) \<noteq> CHR '']''"
  shows "length (to_delim (dropWhile isdigit (dropWhile is_sep rest))) < length rest"
proof -
  let ?r = "dropWhile is_sep rest"
  have le: "length ?r \<le> length rest" by (rule length_dropWhile_le)
  have "\<not> is_sep (hd ?r)" using hd_dropWhile [OF assms(1)] .
  then have nc: "hd ?r \<noteq> CHR '',''" by (auto simp: is_sep_def)
  show ?thesis
  proof (cases "isdigit (hd ?r)")
    case True
    then have "length (dropWhile isdigit ?r) < length ?r" using assms(1) by (intro length_dropWhile_less)
    moreover have "length (to_delim (dropWhile isdigit ?r)) \<le> length (dropWhile isdigit ?r)"
      unfolding to_delim_def by (rule length_dropWhile_le)
    ultimately show ?thesis using le by linarith
  next
    case False
    then have "dropWhile isdigit ?r = ?r" using assms(1) by (cases ?r) auto
    moreover have "length (to_delim ?r) < length ?r"
      unfolding to_delim_def using assms nc by (intro length_dropWhile_less) auto
    ultimately show ?thesis using le by simp
  qed
qed

function parseArray_loop :: "nat \<Rightarrow> string \<Rightarrow> u64 list \<Rightarrow> u64 list" where
  "parseArray_loop maxCount rest out =
     (if rest \<noteq> [] \<and> length out < maxCount then
        let rest1 = dropWhile is_sep rest in
        if rest1 = [] \<or> hd rest1 = CHR '']'' then out
        else
          let num = takeWhile isdigit rest1; rest2 = to_delim (dropWhile isdigit rest1) in
          if num = [] then
            (if rest2 \<noteq> [] \<and> hd rest2 = CHR '']'' then out else parseArray_loop maxCount rest2 out)
          else
            (let out = (case stoull_digits num of Some v \<Rightarrow> out @ [v] | None \<Rightarrow> out) in
             if rest2 \<noteq> [] \<and> hd rest2 = CHR '']'' then out else parseArray_loop maxCount rest2 out)
      else out)"
  by pat_completeness auto
termination
  by (relation "measure (\<lambda>(m, rest, out). length rest)") (simp_all add: parseArray_progress)

declare parseArray_loop.simps [simp del]

definition parseJsonUint64ArrayFast :: "string \<Rightarrow> string \<Rightarrow> nat \<Rightarrow> u64 list" where
  \<open>parseJsonUint64ArrayFast json key maxCount =
     (if key = '''' then []
      else
       let needle = ''"'' @ key @ ''"'' in
       case find_sub needle json of
         None \<Rightarrow> []
       | Some rest \<Rightarrow>
           (case find_sub ''['' (drop (length needle) rest) of
              None \<Rightarrow> []
            | Some rest \<Rightarrow> parseArray_loop maxCount (tl rest) []))\<close>

section \<open>Builders\<close>

definition buildEnrichedChatBody :: "string \<Rightarrow> string \<Rightarrow> string \<Rightarrow> string \<Rightarrow> string" where
  \<open>buildEnrichedChatBody sender target message ts =
     ''{"sender":"'' @ sender @ ''","target":"'' @ target @ ''","message":"'' @ message @
     ''","timestamp":"'' @ ts @ ''"}''\<close>

definition buildEnrichedChatBodyWithMsgId ::
    "u64 \<Rightarrow> string \<Rightarrow> string \<Rightarrow> string \<Rightarrow> string \<Rightarrow> string" where
  \<open>buildEnrichedChatBodyWithMsgId msgId sender target message ts =
     ''{"msg_id":"'' @ to_string (unat msgId) @ ''","sender":"'' @ sender @ ''","target":"'' @ target @
     ''","message":"'' @ message @ ''","timestamp":"'' @ ts @ ''"}''\<close>

section \<open>Objects of string fields\<close>

text \<open>
  The texts the server builds are objects whose values are strings: \<open>json_obj\<close> of a list of
  fields. The scanners look for the quoted key anywhere in the text, so what matters is the
  sequence of texts between consecutive quotes.
\<close>

definition json_pair :: "string \<Rightarrow> string \<Rightarrow> string" where
  "json_pair k v = DQ # k @ DQ # '':'' @ DQ # v @ [DQ]"

fun json_fields :: "(string \<times> string) list \<Rightarrow> string" where
  "json_fields [] = []"
| "json_fields [(k, v)] = json_pair k v"
| "json_fields ((k, v) # kv # kvs) = json_pair k v @ '','' @ json_fields (kv # kvs)"

definition json_obj :: "(string \<times> string) list \<Rightarrow> string" where
  "json_obj kvs = ''{'' @ json_fields kvs @ ''}''"

definition plain :: "string \<Rightarrow> bool" where
  "plain v \<longleftrightarrow> DQ \<notin> set v \<and> BSL \<notin> set v"

text \<open>A key that may be looked up, and that no value in front of its field imitates.\<close>

definition key_ok :: "string \<Rightarrow> bool" where
  "key_ok key \<longleftrightarrow> key \<noteq> [] \<and> DQ \<notin> set key \<and> key \<noteq> '':'' \<and> key \<noteq> '',''"

definition not_imitated :: "string \<Rightarrow> (string \<times> string) list \<Rightarrow> bool" where
  "not_imitated key kvs \<longleftrightarrow> (\<forall>(k, v) \<in> set (takeWhile (\<lambda>(k, v). k \<noteq> key) kvs). v \<noteq> key)"

lemma not_imitated_Cons:
  "not_imitated key ((k, v) # kvs) \<longleftrightarrow> k = key \<or> v \<noteq> key \<and> not_imitated key kvs"
  by (auto simp: not_imitated_def)

lemma not_imitated_Nil [simp]: "not_imitated key []"
  by (simp add: not_imitated_def)

definition fields_ok :: "(string \<times> string) list \<Rightarrow> bool" where
  "fields_ok kvs \<longleftrightarrow> (\<forall>(k, v) \<in> set kvs. DQ \<notin> set k \<and> plain v)"

lemma fields_ok_simps [simp]:
  "fields_ok []"
  "fields_ok ((k, v) # kvs) \<longleftrightarrow> DQ \<notin> set k \<and> plain v \<and> fields_ok kvs"
  by (auto simp: fields_ok_def)

text \<open>Two quote-free texts before a quote are equal when one is a prefix up to its quote.\<close>

lemma quoted_eq:
  assumes "DQ \<notin> set seg" and "DQ \<notin> set key"
    and "take (length key) (seg @ DQ # rest) = key" and "(seg @ DQ # rest) ! length key = DQ"
    and "length key < length (seg @ DQ # rest)"
  shows "seg = key"
proof -
  have "seg @ DQ # rest = key @ DQ # drop (Suc (length key)) (seg @ DQ # rest)"
    using assms(3-5) by (metis append_take_drop_id Cons_nth_drop_Suc)
  moreover have "takeWhile (\<lambda>c. c \<noteq> DQ) (s @ DQ # r) = s" if "DQ \<notin> set s" for s r
    using that by (induction s) auto
  ultimately show ?thesis
    using assms(1,2) by metis
qed

lemma extractFast_short: "length rest < length key + 2 \<Longrightarrow> extractFast_loop key rest = None"
  by (cases rest) auto

lemma extractFast_skip:
  "DQ \<notin> set a \<Longrightarrow> extractFast_loop key (a @ rest) = extractFast_loop key rest"
proof (induction a)
  case (Cons c a)
  then show ?case
    using extractFast_short [of rest key] by (cases "length key + 2 \<le> length (c # a @ rest)") auto
qed simp

lemma extractFast_other:
  assumes "DQ \<notin> set seg" and "DQ \<notin> set key" and "seg \<noteq> key"
  shows "extractFast_loop key (DQ # seg @ DQ # rest) = extractFast_loop key (DQ # rest)"
proof (cases "length key + 2 \<le> length (DQ # seg @ DQ # rest)")
  case True
  then have "\<not> (take (length key) (seg @ DQ # rest) = key \<and> (seg @ DQ # rest) ! length key = DQ)"
    using quoted_eq [OF assms(1,2), of rest] assms(3) by fastforce
  then have "extractFast_loop key (DQ # seg @ DQ # rest) = extractFast_loop key (seg @ DQ # rest)"
    using True by auto
  then show ?thesis by (simp only: extractFast_skip [OF assms(1)])
next
  case False
  then show ?thesis
    using extractFast_short [of "DQ # rest" key] extractFast_short [of "DQ # seg @ DQ # rest" key]
    by simp
qed

lemma extractFast_match: "extractFast_loop key (DQ # key @ DQ # rest) = keyedValue rest"
  by simp

declare extractFast_loop.simps(2) [simp del]

text \<open>A whole field is passed over, or is the one looked for.\<close>

lemma extractFast_pair_other:
  assumes "key_ok key" and "DQ \<notin> set k" and "plain v" and "k \<noteq> key" and "v \<noteq> key"
  shows "extractFast_loop key (json_pair k v @ rest) = extractFast_loop key (DQ # rest)"
proof -
  have "extractFast_loop key (json_pair k v @ rest) =
      extractFast_loop key (DQ # '':'' @ DQ # v @ DQ # rest)"
    using extractFast_other [of k key] assms by (simp add: json_pair_def key_ok_def)
  also have "\<dots> = extractFast_loop key (DQ # v @ DQ # rest)"
    using assms(1) by (intro extractFast_other) (auto simp: key_ok_def)
  also have "\<dots> = extractFast_loop key (DQ # rest)"
    using assms by (intro extractFast_other) (auto simp: key_ok_def plain_def)
  finally show ?thesis .
qed

lemma scanValue_plain:
  "plain v \<Longrightarrow> prev \<noteq> Some BSL \<Longrightarrow> scanValue prev (v @ DQ # rest) = Some v"
  by (induction v arbitrary: prev) (auto simp: plain_def)

lemma keyedValue_plain: "plain v \<Longrightarrow> keyedValue (CHR '':'' # DQ # v @ DQ # rest) = Some v"
  by (simp add: keyedValue_def is_ws_def scanValue_plain)

lemma extractFast_pair_match:
  "plain v \<Longrightarrow> extractFast_loop key (json_pair key v @ rest) = Some v"
  by (simp add: json_pair_def extractFast_match keyedValue_plain)

lemma extractFast_comma:
  assumes "key_ok key"
  shows "extractFast_loop key (DQ # CHR '','' # DQ # rest) = extractFast_loop key (DQ # rest)"
  using assms extractFast_other [of "'',''" key rest] by (auto simp: key_ok_def)

lemma json_fields_DQ: "\<exists>rest. json_fields (kv # kvs) = DQ # rest"
  by (cases kv; cases kvs) (auto simp: json_pair_def)

lemma extractFast_fields:
  assumes "key_ok key" and "fields_ok kvs" and "not_imitated key kvs"
  shows "extractFast_loop key (json_fields kvs @ ''}'') = map_of kvs key"
  using assms(2,3)
proof (induction kvs rule: json_fields.induct)
  case 1
  then show ?case using extractFast_short [of "''}''" key] by simp
next
  case (2 k v)
  then show ?case
    using assms(1) extractFast_pair_other [of key k v "''}''"] extractFast_pair_match [of v key "''}''"]
      extractFast_short [of "DQ # ''}''" key]
    by (cases "k = key") (auto simp: not_imitated_Cons key_ok_def)
next
  case (3 k v kv kvs)
  obtain rest where rest: "json_fields (kv # kvs) = DQ # rest"
    using json_fields_DQ by blast
  show ?case
  proof (cases "k = key")
    case True
    with "3.prems" show ?thesis by (simp add: extractFast_pair_match)
  next
    case False
    then have "extractFast_loop key (json_fields ((k, v) # kv # kvs) @ ''}'') =
        extractFast_loop key (DQ # CHR '','' # DQ # rest @ ''}'')"
      using "3.prems" assms(1)
        extractFast_pair_other [of key k v "CHR '','' # DQ # rest @ ''}''"]
      by (auto simp: not_imitated_Cons rest)
    also have "\<dots> = map_of (kv # kvs) key"
      using "3" False by (simp add: extractFast_comma [OF assms(1)] rest not_imitated_Cons)
    finally show ?thesis using False by simp
  qed
qed

lemma extractFast_obj:
  assumes "key_ok key" and "fields_ok kvs" and "not_imitated key kvs"
  shows "extractJsonStringFast (json_obj kvs) key = map_of kvs key"
proof -
  have loop: "extractFast_loop key (json_obj kvs) = map_of kvs key"
    using extractFast_fields [OF assms] extractFast_skip [of "''{''" key "json_fields kvs @ ''}''"]
    by (simp add: json_obj_def)
  then show ?thesis
    using assms(1) extractFast_short [of "json_obj kvs" key]
    by (auto simp: extractJsonStringFast_def key_ok_def)
qed

text \<open>The same for the tolerant scanner, which finds the quoted key by \<open>std::string::find\<close>.\<close>

definition quoted :: "string \<Rightarrow> string" where
  "quoted key = DQ # key @ [DQ]"

lemma find_skip: "DQ \<notin> set a \<Longrightarrow> find_sub (quoted key) (a @ rest) = find_sub (quoted key) rest"
  by (induction a) (auto simp: quoted_def)

lemma find_other:
  assumes "DQ \<notin> set seg" and "DQ \<notin> set key" and "seg \<noteq> key"
  shows "find_sub (quoted key) (DQ # seg @ DQ # rest) = find_sub (quoted key) (DQ # rest)"
proof -
  have "\<not> take (length (quoted key)) (DQ # seg @ DQ # rest) = quoted key"
  proof
    assume "take (length (quoted key)) (DQ # seg @ DQ # rest) = quoted key"
    then have t: "take (Suc (length key)) (seg @ DQ # rest) = key @ [DQ]"
      by (simp add: quoted_def)
    then have len: "length key < length (seg @ DQ # rest)"
      by (metis length_append_singleton length_take lessI min_less_iff_conj nat_less_le not_less_eq)
    moreover have "take (length key) (seg @ DQ # rest) = key" and "(seg @ DQ # rest) ! length key = DQ"
      using t take_Suc_conv_app_nth [OF len] by auto
    ultimately have "seg = key" using quoted_eq [OF assms(1,2)] by blast
    with assms(3) show False by simp
  qed
  then have "find_sub (quoted key) (DQ # seg @ DQ # rest) = find_sub (quoted key) (seg @ DQ # rest)"
    by simp
  then show ?thesis by (simp only: find_skip [OF assms(1)])
qed

lemma find_match: "find_sub (quoted key) (json_pair key v @ rest) = Some (json_pair key v @ rest)"
  by (simp add: quoted_def json_pair_def)

lemma find_pair_other:
  assumes "key_ok key" and "DQ \<notin> set k" and "plain v" and "k \<noteq> key" and "v \<noteq> key"
  shows "find_sub (quoted key) (json_pair k v @ rest) = find_sub (quoted key) (DQ # rest)"
proof -
  have "find_sub (quoted key) (json_pair k v @ rest) =
      find_sub (quoted key) (DQ # '':'' @ DQ # v @ DQ # rest)"
    using find_other [of k key] assms by (simp add: json_pair_def key_ok_def)
  also have "\<dots> = find_sub (quoted key) (DQ # v @ DQ # rest)"
    using assms(1) by (intro find_other) (auto simp: key_ok_def)
  also have "\<dots> = find_sub (quoted key) (DQ # rest)"
    using assms by (intro find_other) (auto simp: key_ok_def plain_def)
  finally show ?thesis .
qed

lemma find_fields:
  assumes "key_ok key" and "fields_ok kvs" and "not_imitated key kvs"
  shows "case map_of kvs key of
      None \<Rightarrow> find_sub (quoted key) (json_fields kvs @ ''}'') = None
    | Some v \<Rightarrow> \<exists>c post. find_sub (quoted key) (json_fields kvs @ ''}'') =
        Some (json_pair key v @ c # post) \<and> c \<in> {CHR '','', CHR ''}''}"
  using assms(2,3)
proof (induction kvs rule: json_fields.induct)
  case 1
  then show ?case by (simp add: quoted_def)
next
  case (2 k v)
  have "find_sub (quoted key) (DQ # ''}'') = None"
    using assms(1) by (cases key) (auto simp: quoted_def key_ok_def)
  with 2 show ?case
    using assms(1) find_pair_other [of key k v "''}''"] find_match [of key v "''}''"]
    by (cases "k = key") (auto simp: not_imitated_Cons)
next
  case (3 k v kv kvs)
  obtain rest where rest: "json_fields (kv # kvs) = DQ # rest"
    using json_fields_DQ by blast
  show ?case
  proof (cases "k = key")
    case True
    with find_match [of key v] show ?thesis by auto
  next
    case False
    then have "find_sub (quoted key) (json_fields ((k, v) # kv # kvs) @ ''}'') =
        find_sub (quoted key) (DQ # '','' @ DQ # rest @ ''}'')"
      using "3.prems" assms(1) find_pair_other [of key k v "'','' @ DQ # rest @ ''}''"]
      by (auto simp: not_imitated_Cons rest)
    also have "\<dots> = find_sub (quoted key) (json_fields (kv # kvs) @ ''}'')"
      unfolding rest using assms(1) find_other [of "'',''" key "rest @ ''}''"]
      by (auto simp: key_ok_def)
    finally have eq: "find_sub (quoted key) (json_fields ((k, v) # kv # kvs) @ ''}'') =
        find_sub (quoted key) (json_fields (kv # kvs) @ ''}'')" .
    have m: "map_of ((k, v) # kv # kvs) key = map_of (kv # kvs) key"
      using False by simp
    have "fields_ok (kv # kvs)" and "not_imitated key (kv # kvs)"
      using "3.prems" False by (simp_all add: not_imitated_Cons)
    then show ?thesis unfolding eq m by (rule "3.IH")
  qed
qed

lemma find_colon: "CHR '':'' \<notin> set a \<Longrightarrow> find_sub '':'' (a @ CHR '':'' # b) = Some (CHR '':'' # b)"
  by (induction a) auto

lemma extractLite_obj:
  assumes "key_ok key" and "CHR '':'' \<notin> set key" and "fields_ok kvs" and "not_imitated key kvs"
  shows "map_of kvs key = None \<Longrightarrow> extractJsonValueLite (json_obj kvs) key = []"
    and "map_of kvs key = Some v \<Longrightarrow> CHR '','' \<notin> set v \<Longrightarrow> CHR ''}'' \<notin> set v \<Longrightarrow>
      (v \<noteq> [] \<longrightarrow> hd v \<noteq> CHR '' '') \<Longrightarrow> extractJsonValueLite (json_obj kvs) key = v"
proof -
  have q: "''\"'' @ key @ ''\"'' = quoted key" by (simp add: quoted_def)
  have obj: "find_sub (quoted key) (json_obj kvs) = find_sub (quoted key) (json_fields kvs @ ''}'')"
    by (simp add: json_obj_def quoted_def)
  note ff = find_fields [OF assms(1,3,4)]
  show "extractJsonValueLite (json_obj kvs) key = []" if "map_of kvs key = None"
    using that ff by (simp only: extractJsonValueLite_def q obj Let_def) simp
  assume v: "map_of kvs key = Some v" "CHR '','' \<notin> set v" "CHR ''}'' \<notin> set v"
    "v \<noteq> [] \<longrightarrow> hd v \<noteq> CHR '' ''"
  have "plain v" using v(1) assms(3) by (auto simp: fields_ok_def dest!: map_of_SomeD)
  obtain c post where f: "find_sub (quoted key) (json_fields kvs @ ''}'') =
      Some (json_pair key v @ c # post)" and c: "c \<in> {CHR '','', CHR ''}''}"
    using ff v(1) by auto
  have "find_sub '':'' (json_pair key v @ c # post) = Some (CHR '':'' # DQ # v @ DQ # c # post)"
    using find_colon [of "quoted key"] assms(2) by (simp add: json_pair_def quoted_def)
  then have "extractJsonValueLite (json_obj kvs) key =
      takeWhile (\<lambda>c. c \<noteq> DQ \<and> c \<noteq> CHR '','' \<and> c \<noteq> CHR ''}'')
        (dropWhile (\<lambda>c. c = CHR '' '' \<or> c = DQ) (DQ # v @ DQ # c # post))"
    by (simp only: extractJsonValueLite_def q obj Let_def f option.case list.sel)
  also have "\<dots> = v"
  proof (cases v)
    case Nil
    then show ?thesis using c by auto
  next
    case (Cons a w)
    then have "dropWhile (\<lambda>c. c = CHR '' '' \<or> c = DQ) (DQ # v @ DQ # c # post) = v @ DQ # c # post"
      using v(4) \<open>plain v\<close> by (auto simp: plain_def)
    moreover have "\<forall>x \<in> set v. x \<noteq> DQ \<and> x \<noteq> CHR '','' \<and> x \<noteq> CHR ''}''"
      using v(2,3) \<open>plain v\<close> by (auto simp: plain_def)
    ultimately show ?thesis by (simp add: takeWhile_append2)
  qed
  finally show "extractJsonValueLite (json_obj kvs) key = v" .
qed

lemma extractJsonValue_eq: "extractJsonValue = extractJsonValueLite"
  by (simp add: fun_eq_iff extractJsonValue_def extractJsonValueLite_def)

section \<open>Numbers round trip\<close>

lemma of_char_digit [simp]: "d < 10 \<Longrightarrow> of_char (digit_char d) = (48 + d :: nat)"
  by (simp add: digit_char_def)

lemma isdigit_digit [simp]: "d < 10 \<Longrightarrow> isdigit (digit_char d)"
  by (simp add: isdigit_def)

lemma digit_val_digit [simp]: "d < 10 \<Longrightarrow> digit_val (digit_char d) = of_nat d"
  by (simp add: digit_val_def)

lemma to_string_digits: "c \<in> set (to_string n) \<Longrightarrow> isdigit c"
proof (induction n rule: to_string.induct)
  case (1 n)
  then show ?case by (subst (asm) to_string.simps) (auto split: if_splits)
qed

lemma to_string_nonempty [simp]: "to_string n \<noteq> []"
  by (subst to_string.simps) simp

lemma parseUint64_loop_append:
  "(\<And>c. c \<in> set s \<Longrightarrow> isdigit c) \<Longrightarrow>
   parseUint64_loop v (s @ t) = parseUint64_loop (parseUint64_loop v s) t"
  by (induction s arbitrary: v) auto

lemma parseUint64_loop_to_string:
  "parseUint64_loop 0 (to_string n) = of_nat n"
proof (induction n rule: to_string.induct)
  case (1 n)
  show ?case
  proof (cases "n < 10")
    case True
    then show ?thesis by (simp add: to_string.simps [of n])
  next
    case False
    have "(of_nat (n div 10) * 10 + of_nat (n mod 10) :: u64) = of_nat (n div 10 * 10 + n mod 10)"
      by (simp only: of_nat_add of_nat_mult of_nat_numeral)
    then show ?thesis
      using False "1.IH" parseUint64_loop_append [of "to_string (n div 10)"] to_string_digits
      by (simp add: to_string.simps [of n])
  qed
qed

lemma parseUint64Safe_to_string [simp]: "parseUint64Safe (to_string (unat v)) = v"
  by (simp add: parseUint64Safe_def parseUint64_loop_to_string)

lemma isdigit_plain:
  assumes "isdigit c"
  shows "c \<noteq> DQ" "c \<noteq> BSL" "c \<noteq> CHR '' ''" "c \<noteq> CHR '',''" "c \<noteq> CHR ''}''" "c \<noteq> CHR '':''"
  using assms by (auto simp: isdigit_def)

lemma plain_to_string [simp]: "plain (to_string n)"
  by (auto simp: plain_def dest: to_string_digits isdigit_plain)

lemma to_string_not_word: "\<exists>c \<in> set w. \<not> isdigit c \<Longrightarrow> to_string n \<noteq> w"
  using to_string_digits by blast

section \<open>Chat bodies\<close>

lemma buildEnrichedChatBodyWithMsgId_obj:
  "buildEnrichedChatBodyWithMsgId msgId sender target message ts =
     json_obj [(''msg_id'', to_string (unat msgId)), (''sender'', sender), (''target'', target),
       (''message'', message), (''timestamp'', ts)]"
  by (simp add: buildEnrichedChatBodyWithMsgId_def json_obj_def json_pair_def)

lemma buildEnrichedChatBody_obj:
  "buildEnrichedChatBody sender target message ts =
     json_obj [(''sender'', sender), (''target'', target), (''message'', message), (''timestamp'', ts)]"
  by (simp add: buildEnrichedChatBody_def json_obj_def json_pair_def)

lemma field_keys_ok [simp]:
  "key_ok ''msg_id''" "key_ok ''sender''" "key_ok ''target''" "key_ok ''message''"
  "key_ok ''timestamp''" "key_ok ''result''" "key_ok ''user''" "key_ok ''type''"
  "key_ok ''username''" "key_ok ''password''" "key_ok ''peer''" "key_ok ''friend''"
  "key_ok ''last_timestamp''"
  by (simp_all add: key_ok_def)

lemma to_string_not_key [simp]:
  "to_string n \<noteq> ''msg_id''" "to_string n \<noteq> ''sender''" "to_string n \<noteq> ''target''"
  "to_string n \<noteq> ''message''" "to_string n \<noteq> ''timestamp''" "to_string n \<noteq> ''result''"
  "to_string n \<noteq> ''user''" "to_string n \<noteq> ''type''"
  by (rule to_string_not_word, simp add: isdigit_def)+

text \<open>
  (C19) The strict scanner reads a chat body back: from the text \<open>buildEnrichedChatBodyWithMsgId\<close>
  makes of a message, \<open>parseChatFieldsFast\<close> recovers sender, target and text, for all values
  without quotes and backslashes unless the sender is called \<open>target\<close> or \<open>message\<close> or the target
  \<open>message\<close>.
\<close>

theorem chat_body_roundtrip:
  assumes "plain sender" and "plain target" and "plain message" and "plain ts"
    and "sender \<noteq> ''target''" and "sender \<noteq> ''message''" and "target \<noteq> ''message''"
  shows "parseChatFieldsFast (buildEnrichedChatBodyWithMsgId msgId sender target message ts) =
    Some (sender, target, message)"
  using assms
  by (simp add: parseChatFieldsFast_def buildEnrichedChatBodyWithMsgId_obj extractFast_obj
      not_imitated_Cons)

theorem chat_body_roundtrip_witness:
  "parseChatFieldsFast (buildEnrichedChatBodyWithMsgId 7 ''alice'' ''bob'' ''hi'' ''now'') =
     Some (''alice'', ''bob'', ''hi'')"
  by (rule chat_body_roundtrip) (simp_all add: plain_def)

end
