(* ===== verification/Codec.thy ===== *)
theory Codec
  imports Wire Json
begin

text \<open>
  The translation between packet bodies and the JSON texts the handlers work on
  (\<open>decodeProtoToJson\<close> and \<open>encodeJsonToProto\<close> of \<open>EpollChatServer.cpp\<close>).

  The decoding loop advances a \<open>size_t\<close> offset by lengths taken from the body, and the sum can
  wrap around, so the loop is a partial function: the outer \<open>None\<close> is a run that does not end.
  The inner \<open>None\<close> is the early \<open>return ""\<close> of the source.
\<close>

section \<open>From the wire to JSON\<close>

record decoded =
  d_sender :: string
  d_target :: string
  d_message :: string
  d_timestamp :: string
  d_result :: string
  d_username :: string
  d_password :: string
  d_user :: string
  d_lastTs :: string
  d_peer :: string
  d_friendName :: string
  d_errMsg :: string
  d_msgId :: u64
  d_ackType :: u64
  d_msgIds :: "u64 list"

definition decoded_init :: decoded where
  "decoded_init = \<lparr>d_sender = [], d_target = [], d_message = [], d_timestamp = [], d_result = [],
     d_username = [], d_password = [], d_user = [], d_lastTs = [], d_peer = [], d_friendName = [],
     d_errMsg = [], d_msgId = 0, d_ackType = 0, d_msgIds = []\<rparr>"

text \<open>What a length-delimited field (wire type 2) does to the local variables.\<close>

definition assign_str :: "u16 \<Rightarrow> u32 \<Rightarrow> string \<Rightarrow> decoded \<Rightarrow> decoded" where
  "assign_str msgType field v d =
     (if field = 1 then
        (if msgType = 4 then d\<lparr>d_username := v\<rparr>
         else if msgType = 5 \<or> msgType = 10 then d\<lparr>d_result := v\<rparr>
         else if msgType = 7 then d\<lparr>d_lastTs := v\<rparr>
         else if msgType = 9 then d\<lparr>d_friendName := v\<rparr>
         else if msgType = 13 then d\<lparr>d_result := v\<rparr>
         else d\<lparr>d_sender := v\<rparr>)
      else if field = 2 then
        (if msgType = 4 then d\<lparr>d_password := v\<rparr>
         else if msgType = 5 \<or> msgType = 10 \<or> msgType = 13 then d\<lparr>d_errMsg := v\<rparr>
         else d\<lparr>d_peer := v\<rparr>)
      else if field = 3 then
        (if msgType = 13 then
           (let tmp = parseUint64Safe v in if tmp > 0 then d\<lparr>d_msgId := tmp\<rparr> else d)
         else d\<lparr>d_message := v\<rparr>)
      else if field = 4 then
        (if msgType = 13 then d\<lparr>d_user := v\<rparr>
         else (let tmp = parseUint64Safe v in if tmp > 0 then d\<lparr>d_msgId := tmp\<rparr> else d))
      else if field = 5 then
        (if msgType = 13 then d\<lparr>d_errMsg := v\<rparr> else d\<lparr>d_timestamp := v\<rparr>)
      else d)"

text \<open>What an integer field (wire type 0) does.\<close>

definition assign_int :: "u16 \<Rightarrow> u32 \<Rightarrow> u64 \<Rightarrow> decoded \<Rightarrow> decoded" where
  "assign_int msgType field v d =
     (if field = 2 \<and> msgType = 13 then d\<lparr>d_ackType := v\<rparr>
      else if field = 3 \<and> msgType = 13 then d\<lparr>d_msgId := v\<rparr>
      else if field = 4 then d\<lparr>d_msgId := v\<rparr>
      else if field = 5 \<and> msgType = 13 then d\<lparr>d_msgIds := d_msgIds d @ [v]\<rparr>
      else d)"

partial_function (option) decodeLoop ::
    "u16 \<Rightarrow> string \<Rightarrow> size_t \<Rightarrow> decoded \<Rightarrow> decoded option option" where
  "decodeLoop msgType body off d =
     (if off < str_size body then
        (case readVarint body off of (ok, off, key) \<Rightarrow>
           if \<not> ok then Some None
           else if (ucast (key AND 7) :: u8) = 2 then
             (case readVarint body off of (ok, off, len) \<Rightarrow>
                if \<not> ok then Some None
                else if off + len > str_size body then Some None
                else decodeLoop msgType body (off + len)
                       (assign_str msgType (ucast (drop_bit 3 key)) (substr body off len) d))
           else if (ucast (key AND 7) :: u8) = 0 then
             (case readVarint body off of (ok, off, v) \<Rightarrow>
                if \<not> ok then Some None
                else decodeLoop msgType body off (assign_int msgType (ucast (drop_bit 3 key)) v d))
           else
             (case skipField (ucast (key AND 7)) body off of (ok, off) \<Rightarrow>
                if \<not> ok then Some None else decodeLoop msgType body off d))
      else Some (Some d))"

text \<open>The lambdas \<open>addKV\<close> and \<open>addKVNum\<close>: the text built so far and the flag \<open>first\<close>.\<close>

definition addKV :: "string \<Rightarrow> string \<Rightarrow> string \<times> bool \<Rightarrow> string \<times> bool" where
  \<open>addKV k v st =
     (case st of (out, first) \<Rightarrow>
        if v = '''' then (out, first)
        else (out @ (if first then '''' else '','') @ ''"'' @ k @ ''":"'' @ v @ ''"'', False))\<close>

definition addKVNum :: "string \<Rightarrow> u64 \<Rightarrow> string \<times> bool \<Rightarrow> string \<times> bool" where
  \<open>addKVNum k v st =
     (case st of (out, first) \<Rightarrow>
        if v = 0 then (out, first)
        else (out @ (if first then '''' else '','') @ ''"'' @ k @ ''":"'' @ to_string (unat v) @ ''"'',
              False))\<close>

fun join_ids :: "u64 list \<Rightarrow> string" where
  "join_ids [] = ''''"
| "join_ids [v] = to_string (unat v)"
| "join_ids (v # vs) = to_string (unat v) @ '','' @ join_ids vs"

definition addMsgIds :: "u64 list \<Rightarrow> string \<times> bool \<Rightarrow> string \<times> bool" where
  \<open>addMsgIds msgIds st =
     (case st of (out, first) \<Rightarrow>
        if msgIds = [] then (out, first)
        else (out @ (if first then '''' else '','') @ ''"msg_ids":['' @ join_ids msgIds @ '']'', first))\<close>

definition renderJson :: "u16 \<Rightarrow> decoded \<Rightarrow> string" where
  "renderJson msgType d =
     (if msgType \<in> {1, 3, 7, 9, 11, 4, 13} then
        (let st = (''{'', True);
             st = (if msgType = 1 then
                     addKVNum ''msg_id'' (d_msgId d) (addKV ''timestamp'' (d_timestamp d)
                       (addKV ''message'' (d_message d) (addKV ''target'' (d_target d)
                         (addKV ''sender'' (d_sender d) st))))
                   else if msgType = 3 then addKV ''sender'' (d_sender d) st
                   else if msgType = 4 then
                     addKV ''password'' (d_password d) (addKV ''username'' (d_username d) st)
                   else if msgType = 7 then
                     addKV ''peer'' (d_peer d) (addKV ''last_timestamp'' (d_lastTs d) st)
                   else if msgType = 9 then addKV ''friend'' (d_friendName d) st
                   else if msgType = 11 then st
                   else
                     addMsgIds (d_msgIds d) (addKV ''message'' (d_errMsg d) (addKV ''user'' (d_user d)
                       (addKVNum ''msg_id'' (d_msgId d)
                         ((if d_ackType d > 0 then addKVNum ''type'' (d_ackType d) else id)
                           (addKV ''result'' (d_result d) st))))))
         in fst st @ ''}'')
      else '''')"

definition decodeProtoToJson :: "u16 \<Rightarrow> string \<Rightarrow> string option" where
  "decodeProtoToJson msgType body =
     (if body = '''' then Some ''''
      else case decodeLoop msgType body 0 decoded_init of
          None \<Rightarrow> None
        | Some None \<Rightarrow> Some ''''
        | Some (Some d) \<Rightarrow> Some (renderJson msgType d))"

section \<open>From JSON to the wire\<close>

definition getField :: "string \<Rightarrow> string \<Rightarrow> string" where
  "getField json k =
     (let v = (case extractJsonStringFast json k of Some v \<Rightarrow> v | None \<Rightarrow> '''') in
      if v = '''' then extractJsonValueLite json k else v)"

definition putString :: "u32 \<Rightarrow> string \<Rightarrow> string \<Rightarrow> string" where
  "putString n v out = (if v \<noteq> '''' then writeString n v out else out)"

definition putUint64 :: "u32 \<Rightarrow> u64 \<Rightarrow> string \<Rightarrow> string" where
  "putUint64 n v out = (if v > 0 then writeUint64 n v out else out)"

definition encodeJsonToProto :: "u16 \<Rightarrow> string \<Rightarrow> string" where
  "encodeJsonToProto msgType json =
     (let get = getField json; out = '''' in
      if json = '''' then ''''
      else if msgType = 1 then
        putString 5 (get ''timestamp'') (putUint64 4 (parseUint64Safe (get ''msg_id''))
          (putString 3 (get ''message'') (putString 2 (get ''target'') (putString 1 (get ''sender'') out))))
      else if msgType = 3 then putString 1 (get ''sender'') out
      else if msgType = 4 then putString 2 (get ''password'') (putString 1 (get ''username'') out)
      else if msgType = 5 then putString 2 (get ''message'') (putString 1 (get ''result'') out)
      else if msgType = 7 then
        (let peer = get ''peer''; peer = (if peer = '''' then get ''target'' else peer) in
         putString 2 peer (putString 1 (get ''last_timestamp'') out))
      else if msgType = 9 then putString 1 (get ''friend'') out
      else if msgType = 10 then
        putString 3 (get ''friend'') (putString 2 (get ''message'') (putString 1 (get ''result'') out))
      else if msgType = 12 then json
      else if msgType = 13 then
        fold (putUint64 5) (parseJsonUint64ArrayFast json ''msg_ids'' 256)
          (putString 5 (get ''message'') (putString 4 (get ''user'')
            (putUint64 3 (parseUint64Safe (get ''msg_id''))
              (putUint64 2 (parseUint64Safe (get ''type'')) (putString 1 (get ''result'') out)))))
      else json)"

section \<open>Wire messages\<close>

text \<open>
  A body as a list of fields, its bytes, and the effect of one field on the decoder's variables,
  to which the rounds of the loop are reduced. What the fields mean is specified further below, by
  the protocol table.
\<close>

datatype wire_field = WStr u32 string | WInt u32 u64

fun wire_bytes :: "wire_field \<Rightarrow> string" where
  "wire_bytes (WStr n s) = writeString n s ''''"
| "wire_bytes (WInt n v) = writeUint64 n v ''''"

definition wire_msg :: "wire_field list \<Rightarrow> string" where
  "wire_msg fs = concat (map wire_bytes fs)"

fun apply_field :: "u16 \<Rightarrow> decoded \<Rightarrow> wire_field \<Rightarrow> decoded" where
  "apply_field t d (WStr n s) = assign_str t n s d"
| "apply_field t d (WInt n v) = assign_int t n v d"

definition key_word :: "u32 \<Rightarrow> u8 \<Rightarrow> u64" where
  "key_word n w = push_bit 3 (ucast n) OR ucast w"

lemma wire_bytes_eq:
  "wire_bytes (WStr n s) = varint (key_word n 2) @ varint (str_size s) @ s"
  "wire_bytes (WInt n v) = varint (key_word n 0) @ varint v"
  by (simp_all only: wire_bytes.simps writeString_def writeUint64_def writeKey_def writeVarint_eq
      key_word_def append_Nil append_assoc)

declare wire_bytes.simps [simp del]

lemma key_word_parts [simp]:
  "ucast (drop_bit 3 (key_word n 2)) = n" "ucast (key_word n 2 AND 7) = (2 :: u8)"
  "ucast (drop_bit 3 (key_word n 0)) = n" "ucast (key_word n 0 AND 7) = (0 :: u8)"
  unfolding key_word_def by (rule key_parts, simp)+

lemma varint_nonempty [simp]: "varint v \<noteq> []"
  by (subst varint_simps) simp

lemma off_lt_size:
  "off = of_nat (length pre) \<Longrightarrow> rest \<noteq> [] \<Longrightarrow> length (pre @ rest) < 2 ^ 64 \<Longrightarrow>
   off < str_size (pre @ rest)"
  by (simp add: word_less_nat_alt unat_of_nat_64)

lemma decodeLoop_WStr:
  assumes "off = of_nat (length pre)" and "length (pre @ wire_bytes (WStr n s) @ post) < 2 ^ 64"
  shows "decodeLoop t (pre @ wire_bytes (WStr n s) @ post) off d =
    decodeLoop t (pre @ wire_bytes (WStr n s) @ post)
      (of_nat (length (pre @ wire_bytes (WStr n s)))) (assign_str t n s d)"
proof -
  let ?k = "varint (key_word n 2)" and ?l = "varint (str_size s)"
  let ?body = "pre @ wire_bytes (WStr n s) @ post"
  let ?off1 = "of_nat (length (pre @ ?k)) :: size_t" and ?off2 = "of_nat (length (pre @ ?k @ ?l)) :: size_t"
  have b: "?body = pre @ ?k @ ?l @ s @ post" by (simp add: wire_bytes_eq)
  have sz: "length s < 2 ^ 64" using assms(2) b by simp
  have go: "off < str_size ?body"
    unfolding b using assms b by (intro off_lt_size) auto
  have key: "readVarint ?body off = (True, ?off1, key_word n 2)"
    using readVarint_varint [of off pre "key_word n 2" "?l @ s @ post"] assms b by simp
  have len: "readVarint ?body ?off1 = (True, ?off2, str_size s)"
    using readVarint_varint [of ?off1 "pre @ ?k" "str_size s" "s @ post"] assms(2) b by simp
  have o2: "?off2 + str_size s = of_nat (length (pre @ wire_bytes (WStr n s)))"
    by (simp add: wire_bytes_eq str_size_def)
  have u2: "unat ?off2 = length (pre @ ?k @ ?l)"
    using assms(2) b by (intro unat_of_nat_64) simp
  have "unat (?off2 + str_size s) \<le> length ?body"
    unfolding o2 using assms(2) by (subst unat_of_nat_64) auto
  then have le: "\<not> ?off2 + str_size s > str_size ?body"
    using assms(2) by (simp add: word_less_nat_alt not_less)
  have "substr ?body ?off2 (str_size s) = s"
    unfolding substr_def u2 b using sz by simp
  then show ?thesis
    using go key len le by (subst decodeLoop.simps) (simp add: o2 del: length_append of_nat_add)
qed

lemma decodeLoop_WInt:
  assumes "off = of_nat (length pre)" and "length (pre @ wire_bytes (WInt n v) @ post) < 2 ^ 64"
  shows "decodeLoop t (pre @ wire_bytes (WInt n v) @ post) off d =
    decodeLoop t (pre @ wire_bytes (WInt n v) @ post)
      (of_nat (length (pre @ wire_bytes (WInt n v)))) (assign_int t n v d)"
proof -
  let ?k = "varint (key_word n 0)" and ?body = "pre @ wire_bytes (WInt n v) @ post"
  let ?off1 = "of_nat (length (pre @ ?k)) :: size_t"
  have b: "?body = pre @ ?k @ varint v @ post" by (simp add: wire_bytes_eq)
  have go: "off < str_size ?body"
    unfolding b using assms b by (intro off_lt_size) auto
  have key: "readVarint ?body off = (True, ?off1, key_word n 0)"
    using readVarint_varint [of off pre "key_word n 0" "varint v @ post"] assms b by simp
  have val: "readVarint ?body ?off1 = (True, of_nat (length (pre @ wire_bytes (WInt n v))), v)"
    using readVarint_varint [of ?off1 "pre @ ?k" v post] assms(2) b by (simp add: wire_bytes_eq add.assoc)
  show ?thesis
    using go key val by (subst decodeLoop.simps) simp
qed

lemma decodeLoop_field:
  assumes "off = of_nat (length pre)" and "length (pre @ wire_bytes f @ post) < 2 ^ 64"
  shows "decodeLoop t (pre @ wire_bytes f @ post) off d =
    decodeLoop t (pre @ wire_bytes f @ post) (of_nat (length (pre @ wire_bytes f))) (apply_field t d f)"
proof (cases f)
  case (WStr n s)
  show ?thesis
    unfolding WStr apply_field.simps using assms unfolding WStr by (rule decodeLoop_WStr)
next
  case (WInt n v)
  show ?thesis
    unfolding WInt apply_field.simps using assms unfolding WInt by (rule decodeLoop_WInt)
qed

lemma decodeLoop_wire:
  assumes "off = of_nat (length pre)" and "length (pre @ wire_msg fs) < 2 ^ 64"
  shows "decodeLoop t (pre @ wire_msg fs) off d = Some (Some (foldl (apply_field t) d fs))"
  using assms
proof (induction fs arbitrary: pre off d)
  case Nil
  then have "\<not> off < str_size pre"
    by (simp add: word_less_nat_alt unat_of_nat_64)
  then show ?case by (subst decodeLoop.simps) (simp add: wire_msg_def)
next
  case (Cons f fs)
  have split: "pre @ wire_msg (f # fs) = pre @ wire_bytes f @ wire_msg fs"
    by (simp add: wire_msg_def)
  have "decodeLoop t (pre @ wire_msg (f # fs)) off d =
      decodeLoop t (pre @ wire_bytes f @ wire_msg fs) (of_nat (length (pre @ wire_bytes f)))
        (apply_field t d f)"
    unfolding split using Cons.prems(1) Cons.prems(2) [unfolded split] by (rule decodeLoop_field)
  also have "\<dots> = Some (Some (foldl (apply_field t) (apply_field t d f) fs))"
    using Cons.IH [of _ "pre @ wire_bytes f"] Cons.prems(2) by (simp add: split)
  finally show ?case by simp
qed

lemma wire_msg_eq_Nil [simp]: "wire_msg fs = [] \<longleftrightarrow> fs = []"
proof (cases fs)
  case (Cons f fs')
  then show ?thesis by (cases f) (auto simp: wire_msg_def wire_bytes_eq)
qed (simp add: wire_msg_def)

lemma decodeProtoToJson_wire:
  assumes "length (wire_msg fs) < 2 ^ 64" and "fs \<noteq> []"
  shows "decodeProtoToJson t (wire_msg fs) =
    Some (renderJson t (foldl (apply_field t) decoded_init fs))"
  using decodeLoop_wire [of 0 "[]" fs t decoded_init] assms by (simp add: decodeProtoToJson_def)

section \<open>The rendered object\<close>

definition nonempty_fields :: "(string \<times> string) list \<Rightarrow> (string \<times> string) list" where
  "nonempty_fields kvs = filter (\<lambda>(k, v). v \<noteq> []) kvs"

lemma json_fields_snoc:
  "json_fields (kvs @ [(k, v)]) =
     json_fields kvs @ (if kvs = [] then [] else '','') @ json_pair k v"
  by (induction kvs rule: json_fields.induct) auto

lemma addKV_fields:
  assumes "st = (''{'' @ json_fields kvs, kvs = [])"
  shows "addKV k v st =
    (''{'' @ json_fields (kvs @ nonempty_fields [(k, v)]), kvs @ nonempty_fields [(k, v)] = [])"
  using assms by (auto simp: addKV_def nonempty_fields_def json_fields_snoc json_pair_def)

definition num_text :: "u64 \<Rightarrow> string" where
  "num_text v = (if v = 0 then [] else to_string (unat v))"

lemma addKVNum_eq: "addKVNum k v = addKV k (num_text v)"
  by (auto simp: fun_eq_iff addKVNum_def addKV_def num_text_def split: prod.splits)

definition json_kvs :: "u16 \<Rightarrow> decoded \<Rightarrow> (string \<times> string) list" where
  "json_kvs t d =
     (if t = 1 then [(''sender'', d_sender d), (''target'', d_target d), (''message'', d_message d),
        (''timestamp'', d_timestamp d), (''msg_id'', num_text (d_msgId d))]
      else if t = 3 then [(''sender'', d_sender d)]
      else if t = 4 then [(''username'', d_username d), (''password'', d_password d)]
      else if t = 7 then [(''last_timestamp'', d_lastTs d), (''peer'', d_peer d)]
      else if t = 9 then [(''friend'', d_friendName d)]
      else if t = 13 then [(''result'', d_result d), (''type'', num_text (d_ackType d)),
        (''msg_id'', num_text (d_msgId d)), (''user'', d_user d), (''message'', d_errMsg d)]
      else [])"

lemma nonempty_fields_simps [simp]:
  "nonempty_fields [] = []"
  "nonempty_fields ((k, v) # kvs) = (if v = [] then [] else [(k, v)]) @ nonempty_fields kvs"
  by (simp_all add: nonempty_fields_def)

lemma foldl_addKV:
  "st = (''{'' @ json_fields acc, acc = []) \<Longrightarrow>
   foldl (\<lambda>st (k, v). addKV k v st) st kvs =
     (''{'' @ json_fields (acc @ nonempty_fields kvs), acc @ nonempty_fields kvs = [])"
proof (induction kvs arbitrary: st acc)
  case (Cons kv kvs)
  obtain k v where kv: "kv = (k, v)" by (cases kv)
  show ?case
    using Cons.IH [OF addKV_fields [OF Cons.prems, of k v]] by (simp add: kv)
qed simp

lemma addKV_type: "(if v > 0 then addKVNum k v else id) = addKV k (num_text v)"
  by (auto simp: fun_eq_iff addKVNum_eq addKV_def num_text_def word_gt_0 split: prod.splits)

lemma renderJson_obj:
  assumes "t \<in> {1, 3, 4, 7, 9, 11, 13}" and "t = 13 \<longrightarrow> d_msgIds d = []"
  shows "renderJson t d = json_obj (nonempty_fields (json_kvs t d))"
proof -
  have "renderJson t d = fst (foldl (\<lambda>st (k, v). addKV k v st) (''{'', True) (json_kvs t d)) @ ''}''"
    using assms unfolding renderJson_def Let_def addKV_type unfolding addKVNum_eq
    by (auto simp: json_kvs_def addMsgIds_def split: prod.splits)
  then show ?thesis
    using foldl_addKV [of "(''{'', True)" "[]" "json_kvs t d"] by (simp add: json_obj_def)
qed

lemma map_of_nonempty_fields:
  "distinct (map fst kvs) \<Longrightarrow>
   map_of (nonempty_fields kvs) k = (case map_of kvs k of Some v \<Rightarrow> if v = [] then None else Some v | None \<Rightarrow> None)"
proof (induction kvs)
  case (Cons kv kvs)
  obtain a b where kv: "kv = (a, b)" by (cases kv)
  have "map_of kvs a = None" using Cons.prems by (simp add: kv map_of_eq_None_iff image_def)
  with Cons show ?case by (auto simp: kv split: option.splits)
qed simp

lemma getField_obj:
  assumes "key_ok key" and "CHR '':'' \<notin> set key" and "fields_ok kvs" and "not_imitated key kvs"
  shows "getField (json_obj kvs) key = (case map_of kvs key of Some v \<Rightarrow> v | None \<Rightarrow> [])"
  using extractFast_obj [OF assms(1,3,4)] extractLite_obj [OF assms]
  by (auto simp: getField_def Let_def split: option.splits)

section \<open>Bodies that are not well-formed\<close>

text \<open>
  A body of eleven bytes: the key of a length-delimited field 1 and the length \<open>2 ^ 64 - 11\<close>.
  The end of the field, computed modulo \<open>2 ^ 64\<close>, is offset 0.
\<close>

definition looping_body :: string where
  "looping_body = [CHR 0x0A, CHR 0xF5, CHR 0xFF, CHR 0xFF, CHR 0xFF, CHR 0xFF, CHR 0xFF, CHR 0xFF,
     CHR 0xFF, CHR 0xFF, CHR 0x01]"

lemma looping_body_eq: "looping_body = varint 10 @ varint (- 11)"
  by code_simp

lemma looping_body_reads:
  "readVarint looping_body 0 = (True, 1, 10)" "readVarint looping_body 1 = (True, 11, - 11)"
proof -
  have l: "length (varint 10) = 1" "length (varint (- 11)) = 10"
    by code_simp+
  show "readVarint looping_body 0 = (True, 1, 10)"
    using readVarint_varint [of 0 "[]" 10 "varint (- 11)"] l by (simp add: looping_body_eq)
  show "readVarint looping_body 1 = (True, 11, - 11)"
    using readVarint_varint [of 1 "varint 10" "- 11" "[]"] l by (simp add: looping_body_eq)
qed

lemma decodeLoop_looping: "decodeLoop t looping_body 0 d = None"
proof (rule ccontr)
  assume "decodeLoop t looping_body 0 d \<noteq> None"
  then obtain r where r: "decodeLoop t looping_body 0 d = Some r" by blast
  have "looping_body = looping_body \<and> (0 :: size_t) = 0 \<longrightarrow> False"
  proof (rule decodeLoop.raw_induct [where P = "\<lambda>t body off d r. body = looping_body \<and> off = 0 \<longrightarrow> False",
        OF _ r])
    fix f t body off d r
    assume IH: "\<And>t body off d r. f t body off d = Some r \<Longrightarrow> body = looping_body \<and> off = 0 \<longrightarrow> False"
      and step: "(if off < str_size body then
        (case readVarint body off of (ok, off, key) \<Rightarrow>
           if \<not> ok then Some None
           else if (ucast (key AND 7) :: u8) = 2 then
             (case readVarint body off of (ok, off, len) \<Rightarrow>
                if \<not> ok then Some None
                else if off + len > str_size body then Some None
                else f t body (off + len)
                       (assign_str t (ucast (drop_bit 3 key)) (substr body off len) d))
           else if (ucast (key AND 7) :: u8) = 0 then
             (case readVarint body off of (ok, off, v) \<Rightarrow>
                if \<not> ok then Some None
                else f t body off (assign_int t (ucast (drop_bit 3 key)) v d))
           else
             (case skipField (ucast (key AND 7)) body off of (ok, off) \<Rightarrow>
                if \<not> ok then Some None else f t body off d))
      else Some (Some d)) = Some r"
    show "body = looping_body \<and> off = 0 \<longrightarrow> False"
    proof
      assume a: "body = looping_body \<and> off = 0"
      have "str_size looping_body = 11" by (simp add: looping_body_def str_size_def)
      then have "f t looping_body 0 (assign_str t 1 (substr looping_body 11 (- 11)) d) = Some r"
        using step a by (simp add: looping_body_reads)
      with IH show False by blast
    qed
  qed
  then show False by simp
qed

text \<open>A body that starts with an opening brace has wire type 3, which no branch accepts.\<close>

lemma readVarint_brace:
  assumes "length rest < 2 ^ 63"
  shows "readVarint (CHR ''{'' # rest) 0 = (True, 1, 0x7B)"
proof -
  have "varint 0x7B = ''{''" by code_simp
  then show ?thesis
    using readVarint_varint [of 0 "[]" "0x7B" rest] assms by simp
qed

lemma decodeProtoToJson_brace:
  assumes "length rest < 2 ^ 63"
  shows "decodeProtoToJson t (CHR ''{'' # rest) = Some ''''"
proof -
  have "(0 :: size_t) < str_size (CHR ''{'' # rest)"
    using assms by (simp add: word_less_nat_alt)
  then have "decodeLoop t (CHR ''{'' # rest) 0 decoded_init = Some None"
    using readVarint_brace [OF assms] by (subst decodeLoop.simps) (simp add: skipField_def)
  then show ?thesis by (simp add: decodeProtoToJson_def)
qed

section \<open>The target of a chat message\<close>

text \<open>No field of a body is ever stored in the variable \<open>target\<close>.\<close>

lemma assign_target [simp]:
  "d_target (assign_str t n v d) = d_target d" "d_target (assign_int t n i d) = d_target d"
  by (simp_all add: assign_str_def assign_int_def Let_def)

lemma substr_length: "length (substr s off len) \<le> length s"
  by (simp add: substr_def)

lemma decodeLoop_keeps:
  assumes "decodeLoop t body off d = Some r" and "Q d" and "r = Some d'"
    and str: "\<And>n v d. length v \<le> length body \<Longrightarrow> Q d \<Longrightarrow> Q (assign_str t n v d)" and int: "\<And>n v d. Q d \<Longrightarrow> Q (assign_int t n v d)"
  shows "Q d'"
proof -
  have "t = t \<and> body = body \<longrightarrow> Q d \<longrightarrow> (\<forall>d'. r = Some d' \<longrightarrow> Q d')"
  proof (rule decodeLoop.raw_induct [where P = "\<lambda>t' body' off d r. t' = t \<and> body' = body \<longrightarrow> Q d \<longrightarrow> (\<forall>d'. r = Some d' \<longrightarrow> Q d')",
        OF _ assms(1)])
    fix f t' body' off d r
    assume IH: "\<And>t' body' off d r. f t' body' off d = Some r \<Longrightarrow> t' = t \<and> body' = body \<longrightarrow> Q d \<longrightarrow> (\<forall>d'. r = Some d' \<longrightarrow> Q d')"
      and step: "(if off < str_size body' then
        (case readVarint body' off of (ok, off, key) \<Rightarrow>
           if \<not> ok then Some None
           else if (ucast (key AND 7) :: u8) = 2 then
             (case readVarint body' off of (ok, off, len) \<Rightarrow>
                if \<not> ok then Some None
                else if off + len > str_size body' then Some None
                else f t' body' (off + len)
                       (assign_str t' (ucast (drop_bit 3 key)) (substr body' off len) d))
           else if (ucast (key AND 7) :: u8) = 0 then
             (case readVarint body' off of (ok, off, v) \<Rightarrow>
                if \<not> ok then Some None
                else f t' body' off (assign_int t' (ucast (drop_bit 3 key)) v d))
           else
             (case skipField (ucast (key AND 7)) body' off of (ok, off) \<Rightarrow>
                if \<not> ok then Some None else f t' body' off d))
      else Some (Some d)) = Some r"
    obtain ok1 off1 key where k: "readVarint body' off = (ok1, off1, key)" by (cases "readVarint body' off")
    obtain ok2 off2 v where v: "readVarint body' off1 = (ok2, off2, v)" by (cases "readVarint body' off1")
    obtain ok3 off3 where s: "skipField (ucast (key AND 7)) body' off1 = (ok3, off3)"
      by (cases "skipField (ucast (key AND 7)) body' off1")
    have "r = None \<or> r = Some d \<or> (\<exists>o' n v. length v \<le> length body' \<and> f t' body' o' (assign_str t' n v d) = Some r)
        \<or> (\<exists>o' n v. f t' body' o' (assign_int t' n v d) = Some r) \<or> (\<exists>o'. f t' body' o' d = Some r)"
      using step substr_length [of body' off2 v] unfolding k v s prod.case by (auto split: if_splits)
    then consider "r = None" | "r = Some d" | o' n v where "length v \<le> length body'" "f t' body' o' (assign_str t' n v d) = Some r"
      | o' n v where "f t' body' o' (assign_int t' n v d) = Some r" | o' where "f t' body' o' d = Some r"
      by blast
    then show "t' = t \<and> body' = body \<longrightarrow> Q d \<longrightarrow> (\<forall>d'. r = Some d' \<longrightarrow> Q d')"
      by cases (use str int in \<open>auto dest: IH\<close>)
  qed
  with assms(2,3) show ?thesis by blast
qed

lemma decodeLoop_target:
  assumes "decodeLoop t body off d = Some (Some d')"
  shows "d_target d' = d_target d"
  using assms by (rule decodeLoop_keeps [where Q = "\<lambda>x. d_target x = d_target d"]) auto

section \<open>Encoding\<close>

lemma writeString_append: "writeString n s out = out @ wire_bytes (WStr n s)"
  by (simp add: writeString_def writeKey_def writeVarint_eq wire_bytes_eq key_word_def)

lemma writeUint64_append: "writeUint64 n v out = out @ wire_bytes (WInt n v)"
  by (simp add: writeUint64_def writeKey_def writeVarint_eq wire_bytes_eq key_word_def)

definition opt_str :: "u32 \<Rightarrow> string \<Rightarrow> wire_field list" where
  "opt_str n s = (if s = [] then [] else [WStr n s])"

definition opt_int :: "u32 \<Rightarrow> u64 \<Rightarrow> wire_field list" where
  "opt_int n v = (if v = 0 then [] else [WInt n v])"

lemma put_append:
  "putString n s out = out @ wire_msg (opt_str n s)"
  "putUint64 n v out = out @ wire_msg (opt_int n v)"
  by (auto simp: putString_def putUint64_def opt_str_def opt_int_def wire_msg_def writeString_append
      writeUint64_append word_gt_0)

lemma wire_msg_append: "wire_msg (fs @ gs) = wire_msg fs @ wire_msg gs"
  by (simp add: wire_msg_def)

text \<open>A bound on the size of a message, from which concrete messages are seen to fit.\<close>

fun field_bound :: "wire_field \<Rightarrow> nat" where
  "field_bound (WStr n s) = 20 + length s"
| "field_bound (WInt n v) = 20"

lemma varint_length_10: "length (varint v) \<le> 10"
proof -
  have "unat v < 2 ^ (7 * 10)" using unat_lt_64 [of v] by simp
  then show ?thesis by (rule varint_length) simp
qed

lemma wire_msg_length: "length (wire_msg fs) \<le> sum_list (map field_bound fs)"
proof (induction fs)
  case (Cons f fs)
  have "length (wire_bytes f) \<le> field_bound f"
  proof (cases f)
    case (WStr n s)
    then show ?thesis
      using varint_length_10 [of "key_word n 2"] varint_length_10 [of "str_size s"]
      by (simp add: wire_bytes_eq)
  next
    case (WInt n v)
    then show ?thesis
      using varint_length_10 [of "key_word n 0"] varint_length_10 [of v]
      by (simp add: wire_bytes_eq)
  qed
  with Cons show ?case by (simp add: wire_msg_def)
qed (simp add: wire_msg_def)

lemma wire_msg_fits: "sum_list (map field_bound fs) < 2 ^ 64 \<Longrightarrow> length (wire_msg fs) < 2 ^ 64"
  using wire_msg_length le_less_trans by blast

lemma decode_obj:
  assumes "fs \<noteq> []" and "length (wire_msg fs) < 2 ^ 64" and "t \<in> {1, 3, 4, 7, 9, 11}"
  shows "decodeProtoToJson t (wire_msg fs) =
    Some (json_obj (nonempty_fields (json_kvs t (foldl (apply_field t) decoded_init fs))))"
proof -
  have "t \<in> {1, 3, 4, 7, 9, 11, 13}" and "t \<noteq> 13" using assms(3) by auto
  then show ?thesis
    using decodeProtoToJson_wire [OF assms(2,1)] renderJson_obj by simp
qed

lemma json_obj_nonempty [simp]: "json_obj kvs \<noteq> []"
  by (simp add: json_obj_def)

section \<open>The protocol table\<close>

text \<open>
  What the fields of a body mean, written from the protocol: \<open>text_of ns\<close> is the last text in a
  length-delimited field with a number of \<open>ns\<close>, \<open>number_of ns ms\<close> the last number in a text field of
  \<open>ns\<close> (decimal and not zero) or an integer field of \<open>ms\<close>, and \<open>numbers_of n\<close> all integers of field \<open>n\<close> in
  order.
\<close>

definition texts_of :: "u32 list \<Rightarrow> wire_field list \<Rightarrow> string list" where
  "texts_of ns fs = concat (map (\<lambda>f. case f of WStr n s \<Rightarrow> if n \<in> set ns then [s] else [] | WInt _ _ \<Rightarrow> []) fs)"

definition text_of :: "u32 list \<Rightarrow> wire_field list \<Rightarrow> string" where
  "text_of ns fs = last ([] # texts_of ns fs)"

definition numbers_in :: "u32 list \<Rightarrow> u32 list \<Rightarrow> wire_field list \<Rightarrow> u64 list" where
  "numbers_in ns ms fs = concat (map (\<lambda>f. case f of
       WStr n s \<Rightarrow> if n \<in> set ns \<and> parseUint64Safe s > 0 then [parseUint64Safe s] else []
     | WInt n v \<Rightarrow> if n \<in> set ms then [v] else []) fs)"

definition number_of :: "u32 list \<Rightarrow> u32 list \<Rightarrow> wire_field list \<Rightarrow> u64" where
  "number_of ns ms fs = last (0 # numbers_in ns ms fs)"

definition numbers_of :: "u32 \<Rightarrow> wire_field list \<Rightarrow> u64 list" where
  "numbers_of n fs = numbers_in [] [n] fs"

text \<open>The keys of the JSON object of each message type and the fields that feed them.\<close>

definition wire_kvs :: "u16 \<Rightarrow> wire_field list \<Rightarrow> (string \<times> string) list" where
  "wire_kvs t fs =
     (if t = 1 then [(''sender'', text_of [1] fs), (''message'', text_of [3] fs),
        (''timestamp'', text_of [5] fs), (''msg_id'', num_text (number_of [4] [4] fs))]
      else if t = 3 then [(''sender'', text_of [1] fs)]
      else if t = 4 then [(''username'', text_of [1] fs), (''password'', text_of [2] fs)]
      else if t = 7 then [(''last_timestamp'', text_of [1] fs), (''peer'', text_of [2] fs)]
      else if t = 9 then [(''friend'', text_of [1] fs)]
      else if t = 13 then [(''result'', text_of [1] fs), (''type'', num_text (number_of [] [2] fs)),
        (''msg_id'', num_text (number_of [3] [3, 4] fs)), (''user'', text_of [4] fs),
        (''message'', text_of [2, 5] fs)]
      else [])"

definition ids_text :: "u64 list \<Rightarrow> string" where
  "ids_text vs = tl (concat (map (\<lambda>v. CHR '','' # to_string (unat v)) vs))"

definition wire_json :: "u16 \<Rightarrow> wire_field list \<Rightarrow> string" where
  \<open>wire_json t fs =
     (let kvs = nonempty_fields (wire_kvs t fs) in
      if t \<notin> {1, 3, 4, 7, 9, 11, 13} then ''''
      else if t = 13 \<and> numbers_of 5 fs \<noteq> [] then
        ''{'' @ json_fields kvs @ (if kvs = [] then '''' else '','') @ ''"msg_ids":[''
          @ ids_text (numbers_of 5 fs) @ '']}''
      else json_obj kvs)\<close>

lemma table_snoc [simp]:
  "text_of ns (fs @ [f]) =
     (case f of WStr n s \<Rightarrow> if n \<in> set ns then s else text_of ns fs | WInt _ _ \<Rightarrow> text_of ns fs)"
  "number_of ns ms (fs @ [f]) =
     (case f of
        WStr n s \<Rightarrow> if n \<in> set ns \<and> parseUint64Safe s > 0 then parseUint64Safe s else number_of ns ms fs
      | WInt n v \<Rightarrow> if n \<in> set ms then v else number_of ns ms fs)"
  "numbers_of k (fs @ [f]) = numbers_of k fs @ (case f of WStr _ _ \<Rightarrow> [] | WInt n v \<Rightarrow> if n = k then [v] else [])"
  by (simp_all add: text_of_def texts_of_def number_of_def numbers_in_def numbers_of_def split: wire_field.split)

lemma table_Nil [simp]: "text_of ns [] = []" "number_of ns ms [] = 0" "numbers_of k [] = []"
  by (simp_all add: text_of_def texts_of_def number_of_def numbers_in_def numbers_of_def)

text \<open>The variables of the decoder after the loop are the entries of the table.\<close>

abbreviation decoded_by :: "u16 \<Rightarrow> wire_field list \<Rightarrow> decoded" where
  "decoded_by t fs \<equiv> foldl (apply_field t) decoded_init fs"

lemma decoded_by_invariant:
  assumes "g decoded_init = h []"
    and "\<And>n s d fs. g d = h fs \<Longrightarrow> g (assign_str t n s d) = h (fs @ [WStr n s])"
    and "\<And>n v d fs. g d = h fs \<Longrightarrow> g (assign_int t n v d) = h (fs @ [WInt n v])"
  shows "g (decoded_by t fs) = h fs"
proof (induction fs rule: rev_induct)
  case (snoc f fs)
  then show ?case using assms(2,3) by (cases f) simp_all
qed (simp add: assms(1))

lemma decoded_init_simps:
  "d_sender decoded_init = []" "d_target decoded_init = []" "d_message decoded_init = []"
  "d_timestamp decoded_init = []" "d_result decoded_init = []" "d_username decoded_init = []"
  "d_password decoded_init = []" "d_user decoded_init = []" "d_lastTs decoded_init = []"
  "d_peer decoded_init = []" "d_friendName decoded_init = []" "d_errMsg decoded_init = []"
  "d_msgId decoded_init = 0" "d_ackType decoded_init = 0" "d_msgIds decoded_init = []"
  by (simp_all add: decoded_init_def)

lemmas field_defs = assign_str_def assign_int_def decoded_init_simps Let_def

lemma decoded_chat:
  "d_sender (decoded_by 1 fs) = text_of [1] fs" "d_target (decoded_by 1 fs) = []"
  "d_message (decoded_by 1 fs) = text_of [3] fs" "d_timestamp (decoded_by 1 fs) = text_of [5] fs"
  "d_msgId (decoded_by 1 fs) = number_of [4] [4] fs"
  by (rule decoded_by_invariant; simp add: field_defs)+

lemma decoded_heartbeat: "d_sender (decoded_by 3 fs) = text_of [1] fs"
  by (rule decoded_by_invariant; simp add: field_defs)+

lemma decoded_login:
  "d_username (decoded_by 4 fs) = text_of [1] fs" "d_password (decoded_by 4 fs) = text_of [2] fs"
  by (rule decoded_by_invariant; simp add: field_defs)+

lemma decoded_history:
  "d_lastTs (decoded_by 7 fs) = text_of [1] fs" "d_peer (decoded_by 7 fs) = text_of [2] fs"
  by (rule decoded_by_invariant; simp add: field_defs)+

lemma decoded_friend: "d_friendName (decoded_by 9 fs) = text_of [1] fs"
  by (rule decoded_by_invariant; simp add: field_defs)+

lemma decoded_ack:
  "d_result (decoded_by 13 fs) = text_of [1] fs" "d_ackType (decoded_by 13 fs) = number_of [] [2] fs"
  "d_msgId (decoded_by 13 fs) = number_of [3] [3, 4] fs" "d_user (decoded_by 13 fs) = text_of [4] fs"
  "d_errMsg (decoded_by 13 fs) = text_of [2, 5] fs" "d_msgIds (decoded_by 13 fs) = numbers_of 5 fs"
  by (rule decoded_by_invariant; simp add: field_defs)+

lemmas decoded_table = decoded_chat decoded_heartbeat decoded_login decoded_history decoded_friend decoded_ack

lemma json_kvs_table: "nonempty_fields (json_kvs t (decoded_by t fs)) = nonempty_fields (wire_kvs t fs)"
  by (simp add: json_kvs_def wire_kvs_def decoded_table)

lemma ids_text_Cons: "ids_text (v # vs) = to_string (unat v) @ (if vs = [] then [] else CHR '','' # ids_text vs)"
  by (cases vs) (simp_all add: ids_text_def)

lemma join_ids_eq: "join_ids vs = ids_text vs"
  by (induction vs rule: join_ids.induct) (simp_all add: ids_text_Cons, simp add: ids_text_def)

lemma renderJson_ids:
  assumes "d_msgIds d \<noteq> []" and "kvs = nonempty_fields (json_kvs 13 d)"
  shows \<open>renderJson 13 d = ''{'' @ json_fields kvs @ (if kvs = [] then '''' else '','') @ ''"msg_ids":[''
     @ ids_text (d_msgIds d) @ '']}''\<close>
proof -
  have "renderJson 13 d =
      fst (addMsgIds (d_msgIds d) (foldl (\<lambda>st (k, v). addKV k v st) (''{'', True) (json_kvs 13 d))) @ ''}''"
    unfolding renderJson_def Let_def addKV_type unfolding addKVNum_eq by (simp add: json_kvs_def)
  then show ?thesis
    using foldl_addKV [of "(''{'', True)" "[]" "json_kvs 13 d"] assms by (simp add: addMsgIds_def join_ids_eq)
qed

lemma renderJson_table: "renderJson t (decoded_by t fs) = wire_json t fs"
proof (cases "t = 13 \<and> numbers_of 5 fs \<noteq> []")
  case True
  then show ?thesis
    using renderJson_ids [of "decoded_by 13 fs"] by (simp add: wire_json_def Let_def json_kvs_table decoded_table)
next
  case False
  then have "t = 13 \<longrightarrow> d_msgIds (decoded_by t fs) = []" by (auto simp: decoded_table)
  then show ?thesis
    using renderJson_obj [of t "decoded_by t fs"] False
    by (auto simp: wire_json_def Let_def json_kvs_table renderJson_def)
qed

section \<open>Properties\<close>

text \<open>
  (C17) Decoding ends on every body that is a sequence of wire fields and yields the text that the
  protocol table \<open>wire_json\<close> prescribes, for every message type and every sequence of fields: with
  fields in any order, repeated, unknown or missing. The table names for each key of the JSON object
  the wire fields that feed it. It records in particular that a chat message (type 1) has no
  target: field 2, in which \<open>encodeJsonToProto\<close> sends the target, feeds no key.
\<close>

theorem decode_wellformed:
  assumes "length (wire_msg fs) < 2 ^ 64"
  shows "decodeProtoToJson t (wire_msg fs) = Some (if fs = [] then '''' else wire_json t fs)"
proof (cases "fs = []")
  case True
  then show ?thesis by (simp add: decodeProtoToJson_def wire_msg_def)
next
  case False
  then show ?thesis
    using decodeProtoToJson_wire [OF assms False] by (simp add: renderJson_table)
qed

theorem decode_wellformed_witness:
  \<open>decodeProtoToJson 4 (wire_msg [WStr 1 ''alice'', WStr 2 ''pw'']) =
     Some (json_obj [(''username'', ''alice''), (''password'', ''pw'')])
   \<and> decodeProtoToJson 13 (wire_msg [WInt 2 1, WInt 5 7, WStr 1 ''ok'', WInt 5 9]) =
     Some (''{"result":"ok","type":"1","msg_ids":[7,9]}'')
   \<and> decodeProtoToJson 1 (wire_msg [WStr 3 ''hi'', WStr 2 ''bob'', WStr 1 ''alice'', WStr 4 ''12'']) =
     Some (json_obj [(''sender'', ''alice''), (''message'', ''hi''), (''msg_id'', ''12'')])\<close>
proof -
  have "length (wire_msg [WStr 1 ''alice'', WStr 2 ''pw'']) < 2 ^ 64"
    "length (wire_msg [WInt 2 1, WInt 5 7, WStr 1 ''ok'', WInt 5 9]) < 2 ^ 64"
    "length (wire_msg [WStr 3 ''hi'', WStr 2 ''bob'', WStr 1 ''alice'', WStr 4 ''12'']) < 2 ^ 64"
    by (rule wire_msg_fits, simp)+
  moreover have "wire_json 4 [WStr 1 ''alice'', WStr 2 ''pw''] =
      json_obj [(''username'', ''alice''), (''password'', ''pw'')]"
    by (simp add: wire_json_def wire_kvs_def text_of_def texts_of_def)
  moreover have \<open>wire_json 13 [WInt 2 1, WInt 5 7, WStr 1 ''ok'', WInt 5 9] =
      ''{"result":"ok","type":"1","msg_ids":[7,9]}''\<close>
    by code_simp
  moreover have "wire_json 1 [WStr 3 ''hi'', WStr 2 ''bob'', WStr 1 ''alice'', WStr 4 ''12''] =
      json_obj [(''sender'', ''alice''), (''message'', ''hi''), (''msg_id'', ''12'')]"
    by code_simp
  ultimately show ?thesis by (simp add: decode_wellformed)
qed

text \<open>
  (C33) A packet of eleven body bytes stops the server's reactor thread: the length of its first
  field makes the offset wrap around to zero, and the decoding loop starts over for ever, for
  every message type.
\<close>

theorem decode_can_loop_forever:
  "decodeProtoToJson t looping_body = None \<and> length looping_body = 11"
  using decodeLoop_looping [of t decoded_init] by (simp add: decodeProtoToJson_def looping_body_def)

text \<open>
  A body that is JSON text, the format the README documents, is rejected as malformed: every
  body that begins with an opening brace decodes to the empty string, for every message type.
\<close>

theorem json_body_rejected:
  assumes "length rest < 2 ^ 63"
  shows "decodeProtoToJson t (CHR ''{'' # rest) = Some ''''"
  using assms by (rule decodeProtoToJson_brace)

theorem json_body_rejected_witness:
  \<open>decodeProtoToJson 3 (''{"sender":"alice"}'') = Some ''''\<close>
  using json_body_rejected [of "tl ''{\"sender\":\"alice\"}''" 3] by simp

text \<open>
  No chat packet has a target: whatever the body of a type 1 packet is, the JSON text it
  decodes to is empty or an object of at most sender, message, timestamp and message number,
  because field 2 is stored as \<open>peer\<close> and \<open>target\<close> is never assigned.
\<close>

theorem chat_target_lost:
  assumes "decodeProtoToJson 1 body = Some json"
  shows "json = '''' \<or> (\<exists>s m ts i. json = json_obj (nonempty_fields
    [(''sender'', s), (''message'', m), (''timestamp'', ts), (''msg_id'', num_text i)]))"
proof (cases "decodeLoop 1 body 0 decoded_init")
  case None
  with assms show ?thesis by (auto simp: decodeProtoToJson_def split: if_splits)
next
  case (Some r)
  show ?thesis
  proof (cases r)
    case None
    with Some assms show ?thesis by (auto simp: decodeProtoToJson_def split: if_splits)
  next
    case (Some d)
    then have "decodeLoop 1 body 0 decoded_init = Some (Some d)"
      using \<open>decodeLoop 1 body 0 decoded_init = Some r\<close> by simp
    then have "d_target d = []" and "json = '''' \<or> json = renderJson 1 d"
      using decodeLoop_target [of 1 body 0 decoded_init d] assms
      by (auto simp: decodeProtoToJson_def decoded_init_def split: if_splits)
    moreover have "renderJson 1 d = json_obj (nonempty_fields [(''sender'', d_sender d),
        (''message'', d_message d), (''timestamp'', d_timestamp d), (''msg_id'', num_text (d_msgId d))])"
      using renderJson_obj [of 1 d] \<open>d_target d = []\<close> by (simp add: json_kvs_def)
    ultimately show ?thesis by blast
  qed
qed

theorem chat_target_lost_witness:
  "\<exists>json. decodeProtoToJson 1 (wire_msg [WStr 1 ''alice'', WStr 2 ''bob'', WStr 3 ''hi'']) = Some json
     \<and> (json = '''' \<or> (\<exists>s m ts i. json = json_obj (nonempty_fields
          [(''sender'', s), (''message'', m), (''timestamp'', ts), (''msg_id'', num_text i)])))"
proof -
  have "length (wire_msg [WStr 1 ''alice'', WStr 2 ''bob'', WStr 3 ''hi'']) < 2 ^ 64" by (rule wire_msg_fits) simp
  then obtain json where
    "decodeProtoToJson 1 (wire_msg [WStr 1 ''alice'', WStr 2 ''bob'', WStr 3 ''hi'']) = Some json"
    using decodeProtoToJson_wire [of _ 1] by blast
  with chat_target_lost show ?thesis by blast
qed

text \<open>
  (C18) Encoding an enriched chat text whose values are plain: when no value holds a double quote or a
  backslash and no value is itself the name of a key that is looked up after it, the packet body
  made of the text is the sequence of wire fields sender, target, text, message number and time with
  exactly these values, the empty ones left out. Outside these conditions nothing is claimed: the
  text is built without escaping, so a double quote cuts a value short or forges another field.
\<close>

theorem encode_chat_fields:
  assumes "plain sender" and "plain target" and "plain message" and "plain ts"
    and "sender \<notin> {''target'', ''message'', ''timestamp''}"
    and "target \<notin> {''message'', ''timestamp''}" and "message \<noteq> ''timestamp''"
  shows "encodeJsonToProto 1 (buildEnrichedChatBodyWithMsgId i sender target message ts) =
    wire_msg (opt_str 1 sender @ opt_str 2 target @ opt_str 3 message @ opt_int 4 i @ opt_str 5 ts)"
  using assms
  by (simp add: encodeJsonToProto_def buildEnrichedChatBodyWithMsgId_obj Let_def getField_obj
      not_imitated_Cons put_append wire_msg_append)

theorem encode_chat_fields_witness:
  "encodeJsonToProto 1 (buildEnrichedChatBodyWithMsgId 7 ''alice'' ''bob'' ''hi'' ''now'') =
     wire_msg [WStr 1 ''alice'', WStr 2 ''bob'', WStr 3 ''hi'', WInt 4 7, WStr 5 ''now'']"
  using encode_chat_fields [of "''alice''" "''bob''" "''hi''" "''now''" 7]
  by (simp add: plain_def opt_str_def opt_int_def)

text \<open>
  Credentials get through: a login body of user name and password decodes to a text from which
  the login handler's scanner reads both back, for values free of the scanner's delimiters.
\<close>

definition scannable :: "string \<Rightarrow> bool" where
  "scannable v \<longleftrightarrow> plain v \<and> CHR '','' \<notin> set v \<and> CHR ''}'' \<notin> set v \<and> (v \<noteq> [] \<longrightarrow> hd v \<noteq> CHR '' '')"

theorem login_fields_roundtrip:
  assumes "scannable u" and "scannable p" and "u \<noteq> ''''" and "u \<noteq> ''password''"
    and "length (wire_msg [WStr 1 u, WStr 2 p]) < 2 ^ 64"
  shows "\<exists>json. decodeProtoToJson 4 (wire_msg [WStr 1 u, WStr 2 p]) = Some json
    \<and> extractJsonValue json ''username'' = u \<and> extractJsonValue json ''password'' = p"
proof -
  let ?kvs = "nonempty_fields [(''username'', u), (''password'', p)]"
  have "decodeProtoToJson 4 (wire_msg [WStr 1 u, WStr 2 p]) = Some (json_obj ?kvs)"
    using decode_obj [of "[WStr 1 u, WStr 2 p]" 4] assms(5)
    by (simp add: json_kvs_def assign_str_def decoded_init_def)
  moreover have "extractJsonValueLite (json_obj ?kvs) ''username'' = u"
    using assms by (intro extractLite_obj(2)) (auto simp: scannable_def not_imitated_Cons)
  moreover have "extractJsonValueLite (json_obj ?kvs) ''password'' = p"
  proof (cases "p = []")
    case True
    then show ?thesis
      using assms by (simp add: extractLite_obj(1) scannable_def not_imitated_Cons)
  next
    case False
    then show ?thesis
      using assms by (intro extractLite_obj(2)) (auto simp: scannable_def not_imitated_Cons)
  qed
  ultimately show ?thesis by (auto simp: extractJsonValue_eq)
qed

theorem login_fields_roundtrip_witness:
  "\<exists>json. decodeProtoToJson 4 (wire_msg [WStr 1 ''alice'', WStr 2 ''pw'']) = Some json
     \<and> extractJsonValue json ''username'' = ''alice'' \<and> extractJsonValue json ''password'' = ''pw''"
proof -
  have "length (wire_msg [WStr 1 ''alice'', WStr 2 ''pw'']) < 2 ^ 64" by (rule wire_msg_fits) simp
  then show ?thesis
    by (intro login_fields_roundtrip) (auto simp: scannable_def plain_def)
qed

end
