(* ===== verification/Snowflake.thy ===== *)
theory Snowflake
  imports Prelude
begin

text \<open>
  The message number generator \<open>EpollChatServer::SnowflakeIdGenerator\<close>
  (\<open>EpollChatServer.h\<close>, \<open>EpollChatServer.cpp\<close>). The mutex makes every call of \<open>nextId\<close> atomic,
  so a run of the generator is a sequence of calls. The system clock is an input: the list of the
  readings that the successive calls of \<open>currentMs\<close> return. A call that needs more readings than
  the list has (the busy loop of \<open>waitNextMs\<close> is still spinning) gives \<open>None\<close>.
\<close>

unbundle bit_operations_syntax

section \<open>The generator\<close>

definition kEpochMs :: u64 where "kEpochMs = 1704067200000"
definition kWorkerBits :: nat where "kWorkerBits = 10"
definition kSequenceBits :: nat where "kSequenceBits = 12"
definition kMaxWorkerId :: u64 where "kMaxWorkerId = push_bit kWorkerBits 1 - 1"
definition kMaxSequence :: u64 where "kMaxSequence = push_bit kSequenceBits 1 - 1"
definition kWorkerShift :: nat where "kWorkerShift = kSequenceBits"
definition kTimestampShift :: nat where "kTimestampShift = kSequenceBits + kWorkerBits"

record snowflake =
  m_workerId :: u64
  m_lastTs :: u64
  m_sequence :: u64

text \<open>The constructor; the argument is the hash of the constructing thread's identifier.\<close>

definition SnowflakeIdGenerator :: "u64 \<Rightarrow> snowflake" where
  "SnowflakeIdGenerator threadHash =
     \<lparr>m_workerId = threadHash AND kMaxWorkerId, m_lastTs = 0, m_sequence = 0\<rparr>"

fun currentMs :: "u64 list \<Rightarrow> (u64 \<times> u64 list) option" where
  "currentMs [] = None"
| "currentMs (t # clock) = Some (t, clock)"

fun waitNextMs :: "u64 \<Rightarrow> u64 list \<Rightarrow> (u64 \<times> u64 list) option" where
  "waitNextMs lastTs [] = None"
| "waitNextMs lastTs (ts # clock) = (if ts \<le> lastTs then waitNextMs lastTs clock else Some (ts, clock))"

definition makeId :: "u64 \<Rightarrow> u64 \<Rightarrow> u64 \<Rightarrow> u64" where
  "makeId workerId ts sequence =
     (let delta = (if ts > kEpochMs then ts - kEpochMs else 0)
      in push_bit kTimestampShift delta OR push_bit kWorkerShift workerId OR sequence)"

definition nextId :: "snowflake \<Rightarrow> u64 list \<Rightarrow> (u64 \<times> snowflake \<times> u64 list) option" where
  "nextId g clock =
     (case currentMs clock of None \<Rightarrow> None | Some (now, clock) \<Rightarrow>
       let ts = (if now < m_lastTs g then m_lastTs g else now) in
       let seq = (if ts = m_lastTs g then (m_sequence g + 1) AND kMaxSequence else 0) in
       case (if ts = m_lastTs g \<and> seq = 0 then waitNextMs (m_lastTs g) clock else Some (ts, clock)) of
         None \<Rightarrow> None
       | Some (ts, clock) \<Rightarrow>
           Some (makeId (m_workerId g) ts seq, g\<lparr>m_lastTs := ts, m_sequence := seq\<rparr>, clock))"

text \<open>A run: the numbers that \<open>n\<close> calls in a row return.\<close>

fun nextIds :: "nat \<Rightarrow> snowflake \<Rightarrow> u64 list \<Rightarrow> (u64 list \<times> snowflake \<times> u64 list) option" where
  "nextIds 0 g clock = Some ([], g, clock)"
| "nextIds (Suc n) g clock =
     (case nextId g clock of None \<Rightarrow> None
      | Some (i, g', clock') \<Rightarrow>
          (case nextIds n g' clock' of None \<Rightarrow> None | Some (is, g'', clock'') \<Rightarrow> Some (i # is, g'', clock'')))"

lemmas snowflake_consts =
  kEpochMs_def kWorkerBits_def kSequenceBits_def kMaxWorkerId_def kMaxSequence_def kWorkerShift_def
  kTimestampShift_def

section \<open>The layout of a number\<close>

text \<open>The clock readings for which the time stamp fits the 42 bits a number has for it.\<close>

definition clock_ok :: "u64 \<Rightarrow> bool" where
  "clock_ok t \<longleftrightarrow> kEpochMs \<le> t \<and> unat t < unat kEpochMs + 2 ^ 42"

definition sf_inv :: "snowflake \<Rightarrow> bool" where
  "sf_inv g \<longleftrightarrow> unat (m_workerId g) < 2 ^ 10 \<and> unat (m_sequence g) < 2 ^ 12
     \<and> (m_lastTs g = 0 \<and> m_sequence g = 0 \<or> clock_ok (m_lastTs g))"

lemma push_bit_AND_low:
  fixes a b :: u64
  assumes "unat b < 2 ^ n"
  shows "push_bit n a AND b = 0"
proof (rule bit_eqI)
  fix k
  have "\<not> bit b k" if "n \<le> k"
  proof -
    have "unat b < 2 ^ k" using assms that by (meson less_le_trans one_le_numeral power_increasing)
    then have "drop_bit k (unat b) = 0" by (simp add: drop_bit_eq_div)
    then have "unat (drop_bit k b) = 0" by (simp only: unat_drop_bit_eq)
    then show ?thesis by (simp add: bit_iff_odd_drop_bit unat_eq_zero)
  qed
  then show "bit (push_bit n a AND b) k = bit 0 k"
    by (auto simp: bit_and_iff bit_push_bit_iff not_le)
qed

lemma unat_push_bit:
  fixes a :: u64
  assumes "unat a * 2 ^ n < 2 ^ 64"
  shows "unat (push_bit n a) = unat a * 2 ^ n"
proof -
  have "unat (push_bit n a) = push_bit n (unat a) mod 2 ^ 64"
    by (simp add: unsigned_push_bit_eq take_bit_eq_mod)
  then show ?thesis using assms by (simp add: push_bit_eq_mult)
qed

lemma unat_OR_low:
  fixes a b :: u64
  assumes "unat a * 2 ^ n + unat b < 2 ^ 64" and "unat b < 2 ^ n"
  shows "unat (push_bit n a OR b) = unat a * 2 ^ n + unat b"
proof -
  have "push_bit n a OR b = push_bit n a + b"
    using push_bit_AND_low [OF assms(2)] by (simp add: disjunctive_add_eq_or)
  then show ?thesis
    using assms unat_push_bit [of a n] by (simp add: unat_add_64)
qed

lemma makeId_value:
  assumes "clock_ok ts" and "unat w < 2 ^ 10" and "unat s < 2 ^ 12"
  shows "unat (makeId w ts s) = (unat ts - unat kEpochMs) * 2 ^ 22 + unat w * 2 ^ 12 + unat s"
proof -
  have d: "(if ts > kEpochMs then ts - kEpochMs else 0) = ts - kEpochMs"
    using assms(1) by (auto simp: clock_ok_def)
  have ud: "unat (ts - kEpochMs) = unat ts - unat kEpochMs"
    using assms(1) by (simp add: clock_ok_def unat_sub_64 word_le_nat_alt)
  have lt: "unat ts - unat kEpochMs < 2 ^ 42"
    using assms(1) by (auto simp: clock_ok_def)
  have ws: "unat (push_bit 12 w OR s) = unat w * 2 ^ 12 + unat s"
    using assms by (intro unat_OR_low) auto
  have "unat (push_bit 22 (ts - kEpochMs) OR (push_bit 12 w OR s)) =
      (unat ts - unat kEpochMs) * 2 ^ 22 + (unat w * 2 ^ 12 + unat s)"
    using assms lt by (subst unat_OR_low) (auto simp: ud ws)
  then show ?thesis
    unfolding makeId_def Let_def d by (simp add: kTimestampShift_def kWorkerShift_def kSequenceBits_def kWorkerBits_def)
qed

section \<open>Single calls\<close>

lemma waitNextMs_later:
  "waitNextMs l clock = Some (ts, clock') \<Longrightarrow> l < ts \<and> ts \<in> set clock \<and> set clock' \<subseteq> set clock"
  by (induction clock) (auto split: if_splits)

lemma waitNextMs_returns: "t \<in> set clock \<Longrightarrow> l < t \<Longrightarrow> waitNextMs l clock \<noteq> None"
  by (induction clock) auto

lemma kMaxSequence_mask: "kMaxSequence = 4095" "kMaxWorkerId = 1023"
  by (simp_all add: snowflake_consts)

lemma unat_AND_mask:
  "unat (x AND kMaxSequence) = unat x mod 2 ^ 12" "unat (x AND kMaxWorkerId) = unat x mod 2 ^ 10"
  using unat_and_pow2_minus_1 [of 12 x] unat_and_pow2_minus_1 [of 10 x]
  by (simp_all add: kMaxSequence_mask)

lemma next_sequence:
  assumes "unat s < 2 ^ 12"
  shows "(s + 1) AND kMaxSequence = 0 \<or> unat ((s + 1) AND kMaxSequence) = unat s + 1"
proof -
  have "unat (s + 1) = unat s + 1" using assms by (simp add: unat_add_64)
  then have "unat ((s + 1) AND kMaxSequence) = (unat s + 1) mod 4096"
    using unat_AND_mask(1) [of "s + 1"] by simp
  then show ?thesis
    using assms by (cases "unat s + 1 = 4096") (auto simp: unat_eq_zero)
qed

text \<open>
  What a call does to the state: the worker stays, the pair of time stamp and sequence number
  grows in the lexicographic order, and the result is the number of the new state.
\<close>

definition rank :: "snowflake \<Rightarrow> nat" where
  "rank g = unat (m_lastTs g) * 2 ^ 12 + unat (m_sequence g)"

lemma nextId_step:
  assumes "nextId g clock = Some (i, g', clock')" and "sf_inv g" and "\<forall>t \<in> set clock. clock_ok t"
  shows "m_workerId g' = m_workerId g" and "rank g < rank g'" and "sf_inv g'" and "clock_ok (m_lastTs g')"
    and "i = makeId (m_workerId g') (m_lastTs g') (m_sequence g')" and "set clock' \<subseteq> set clock"
proof -
  obtain now rest where c: "clock = now # rest"
    using assms(1) by (cases clock) (auto simp: nextId_def)
  define t0 where "t0 = (if now < m_lastTs g then m_lastTs g else now)"
  define q where "q = (if t0 = m_lastTs g then (m_sequence g + 1) AND kMaxSequence else 0)"
  obtain ts where ts: "(if t0 = m_lastTs g \<and> q = 0 then waitNextMs (m_lastTs g) rest else Some (t0, rest))
      = Some (ts, clock')" and g': "g' = g\<lparr>m_lastTs := ts, m_sequence := q\<rparr>"
      and i: "i = makeId (m_workerId g) ts q"
    using assms(1) unfolding c nextId_def Let_def currentMs.simps option.case prod.case
      t0_def [symmetric] q_def [symmetric]
    by (auto split: option.splits prod.splits)
  have now: "clock_ok now" "now \<noteq> 0" using assms(3) by (auto simp: c clock_ok_def kEpochMs_def)
  show "m_workerId g' = m_workerId g" by (simp add: g')
  show "i = makeId (m_workerId g') (m_lastTs g') (m_sequence g')" by (simp add: g' i)
  show "set clock' \<subseteq> set clock"
    using ts waitNextMs_later [of "m_lastTs g" rest ts clock'] by (auto simp: c split: if_splits)
  have seq: "unat q < 2 ^ 12"
    using unat_AND_mask(1) [of "m_sequence g + 1"] by (simp add: q_def)
  have tok: "clock_ok ts"
  proof (cases "t0 = m_lastTs g \<and> q = 0")
    case True
    then have "waitNextMs (m_lastTs g) rest = Some (ts, clock')" using ts by (auto split: if_splits)
    then have "ts \<in> set rest" using waitNextMs_later by blast
    then show ?thesis using assms(3) by (simp add: c)
  next
    case False
    then have "ts = t0" using ts by (auto split: if_splits)
    then show ?thesis using now assms(2) by (auto simp: sf_inv_def t0_def split: if_splits)
  qed
  then show "clock_ok (m_lastTs g')" by (simp add: g')
  show "sf_inv g'" using assms(2) seq tok unfolding sf_inv_def g' by simp
  have "m_lastTs g < ts \<or> ts = m_lastTs g \<and> q = (m_sequence g + 1) AND kMaxSequence \<and> q \<noteq> 0"
    using ts waitNextMs_later [of "m_lastTs g" rest ts clock']
    by (cases "t0 = m_lastTs g") (auto simp: t0_def q_def not_less order.order_iff_strict split: if_splits)
  then consider (same) "ts = m_lastTs g" "q = (m_sequence g + 1) AND kMaxSequence" "q \<noteq> 0"
    | (later) "m_lastTs g < ts" by blast
  then show "rank g < rank g'"
  proof cases
    case same
    then have "unat q = unat (m_sequence g) + 1"
      using next_sequence [of "m_sequence g"] assms(2) by (auto simp: sf_inv_def)
    then show ?thesis using same(1) by (simp add: rank_def g')
  next
    case later
    then have "unat (m_lastTs g) + 1 \<le> unat ts" by (simp add: word_less_nat_alt)
    then have "(unat (m_lastTs g) + 1) * 2 ^ 12 \<le> unat ts * 2 ^ 12" by (rule mult_right_mono) simp
    then show ?thesis using assms(2) by (simp add: rank_def g' sf_inv_def)
  qed
qed

section \<open>Runs\<close>

lemma makeId_mono:
  assumes "clock_ok t" and "clock_ok t'" and "unat w < 2 ^ 10" and "unat s < 2 ^ 12" and "unat s' < 2 ^ 12"
    and "unat t * 2 ^ 12 + unat s < unat t' * 2 ^ 12 + unat s'"
  shows "makeId w t s < makeId w t' s'"
proof -
  define a where "a = unat t - unat kEpochMs"
  define a' where "a' = unat t' - unat kEpochMs"
  have t: "unat t = a + unat kEpochMs" "unat t' = a' + unat kEpochMs"
    using assms(1,2) by (auto simp: a_def a'_def clock_ok_def word_le_nat_alt)
  have "a * 2 ^ 12 + unat s < a' * 2 ^ 12 + unat s'"
    using assms(6) by (simp add: t algebra_simps)
  then have "a * 2 ^ 22 + unat w * 2 ^ 12 + unat s < a' * 2 ^ 22 + unat w * 2 ^ 12 + unat s'"
    using assms(3-5) by (cases a a' rule: linorder_cases) simp_all
  then show ?thesis
    using assms by (simp add: word_less_nat_alt makeId_value a_def a'_def)
qed

lemma nextIds_run:
  assumes "nextIds n g clock = Some (ids, g', clock')" and "sf_inv g" and "\<forall>t \<in> set clock. clock_ok t"
  shows "length ids = n \<and> sorted_wrt (<) ids
    \<and> (\<forall>i \<in> set ids. \<exists>t s. i = makeId (m_workerId g) t s \<and> clock_ok t \<and> unat s < 2 ^ 12
          \<and> rank g < unat t * 2 ^ 12 + unat s)"
  using assms
proof (induction n arbitrary: g clock ids)
  case (Suc n)
  obtain i h c rest where step: "nextId g clock = Some (i, h, c)"
    and run: "nextIds n h c = Some (rest, g', clock')" and ids: "ids = i # rest"
    using Suc.prems(1) by (auto split: option.splits prod.splits)
  note st = nextId_step [OF step Suc.prems(2,3)]
  have h: "unat (m_sequence h) < 2 ^ 12" "unat (m_workerId h) < 2 ^ 10" using st(3) by (auto simp: sf_inv_def)
  have "\<forall>t \<in> set c. clock_ok t" using st(6) Suc.prems(3) by auto
  from Suc.IH [OF run st(3) this]
  have IH: "length rest = n" "sorted_wrt (<) rest"
    "\<forall>j \<in> set rest. \<exists>t s. j = makeId (m_workerId h) t s \<and> clock_ok t \<and> unat s < 2 ^ 12
       \<and> rank h < unat t * 2 ^ 12 + unat s" by auto
  have "i < j" if "j \<in> set rest" for j
    using IH(3) that st(4,5) h makeId_mono [of "m_lastTs h" _ "m_workerId h" "m_sequence h"]
    by (fastforce simp: rank_def)
  moreover have "\<exists>t s. j = makeId (m_workerId g) t s \<and> clock_ok t \<and> unat s < 2 ^ 12
       \<and> rank g < unat t * 2 ^ 12 + unat s" if "j \<in> set ids" for j
  proof (cases "j = i")
    case True
    then show ?thesis using st h by (auto simp: rank_def)
  next
    case False
    then have "j \<in> set rest" using that by (simp add: ids)
    with IH(3) obtain t s where "j = makeId (m_workerId h) t s" "clock_ok t" "unat s < 2 ^ 12"
      "rank h < unat t * 2 ^ 12 + unat s" by blast
    with st(1,2) show ?thesis by fastforce
  qed
  ultimately show ?case using IH(1,2) by (simp add: ids)
qed simp

lemma SnowflakeIdGenerator_inv: "sf_inv (SnowflakeIdGenerator h)"
  unfolding sf_inv_def SnowflakeIdGenerator_def using unat_AND_mask(2) [of h] by simp

lemma makeId_worker:
  assumes "clock_ok t" and "unat w < 2 ^ 10" and "unat s < 2 ^ 12"
  shows "unat (makeId w t s) div 2 ^ 12 mod 2 ^ 10 = unat w"
proof -
  have "unat (makeId w t s) = unat s + 2 ^ 12 * ((unat t - unat kEpochMs) * 2 ^ 10 + unat w)"
    using makeId_value [OF assms] by simp
  then have "unat (makeId w t s) div 2 ^ 12 = (unat t - unat kEpochMs) * 2 ^ 10 + unat w"
    using assms(3) by (simp only: div_mult_self2 [of "2 ^ 12"]) simp
  then show ?thesis using assms(2) by simp
qed

section \<open>Properties\<close>

text \<open>
  (C16) Message numbers are unique and ordered: the numbers that a new generator returns in
  successive calls are strictly increasing as unsigned 64-bit values, also when the clock stands
  still, jumps, or runs backwards, for clock readings between the start of 2024 and \<open>2 ^ 42\<close>
  milliseconds later.
\<close>

theorem message_ids_increase:
  assumes "nextIds n (SnowflakeIdGenerator h) clock = Some (ids, g', clock')"
    and "\<forall>t \<in> set clock. clock_ok t"
  shows "length ids = n \<and> sorted_wrt (<) ids \<and> distinct ids"
  using nextIds_run [OF assms(1) SnowflakeIdGenerator_inv assms(2)] by (simp add: strict_sorted_iff)

theorem message_ids_increase_witness:
  "\<exists>ids g' c'. nextIds 3 (SnowflakeIdGenerator 5) [1704067200009, 1704067200003, 1704067200009] =
      Some (ids, g', c') \<and> length ids = 3 \<and> sorted_wrt (<) ids \<and> distinct ids"
proof -
  let ?c = "[1704067200009, 1704067200003, 1704067200009]"
  have "nextIds 3 (SnowflakeIdGenerator 5) ?c \<noteq> None" by code_simp
  then obtain ids g' c' where r: "nextIds 3 (SnowflakeIdGenerator 5) ?c = Some (ids, g', c')" by auto
  moreover have "\<forall>t \<in> set ?c. clock_ok t" by (simp add: clock_ok_def kEpochMs_def)
  ultimately show ?thesis using message_ids_increase [OF r] by blast
qed

text \<open>
  Generators of different workers never issue the same number: the worker number, ten bits of
  the hash of the constructing thread, is part of every number issued.
\<close>

theorem workers_never_collide:
  assumes "nextIds m (SnowflakeIdGenerator h1) clock1 = Some (ids1, g1, c1)"
    and "nextIds n (SnowflakeIdGenerator h2) clock2 = Some (ids2, g2, c2)"
    and "\<forall>t \<in> set clock1 \<union> set clock2. clock_ok t"
    and "h1 AND kMaxWorkerId \<noteq> h2 AND kMaxWorkerId"
  shows "set ids1 \<inter> set ids2 = {}"
proof -
  have w: "m_workerId (SnowflakeIdGenerator h) = h AND kMaxWorkerId" "unat (h AND kMaxWorkerId) < 2 ^ 10" for h
    using unat_AND_mask(2) [of h] by (simp_all add: SnowflakeIdGenerator_def)
  have "unat i div 2 ^ 12 mod 2 ^ 10 = unat (h AND kMaxWorkerId)"
    if "nextIds k (SnowflakeIdGenerator h) clock = Some (ids, g, c)" "\<forall>t \<in> set clock. clock_ok t"
      "i \<in> set ids" for k h clock ids g c i
    using nextIds_run [OF that(1) SnowflakeIdGenerator_inv that(2)] that(3) makeId_worker w by fastforce
  from this [OF assms(1)] this [OF assms(2)] assms(3,4)
  have "i \<notin> set ids2" if "i \<in> set ids1" for i
    using that by (metis Un_iff word_unat_eq_iff)
  then show ?thesis by blast
qed

theorem workers_never_collide_witness:
  "\<exists>a b ga gb ca cb. nextIds 1 (SnowflakeIdGenerator 5) [1704067200009] = Some (a, ga, ca)
     \<and> nextIds 1 (SnowflakeIdGenerator 6) [1704067200009] = Some (b, gb, cb) \<and> set a \<inter> set b = {}"
proof -
  have "nextIds 1 (SnowflakeIdGenerator 5) [1704067200009] \<noteq> None"
    and "nextIds 1 (SnowflakeIdGenerator 6) [1704067200009] \<noteq> None" by code_simp+
  then obtain a ga ca b gb cb where r: "nextIds 1 (SnowflakeIdGenerator 5) [1704067200009] = Some (a, ga, ca)"
    "nextIds 1 (SnowflakeIdGenerator 6) [1704067200009] = Some (b, gb, cb)" by auto
  have "set a \<inter> set b = {}"
    by (rule workers_never_collide [OF r]) (simp_all add: clock_ok_def kEpochMs_def kMaxSequence_mask)
  with r show ?thesis by blast
qed

text \<open>
  A call of the generator returns as soon as the clock passes the last time stamp: if, after
  the first reading of the clock, any later reading is beyond it, the busy loop has ended.
\<close>

theorem nextId_returns:
  assumes "t \<in> set clock" and "m_lastTs g < t"
  shows "\<exists>i g' clock'. nextId g (now # clock) = Some (i, g', clock')"
proof -
  obtain r where "waitNextMs (m_lastTs g) clock = Some r"
    using waitNextMs_returns [OF assms] by blast
  then show ?thesis by (cases r) (auto simp: nextId_def Let_def)
qed

theorem nextId_returns_witness:
  "\<exists>i g' clock'. nextId \<lparr>m_workerId = 1, m_lastTs = 50, m_sequence = 4095\<rparr> (50 # [50, 49, 51])
     = Some (i, g', clock')"
  by (rule nextId_returns [of 51]) simp_all

end
