(* ===== verification/Frame.thy ===== *)
theory Frame
  imports RecvBuffer Codec
begin

text \<open>
  Packets on the wire (\<open>EpollChatServer.cpp\<close>): four bytes of total length and two bytes of message
  type in network byte order, then the body. \<open>splitPackets\<close> is the loop of \<open>handleRead\<close> that cuts
  complete packets off the receive buffer; \<open>frames\<close> is the same cut as a function of a byte
  string, against which the loop is verified.
\<close>

section \<open>Integers in memory and in network byte order\<close>

text \<open>
  The server runs on little-endian machines: \<open>store32\<close> and \<open>load32\<close> are the memory representation of
  a \<open>uint32_t\<close>, \<open>htonl\<close> and \<open>ntohl\<close> swap its bytes.
\<close>

definition store32 :: "u32 \<Rightarrow> byte list" where
  "store32 w = map (\<lambda>i. to_byte (ucast (drop_bit (8 * i) w))) [0, 1, 2, 3]"

definition load32 :: "byte list \<Rightarrow> u32" where
  "load32 bs = ucast (byte_of (bs ! 0)) OR push_bit 8 (ucast (byte_of (bs ! 1)))
     OR push_bit 16 (ucast (byte_of (bs ! 2))) OR push_bit 24 (ucast (byte_of (bs ! 3)))"

definition store16 :: "u16 \<Rightarrow> byte list" where
  "store16 w = map (\<lambda>i. to_byte (ucast (drop_bit (8 * i) w))) [0, 1]"

definition load16 :: "byte list \<Rightarrow> u16" where
  "load16 bs = ucast (byte_of (bs ! 0)) OR push_bit 8 (ucast (byte_of (bs ! 1)))"

definition htonl :: "u32 \<Rightarrow> u32" where
  "htonl w = load32 (rev (store32 w))"

definition htons :: "u16 \<Rightarrow> u16" where
  "htons w = load16 (rev (store16 w))"

definition ntohl :: "u32 \<Rightarrow> u32" where "ntohl = htonl"
definition ntohs :: "u16 \<Rightarrow> u16" where "ntohs = htons"

lemma load32_store32: "load32 (store32 w) = w"
proof (rule bit_word_eqI)
  fix n :: nat assume n: "n < LENGTH(32)"
  then consider "n < 8" | "8 \<le> n" "n < 16" | "16 \<le> n" "n < 24" | "24 \<le> n" "n < 32" by fastforce
  then show "bit (load32 (store32 w)) n = bit w n"
    by cases (auto simp: load32_def store32_def bit_simps)
qed

lemma load16_store16: "load16 (store16 w) = w"
proof (rule bit_word_eqI)
  fix n :: nat assume n: "n < LENGTH(16)"
  then consider "n < 8" | "8 \<le> n" "n < 16" by fastforce
  then show "bit (load16 (store16 w)) n = bit w n"
    by cases (auto simp: load16_def store16_def bit_simps)
qed

lemma byte_of_inject: "byte_of c = byte_of d \<longleftrightarrow> c = d"
proof
  assume "byte_of c = byte_of d"
  then have "unat (byte_of c) = unat (byte_of d)" by simp
  then have "of_char c = (of_char d :: nat)"
    by (simp add: byte_of_def unat_of_nat take_bit_eq_mod of_char_mod_256)
  then show "c = d" by simp
qed simp

lemma store32_load32:
  assumes "length bs = 4"
  shows "store32 (load32 bs) = bs"
proof -
  obtain a b c d where bs: "bs = [a, b, c, d]"
    using assms by (auto simp: length_Suc_conv numeral_eq_Suc)
  have bits: "bit (byte_of x) n \<Longrightarrow> n < 8" for x n
    using bit_imp_le_length [of "byte_of x" n] by simp
  have "byte_of (to_byte (ucast (load32 bs))) = byte_of a"
    "byte_of (to_byte (ucast (drop_bit 8 (load32 bs)))) = byte_of b"
    "byte_of (to_byte (ucast (drop_bit 16 (load32 bs)))) = byte_of c"
    "byte_of (to_byte (ucast (drop_bit 24 (load32 bs)))) = byte_of d"
    by (rule bit_word_eqI, auto simp: bs load32_def bit_simps dest: bits)+
  then show ?thesis unfolding byte_of_inject by (simp add: bs store32_def)
qed

lemma store16_load16:
  assumes "length bs = 2"
  shows "store16 (load16 bs) = bs"
proof -
  obtain a b where bs: "bs = [a, b]"
    using assms by (auto simp: length_Suc_conv numeral_eq_Suc)
  have bits: "bit (byte_of x) n \<Longrightarrow> n < 8" for x n
    using bit_imp_le_length [of "byte_of x" n] by simp
  have "byte_of (to_byte (ucast (load16 bs))) = byte_of a"
    "byte_of (to_byte (ucast (drop_bit 8 (load16 bs)))) = byte_of b"
    by (rule bit_word_eqI, auto simp: bs load16_def bit_simps dest: bits)+
  then show ?thesis unfolding byte_of_inject by (simp add: bs store16_def)
qed

lemma length_store [simp]: "length (store32 w) = 4" "length (store16 v) = 2"
  by (simp_all add: store32_def store16_def)

lemma ntohl_htonl: "ntohl (htonl w) = w"
  by (simp add: ntohl_def htonl_def store32_load32 load32_store32)

lemma ntohs_htons: "ntohs (htons w) = w"
  by (simp add: ntohs_def htons_def store16_load16 load16_store16)

section \<open>Cutting packets off the receive buffer\<close>

definition MAX_PACKET_SIZE :: u32 where
  "MAX_PACKET_SIZE = 1024 * 1024"

lemma bindE_cong [fundef_cong]:
  "m = m' \<Longrightarrow> (\<And>x. m' = Inr x \<Longrightarrow> f x = g x) \<Longrightarrow> bindE m f = bindE m' g"
  by (cases m') auto

text \<open>
  The result is the flag \<open>shouldDisconnect\<close>, the buffer and the packets; a body whose decoding does
  not end makes the loop diverge.
\<close>

function splitPackets :: "recv_buffer \<Rightarrow> fault + bool \<times> recv_buffer \<times> (u16 \<times> string) list" where
  "splitPackets rb =
     (if rb_size rb \<ge> 4 then
        bindE (rb_peek rb 4 0) (\<lambda>r. case r of None \<Rightarrow> Inr (False, rb, []) | Some lenBytes \<Rightarrow>
          let totalLength = ntohl (load32 lenBytes) in
          if totalLength < 6 \<or> totalLength > MAX_PACKET_SIZE then Inr (True, rb, [])
          else if rb_size rb < ucast totalLength then Inr (False, rb, [])
          else bindE (rb_peek rb 2 4) (\<lambda>r. case r of None \<Rightarrow> Inr (False, rb, []) | Some typeBytes \<Rightarrow>
            let msgType = ntohs (load16 typeBytes) in
            bindE (rb_peekString rb 6 (ucast (totalLength - 6))) (\<lambda>body.
            case decodeProtoToJson msgType body of
              None \<Rightarrow> Inl Diverges
            | Some body \<Rightarrow>
                bindE (splitPackets (rb_consume rb (ucast totalLength)))
                  (\<lambda>(bad, rb', ps). Inr (bad, rb', (msgType, body) # ps)))))
      else Inr (False, rb, []))"
  by pat_completeness auto

lemma rb_consume_size:
  assumes "0 < unat len" and "0 < unat (rb_size rb)"
  shows "unat (rb_size (rb_consume rb len)) < unat (rb_size rb)"
proof (cases "len \<ge> rb_size rb")
  case False
  then have "unat (rb_size rb - len) = unat (rb_size rb) - unat len"
    by (intro unat_sub_64) (simp add: word_le_nat_alt)
  then show ?thesis using False assms by (simp add: rb_consume_def Let_def)
qed (use assms in \<open>simp add: rb_consume_def\<close>)

lemma unat_ucast_u32 [simp]: "unat (ucast (w :: u32) :: u64) = unat w"
  by (simp add: unsigned_ucast_eq take_bit_nat_eq_self unsigned_less [THEN less_le_trans])

termination splitPackets
proof (relation "measure (\<lambda>rb. unat (rb_size rb))")
  fix rb :: recv_buffer and r lenBytes totalLength
  assume "4 \<le> rb_size rb" and "\<not> (totalLength < 6 \<or> MAX_PACKET_SIZE < totalLength)"
  then have "0 < unat totalLength" and "0 < unat (rb_size rb)"
    by (auto simp: word_le_nat_alt word_less_nat_alt)
  then show "(rb_consume rb (ucast (totalLength :: u32)), rb) \<in> measure (\<lambda>rb. unat (rb_size rb))"
    using rb_consume_size [of "ucast totalLength" rb] by simp
qed simp

declare splitPackets.simps [simp del]

section \<open>The cut as a function of the byte stream\<close>

definition be32 :: "byte list \<Rightarrow> nat" where "be32 bs = unat (ntohl (load32 bs))"

function frames :: "byte list \<Rightarrow> (u16 \<times> string) list \<times> bool \<times> byte list" where
  "frames bs =
     (if length bs < 4 then ([], False, bs)
      else let n = be32 (take 4 bs) in
        if n < 6 \<or> n > 1024 * 1024 then ([], True, bs)
        else if length bs < n then ([], False, bs)
        else case frames (drop n bs) of
          (ps, bad, rest) \<Rightarrow>
            ((ntohs (load16 (take 2 (drop 4 bs))), take (n - 6) (drop 6 bs)) # ps, bad, rest))"
  by pat_completeness auto

termination frames
  by (relation "measure length") auto

declare frames.simps [simp del]

fun decode_all :: "(u16 \<times> string) list \<Rightarrow> (u16 \<times> string) list option" where
  "decode_all [] = Some []"
| "decode_all ((t, b) # ps) =
     (case decodeProtoToJson t b of None \<Rightarrow> None
      | Some j \<Rightarrow> map_option (\<lambda>qs. (t, j) # qs) (decode_all ps))"

text \<open>What the reads at the head of the buffer return.\<close>

lemma rb_header:
  assumes inv: "rb_inv rb" and "4 \<le> length (rb_bytes rb)"
  shows "rb_peek rb 4 0 = Inr (Some (take 4 (rb_bytes rb)))"
    and "6 \<le> length (rb_bytes rb) \<Longrightarrow> rb_peek rb 2 4 = Inr (Some (take 2 (drop 4 (rb_bytes rb))))"
  using rb_peek_ok [OF inv, of 0 4] rb_peek_ok [OF inv, of 4 2] assms(2) by simp_all

lemma splitPackets_frames:
  assumes "rb_inv rb" and "frames (rb_bytes rb) = (ps, bad, rest)"
  shows "case decode_all ps of
      None \<Rightarrow> splitPackets rb = Inl Diverges
    | Some qs \<Rightarrow> (\<exists>rb'. splitPackets rb = Inr (bad, rb', qs) \<and> rb_inv rb' \<and> rb_bytes rb' = rest)"
  using assms
proof (induction "length (rb_bytes rb)" arbitrary: rb ps bad rest rule: less_induct)
  case less
  let ?bs = "rb_bytes rb" and ?n = "be32 (take 4 (rb_bytes rb))"
  let ?w = "ntohl (load32 (take 4 ?bs))"
  have sz: "rb_size rb \<ge> 4 \<longleftrightarrow> 4 \<le> length ?bs" by (simp add: word_le_nat_alt)
  have w: "unat ?w = ?n" by (simp add: be32_def)
  have bad: "?w < 6 \<or> ?w > MAX_PACKET_SIZE \<longleftrightarrow> ?n < 6 \<or> ?n > 1024 * 1024"
    by (simp add: word_less_nat_alt w MAX_PACKET_SIZE_def)
  have short: "rb_size rb < ucast ?w \<longleftrightarrow> length ?bs < ?n"
    by (simp add: word_less_nat_alt w)
  show ?case
  proof (cases "length ?bs < 4")
    case True
    with less.prems sz show ?thesis
      by (subst splitPackets.simps) (auto simp: frames.simps [of ?bs])
  next
    case F1: False
    note hd = rb_header(1) [OF less.prems(1)]
    show ?thesis
    proof (cases "?n < 6 \<or> ?n > 1024 * 1024")
      case True
      with F1 less.prems sz hd bad show ?thesis
        by (subst splitPackets.simps) (auto simp: frames.simps [of ?bs])
    next
      case F2: False
      show ?thesis
      proof (cases "length ?bs < ?n")
        case True
        with F1 F2 less.prems sz hd bad short show ?thesis
          by (subst splitPackets.simps) (auto simp: frames.simps [of ?bs])
      next
        case F3: False
        let ?t = "ntohs (load16 (take 2 (drop 4 ?bs)))" and ?b = "take (?n - 6) (drop 6 ?bs)"
        obtain ps' where fr: "frames (drop ?n ?bs) = (ps', bad, rest)" and ps: "ps = (?t, ?b) # ps'"
          using F1 F2 F3 less.prems(2) by (auto simp: frames.simps [of ?bs] Let_def split: prod.splits)
        have "unat (?w - 6) = ?n - 6"
          using F2 by (simp add: unat_sub word_le_nat_alt w)
        then have body: "rb_peekString rb 6 (ucast (?w - 6)) = Inr ?b"
          using rb_peekString_ok [OF less.prems(1), of 6 "ucast (?w - 6)"] F2 F3 by simp
        let ?rb = "rb_consume rb (ucast ?w)"
        have cons: "rb_inv ?rb" "rb_bytes ?rb = drop ?n ?bs"
          using rb_consume_ok [OF less.prems(1), of "ucast ?w"] w by auto
        have IH: "case decode_all ps' of
            None \<Rightarrow> splitPackets ?rb = Inl Diverges
          | Some qs \<Rightarrow> (\<exists>rb'. splitPackets ?rb = Inr (bad, rb', qs) \<and> rb_inv rb' \<and> rb_bytes rb' = rest)"
          using F1 F2 F3 fr cons by (intro less.hyps) auto
        have step: "splitPackets rb = (case decodeProtoToJson ?t ?b of None \<Rightarrow> Inl Diverges
          | Some j \<Rightarrow> bindE (splitPackets ?rb) (\<lambda>(bad, rb', ps). Inr (bad, rb', (?t, j) # ps)))"
          using F1 F2 F3 sz hd bad short rb_header(2) [OF less.prems(1)] body
          by (subst splitPackets.simps) (auto simp: Let_def)
        show ?thesis
          using IH unfolding step ps by (auto split: option.splits)
      qed
    qed
  qed
qed

section \<open>Packets put on the wire\<close>

text \<open>
  The bytes that \<open>sendPacket\<close> appends for a body: the length field counts the body size, cut to 32
  bits, and the header.
\<close>

definition packet_header :: "u16 \<Rightarrow> string \<Rightarrow> byte list" where
  "packet_header t body =
     (let totalLength = 6 + ucast (str_size body) :: u32
      in store32 (htonl totalLength) @ store16 (htons t))"

definition packet :: "u16 \<Rightarrow> string \<Rightarrow> byte list" where
  "packet t body = packet_header t body @ body"

lemma length_packet [simp]: "length (packet t body) = 6 + length body"
  by (simp add: packet_def packet_header_def)

lemma packet_length_field:
  assumes "length body \<le> 1024 * 1024 - 6"
  shows "be32 (take 4 (packet t body @ rest)) = 6 + length body"
proof -
  have "unat (ucast (str_size body) :: u32) = length body"
    using assms by (simp add: unsigned_ucast_eq take_bit_nat_eq_self)
  then have "unat (6 + ucast (str_size body) :: u32) = 6 + length body"
    using assms by (subst unat_plus_if') auto
  then show ?thesis
    by (simp add: be32_def packet_def packet_header_def load32_store32 ntohl_htonl)
qed

lemma frames_packet:
  assumes "length body \<le> 1024 * 1024 - 6"
  shows "frames (packet t body @ rest) = (case frames rest of (ps, bad, r) \<Rightarrow> ((t, body) # ps, bad, r))"
proof -
  have "take 2 (drop 4 (packet t body @ rest)) = store16 (htons t)"
    by (simp add: packet_def packet_header_def)
  moreover have "drop 6 (packet t body @ rest) = body @ rest"
    by (simp add: packet_def packet_header_def)
  moreover have "drop (6 + length body) (packet t body @ rest) = rest" by simp
  ultimately show ?thesis
    using assms packet_length_field [OF assms, of t rest]
    by (subst frames.simps) (simp add: load16_store16 ntohs_htons)
qed

lemma frames_packets:
  "\<forall>(t, b) \<in> set ps. length b \<le> 1024 * 1024 - 6 \<Longrightarrow>
   frames (concat (map (\<lambda>(t, b). packet t b) ps) @ rest) =
     (case frames rest of (qs, bad, r) \<Rightarrow> (ps @ qs, bad, r))"
  by (induction ps) (auto simp: frames_packet split: prod.splits)

text \<open>A stream can be cut as it comes in: what is left over is put before the bytes that follow.\<close>

lemma frames_append:
  assumes "frames a = (ps, False, r)"
  shows "frames (a @ b) = (case frames (r @ b) of (qs, bad, r') \<Rightarrow> (ps @ qs, bad, r'))"
  using assms
proof (induction "length a" arbitrary: a ps rule: less_induct)
  case less
  let ?n = "be32 (take 4 a)"
  show ?case
  proof (cases "length a < 4 \<or> length a < ?n \<and> \<not> (?n < 6 \<or> ?n > 1024 * 1024)")
    case True
    then have "ps = [] \<and> r = a"
      using less.prems by (auto simp: frames.simps [of a] Let_def split: if_splits prod.splits)
    then show ?thesis by (simp split: prod.splits)
  next
    case False
    have good: "\<not> (?n < 6 \<or> ?n > 1024 * 1024)"
      using less.prems False by (auto simp: frames.simps [of a] Let_def split: if_splits)
    with False have n: "\<not> length a < 4" "\<not> length a < ?n" by auto
    obtain ps' where fr: "frames (drop ?n a) = (ps', False, r)"
      and ps: "ps = (ntohs (load16 (take 2 (drop 4 a))), take (?n - 6) (drop 6 a)) # ps'"
      using less.prems n good by (auto simp: frames.simps [of a] Let_def split: prod.splits)
    have "frames (drop ?n a @ b) = (case frames (r @ b) of (qs, bad, r') \<Rightarrow> (ps' @ qs, bad, r'))"
      using n good fr by (intro less.hyps) auto
    then show ?thesis
      using n good by (subst frames.simps) (auto simp: Let_def ps split: prod.splits)
  qed
qed

text \<open>The rest of a cut holds no further packet; a malformed header stays malformed.\<close>

lemma frames_rest:
  assumes "frames a = (ps, False, r)"
  shows "length r \<le> length a \<and> frames r = ([], False, r)"
  using assms
proof (induction "length a" arbitrary: a ps rule: less_induct)
  case less
  let ?n = "be32 (take 4 a)"
  show ?case
  proof (cases "length a < 4 \<or> length a < ?n \<or> ?n < 6 \<or> ?n > 1024 * 1024")
    case True
    then have "ps = [] \<and> r = a"
      using less.prems by (auto simp: frames.simps [of a] Let_def split: if_splits prod.splits)
    then show ?thesis using less.prems by simp
  next
    case False
    then obtain ps' where fr: "frames (drop ?n a) = (ps', False, r)"
      using less.prems by (auto simp: frames.simps [of a] Let_def split: prod.splits)
    have "length r \<le> length (drop ?n a) \<and> frames r = ([], False, r)"
      using False fr by (intro less.hyps) auto
    then show ?thesis by auto
  qed
qed

lemma frames_bad: "frames a = (ps, True, r) \<Longrightarrow> \<exists>r'. frames (a @ b) = (ps, True, r')"
proof (induction "length a" arbitrary: a ps rule: less_induct)
  case less
  let ?n = "be32 (take 4 a)"
  have four: "\<not> length a < 4"
    using less.prems by (auto simp: frames.simps [of a])
  show ?case
  proof (cases "?n < 6 \<or> ?n > 1024 * 1024")
    case True
    then show ?thesis
      using less.prems four by (subst frames.simps) (auto simp: frames.simps [of a] Let_def)
  next
    case False
    then have len: "\<not> length a < ?n"
      using less.prems four by (auto simp: frames.simps [of a] Let_def)
    then obtain ps' where fr: "frames (drop ?n a) = (ps', True, r)"
      and ps: "ps = (ntohs (load16 (take 2 (drop 4 a))), take (?n - 6) (drop 6 a)) # ps'"
      using less.prems False four by (auto simp: frames.simps [of a] Let_def split: prod.splits)
    have "\<exists>r'. frames (drop ?n a @ b) = (ps', True, r')"
      using False fr four len by (intro less.hyps) auto
    then show ?thesis
      using False four len by (subst frames.simps) (auto simp: Let_def ps)
  qed
qed

section \<open>Reading a stream in pieces\<close>

text \<open>
  A connection's history as the receive path sees it: batches of chunks, each batch appended to
  the buffer by one call of \<open>handleRead\<close> and then cut into packets. The run stops when the buffer
  is found to be malformed.
\<close>

fun readBatches :: "recv_buffer \<Rightarrow> byte list list list \<Rightarrow> fault + bool \<times> recv_buffer \<times> (u16 \<times> string) list" where
  "readBatches rb [] = Inr (False, rb, [])"
| "readBatches rb (chunks # batches) =
     bindE (append_all rb_append rb chunks) (\<lambda>rb.
     bindE (splitPackets rb) (\<lambda>(bad, rb, ps).
       if bad then Inr (True, rb, ps)
       else bindE (readBatches rb batches) (\<lambda>(bad, rb, qs). Inr (bad, rb, ps @ qs))))"

lemma decode_all_append:
  "decode_all (ps @ qs) =
     (case decode_all ps of None \<Rightarrow> None | Some a \<Rightarrow> map_option (\<lambda>b. a @ b) (decode_all qs))"
  by (cases "decode_all qs"; induction ps rule: decode_all.induct) (auto split: option.splits)

lemma readBatches_frames:
  assumes "rb_inv rb" and "length (rb_bytes rb) + length (concat (concat batches)) \<le> 2 ^ 62"
    and "frames (rb_bytes rb @ concat (concat batches)) = (ps, False, rest)"
    and "frames (rb_bytes rb) = ([], False, rb_bytes rb)"
    and "decode_all ps = Some qs"
  shows "\<exists>rb'. readBatches rb batches = Inr (False, rb', qs) \<and> rb_inv rb' \<and> rb_bytes rb' = rest"
  using assms
proof (induction batches arbitrary: rb ps qs)
  case Nil
  then show ?case by simp
next
  case (Cons chunks batches)
  obtain rb1 where rb1: "append_all rb_append rb chunks = Inr rb1" "rb_inv rb1"
      "rb_bytes rb1 = rb_bytes rb @ concat chunks"
    using rbuf.append_all_ok [OF Cons.prems(1), of chunks] Cons.prems(2) by auto
  obtain ps1 bad1 r1 where fr1: "frames (rb_bytes rb1) = (ps1, bad1, r1)" by (cases "frames (rb_bytes rb1)")
  let ?more = "concat (concat batches)"
  have all: "frames (rb_bytes rb1 @ ?more) = (ps, False, rest)"
    using Cons.prems(3) rb1(3) by simp
  have "\<not> bad1"
    using frames_bad [of "rb_bytes rb1" ps1 r1 ?more] fr1 all by auto
  then have fr1: "frames (rb_bytes rb1) = (ps1, False, r1)" using fr1 by simp
  then obtain ps2 where ps: "ps = ps1 @ ps2" and fr2: "frames (r1 @ ?more) = (ps2, False, rest)"
    using frames_append [OF fr1, of ?more] all by (auto split: prod.splits)
  obtain qs1 qs2 where q: "decode_all ps1 = Some qs1" "decode_all ps2 = Some qs2" "qs = qs1 @ qs2"
    using Cons.prems(5) by (auto simp: ps decode_all_append split: option.splits)
  obtain rb2 where rb2: "splitPackets rb1 = Inr (False, rb2, qs1)" "rb_inv rb2" "rb_bytes rb2 = r1"
    using splitPackets_frames [OF rb1(2) fr1] q(1) by auto
  have "length r1 \<le> length (rb_bytes rb1)" and idle: "frames r1 = ([], False, r1)"
    using frames_rest [OF fr1] by auto
  then have "length (rb_bytes rb2) + length ?more \<le> 2 ^ 62"
    using Cons.prems(2) rb1(3) rb2(3) by simp
  then obtain rb' where "readBatches rb2 batches = Inr (False, rb', qs2)" "rb_inv rb'" "rb_bytes rb' = rest"
    using Cons.IH [OF rb2(2), of ps2 qs2] fr2 idle q(2) rb2(3) by auto
  then show ?case using rb1(1) rb2(1) q(3) by auto
qed

section \<open>Properties\<close>

text \<open>
  (C2) The loop that cuts packets off the receive buffer does exactly the cut that the wire format
  prescribes: it ends, never reads outside the buffer, delivers the decoded complete packets in
  order, reports a malformed length field, and leaves precisely the uncut bytes in the buffer. The
  one thing it may fail in is the decoding of a body.
\<close>

theorem split_packets_refines:
  assumes "rb_inv rb" and "frames (rb_bytes rb) = (ps, bad, rest)"
  shows "case decode_all ps of
      None \<Rightarrow> splitPackets rb = Inl Diverges
    | Some qs \<Rightarrow> (\<exists>rb'. splitPackets rb = Inr (bad, rb', qs) \<and> rb_inv rb' \<and> rb_bytes rb' = rest)"
  using assms by (rule splitPackets_frames)

definition rb_of :: "byte list \<Rightarrow> recv_buffer" where
  "rb_of bs = \<lparr>rb_buf = bs, rb_read = 0, rb_size = of_nat (length bs)\<rparr>"

lemma rb_of_ok:
  assumes "length bs = 2 ^ k" and "k \<le> 62"
  shows "rb_inv (rb_of bs) \<and> rb_bytes (rb_of bs) = bs"
proof -
  have "(2 :: nat) ^ k \<le> 2 ^ 62" using assms(2) by (rule power_increasing) simp
  then have "unat (of_nat (length bs) :: size_t) = length bs" using assms(1) by (intro unat_of_nat_64) simp
  moreover have "ring_read bs 0 (length bs) = bs"
    by (rule nth_equalityI) (auto simp: ring_read_def)
  ultimately show ?thesis
    using assms by (auto simp: rb_of_def rb_inv_def rb_bytes_def)
qed

theorem split_packets_refines_witness:
  "\<exists>rb'. splitPackets (rb_of (packet 2 '''' @ ''AB'')) = Inr (False, rb', [(2, '''')]) \<and> rb_bytes rb' = ''AB''"
proof -
  have "rb_inv (rb_of (packet 2 '''' @ ''AB''))" "rb_bytes (rb_of (packet 2 '''' @ ''AB'')) = packet 2 '''' @ ''AB''"
    using rb_of_ok [of "packet 2 '''' @ ''AB''" 3] by simp_all
  moreover have "frames (packet 2 '''' @ ''AB'') = ([(2, '''')], False, ''AB'')"
    using frames_packet [of "''''" 2 "''AB''"] by (simp add: frames.simps [of "''AB''"])
  moreover have "decode_all [(2, '''')] = Some [(2, '''')]"
    by (simp add: decodeProtoToJson_def)
  ultimately show ?thesis
    using split_packets_refines [of "rb_of (packet 2 '''' @ ''AB'')"] by fastforce
qed

text \<open>
  The network may cut the stream anywhere: if a client sends packets \<open>ps\<close> (each within the
  size limit) and the beginning \<open>rest\<close> of another one, then however the bytes arrive, in whatever
  chunks and whatever calls of the read handler, the packets delivered are exactly the decoded
  \<open>ps\<close> in order, and \<open>rest\<close> waits in the buffer.
\<close>

theorem stream_cut_anywhere:
  assumes "rb_inv rb" and "rb_bytes rb = []"
    and "concat (concat batches) = concat (map (\<lambda>(t, b). packet t b) ps) @ rest"
    and "length (concat (concat batches)) \<le> 2 ^ 62"
    and "\<forall>(t, b) \<in> set ps. length b \<le> 1024 * 1024 - 6"
    and "frames rest = ([], False, rest)"
    and "decode_all ps = Some qs"
  shows "\<exists>rb'. readBatches rb batches = Inr (False, rb', qs) \<and> rb_bytes rb' = rest"
proof -
  have "frames (rb_bytes rb) = ([], False, rb_bytes rb)"
    unfolding assms(2) by (subst frames.simps) simp
  moreover have "frames (rb_bytes rb @ concat (concat batches)) = (ps, False, rest)"
    unfolding assms(2,3) using frames_packets [OF assms(5)] assms(6) by simp
  ultimately show ?thesis
    using readBatches_frames [OF assms(1), of batches ps rest qs] assms(2,4,7) by auto
qed

theorem stream_cut_anywhere_witness:
  "\<exists>rb rb'. PoolRecvBuffer 4096 = Inr rb
    \<and> readBatches rb [[take 3 (packet 2 '''')], [drop 3 (packet 2 ''''), take 5 (packet 2 '''')],
         [drop 5 (packet 2 '''') @ ''A'']] = Inr (False, rb', [(2, ''''), (2, '''')])
    \<and> rb_bytes rb' = ''A''"
proof -
  let ?b = "[[take 3 (packet 2 '''')], [drop 3 (packet 2 ''''), take 5 (packet 2 '''')],
         [drop 5 (packet 2 '''') @ ''A'']]"
  obtain rb where rb: "PoolRecvBuffer 4096 = Inr rb" "rb_inv rb" "rb_bytes rb = []"
    using PoolRecvBuffer_ok [of 4096] by auto
  have "\<exists>rb'. readBatches rb ?b = Inr (False, rb', [(2, ''''), (2, '''')]) \<and> rb_bytes rb' = ''A''"
    by (rule stream_cut_anywhere [OF rb(2,3), of _ "[(2, ''''), (2, '''')]"])
      (simp_all add: frames.simps [of "''A''"] decodeProtoToJson_def flip: append_assoc)
  with rb(1) show ?thesis by blast
qed

end
