(* ===== verification/Connection.thy ===== *)
theory Connection
  imports SendBuffer Frame
begin

text \<open>
  One connection: the struct \<open>ClientContext\<close> (\<open>EpollChatServer.h\<close>) and the parts of \<open>sendPacket\<close> and
  \<open>handleWrite\<close> (\<open>EpollChatServer.cpp\<close>) that work on it. Producers append packets to the pending
  buffer, the I/O thread swaps the buffers and sends. Each section that the code runs under
  \<open>sendMutex\<close> is one definition, so the handlers are their composition and the step relation
  \<open>conn_step\<close> is their interleaving between threads.
\<close>

section \<open>State\<close>

record client_ctx =
  c_fd :: int
  c_reactorEpollFd :: int
  c_ip :: string
  c_buffer :: recv_buffer
  c_accountID :: string
  c_pendingSendBuffer :: send_buffer
  c_activeSendBuffer :: send_buffer
  c_writeArmed :: bool
  c_pendingBytes :: size_t

text \<open>A new context; its buffers have their default capacities.\<close>

definition ClientContext :: "allocator \<Rightarrow> int \<Rightarrow> string \<Rightarrow> fault + client_ctx" where
  "ClientContext alloc fd ip =
     bindE (PoolRecvBuffer 4096) (\<lambda>rb.
     Inr \<lparr>c_fd = fd, c_reactorEpollFd = - 1, c_ip = ip, c_buffer = rb, c_accountID = '''',
       c_pendingSendBuffer = PoolSendBuffer alloc 4096, c_activeSendBuffer = PoolSendBuffer alloc 4096,
       c_writeArmed = False, c_pendingBytes = 0\<rparr>)"

definition MAX_PENDING_SEND_BUFFER :: size_t where
  "MAX_PENDING_SEND_BUFFER = 16 * 1024 * 1024"

definition WRITE_FLUSH_BUDGET_BYTES :: size_t where
  "WRITE_FLUSH_BUDGET_BYTES = 64 * 1024"

section \<open>The sections under the send mutex\<close>

text \<open>
  \<open>sendPacket\<close>: append the packet to the pending buffer, or report that the backlog is too
  large. The results are the context, \<open>needEnableWrite\<close> and \<open>fatalError\<close>.
\<close>

definition sp_enqueue :: "allocator \<Rightarrow> u16 \<Rightarrow> string \<Rightarrow> client_ctx \<Rightarrow> fault + client_ctx \<times> bool \<times> bool" where
  "sp_enqueue alloc type data ctx =
     (let body = encodeJsonToProto type data;
          totalLength = 6 + ucast (str_size body) :: u32;
          pendingNow = c_pendingBytes ctx
      in
      if pendingNow + ucast totalLength > MAX_PENDING_SEND_BUFFER then Inr (ctx, False, True)
      else
        bindE (sb_append alloc (c_pendingSendBuffer ctx) (store32 (htonl totalLength))) (\<lambda>sb.
        bindE (sb_append alloc sb (store16 (htons type))) (\<lambda>sb.
        bindE (if body \<noteq> '''' then sb_append alloc sb body else Inr sb) (\<lambda>sb.
        Inr (ctx\<lparr>c_pendingSendBuffer := sb, c_pendingBytes := c_pendingBytes ctx + ucast totalLength,
               c_writeArmed := True\<rparr>, \<not> c_writeArmed ctx, False)))))"

text \<open>\<open>handleWrite\<close>, first section: swap the buffers if necessary and choose how much to send.\<close>

definition hw_pick :: "size_t \<Rightarrow> client_ctx \<Rightarrow> client_ctx \<times> size_t option" where
  "hw_pick flushed ctx =
     (let ctx = (if sb_remaining (c_activeSendBuffer ctx) = 0 \<and> sb_remaining (c_pendingSendBuffer ctx) > 0
          then (case sb_swap (c_activeSendBuffer ctx, c_pendingSendBuffer ctx) of
                  (active, pending) \<Rightarrow> ctx\<lparr>c_activeSendBuffer := active, c_pendingSendBuffer := pending\<rparr>)
          else ctx)
      in
      if sb_remaining (c_activeSendBuffer ctx) = 0 then (ctx, None)
      else
        let len = sb_remaining (c_activeSendBuffer ctx);
            canSend = min len (WRITE_FLUSH_BUDGET_BYTES - flushed)
        in if canSend = 0 then (ctx, None) else (ctx, Some canSend))"

text \<open>\<open>handleWrite\<close>, second section: take off the bytes that the kernel accepted.\<close>

definition hw_sent :: "size_t \<Rightarrow> client_ctx \<Rightarrow> client_ctx" where
  "hw_sent sent ctx =
     ctx\<lparr>c_activeSendBuffer := sb_consume (c_activeSendBuffer ctx) sent,
         c_pendingBytes := (if c_pendingBytes ctx \<ge> sent then c_pendingBytes ctx - sent else 0)\<rparr>"

text \<open>\<open>handleWrite\<close>, last section: decide whether to stop watching for writability.\<close>

definition hw_drained :: "client_ctx \<Rightarrow> bool" where
  "hw_drained ctx \<longleftrightarrow> sb_remaining (c_activeSendBuffer ctx) = 0 \<and> sb_remaining (c_pendingSendBuffer ctx) = 0"

definition hw_finish :: "client_ctx \<Rightarrow> client_ctx \<times> bool" where
  "hw_finish ctx =
     (if hw_drained ctx then
        let ctx = ctx\<lparr>c_writeArmed := False\<rparr> in
        if hw_drained ctx then (ctx, True) else (ctx\<lparr>c_writeArmed := True\<rparr>, False)
      else (ctx, False))"

section \<open>The flush loop\<close>

text \<open>
  The answers of the kernel to the calls of \<open>send\<close>: room for a number of bytes, of which as many
  as were offered are accepted, not writable now, or another error. A list of answers that is used
  up stands for a kernel that is not writable any more. The last argument collects the bytes
  handed to the kernel.
\<close>

datatype send_answer = Room size_t | WouldBlock | SendFailed

datatype flush_result = Blocked | FatalError | LoopDone

fun hw_loop :: "send_answer list \<Rightarrow> size_t \<Rightarrow> client_ctx \<Rightarrow> byte list
    \<Rightarrow> fault + flush_result \<times> client_ctx \<times> byte list" where
  "hw_loop answers flushed ctx out =
     (if flushed < WRITE_FLUSH_BUDGET_BYTES then
        (case hw_pick flushed ctx of
          (ctx, None) \<Rightarrow> Inr (LoopDone, ctx, out)
        | (ctx, Some canSend) \<Rightarrow>
            bindE (sb_currentData (c_activeSendBuffer ctx) canSend) (\<lambda>bytes.
            (case answers of
              [] \<Rightarrow> Inr (Blocked, ctx, out)
            | Room n # rest \<Rightarrow>
                let sent = min n canSend in
                if sent > 0 then hw_loop rest (flushed + sent) (hw_sent sent ctx) (out @ take (unat sent) bytes)
                else Inr (FatalError, ctx, out)
            | WouldBlock # rest \<Rightarrow> Inr (Blocked, ctx, out)
            | SendFailed # rest \<Rightarrow> Inr (FatalError, ctx, out))))
      else Inr (LoopDone, ctx, out))"

declare hw_loop.simps [simp del]

section \<open>Well-formed contexts\<close>

definition unsent :: "client_ctx \<Rightarrow> byte list" where
  "unsent ctx = sb_bytes (c_activeSendBuffer ctx) @ sb_bytes (c_pendingSendBuffer ctx)"

text \<open>
  The counter of the backlog is exact and within the limit, and a context with unsent bytes is
  marked as armed.
\<close>

definition ctx_inv :: "client_ctx \<Rightarrow> bool" where
  "ctx_inv ctx \<longleftrightarrow> sb_inv (c_activeSendBuffer ctx) \<and> sb_inv (c_pendingSendBuffer ctx)
     \<and> unat (c_pendingBytes ctx) = length (unsent ctx)
     \<and> c_pendingBytes ctx \<le> MAX_PENDING_SEND_BUFFER
     \<and> (unsent ctx \<noteq> [] \<longrightarrow> c_writeArmed ctx)"

lemma remaining_zero: "sb_inv sb \<Longrightarrow> sb_remaining sb = 0 \<longleftrightarrow> sb_bytes sb = []"
  using sb_remaining_ok [of sb] by (metis length_0_conv unat_0 unat_eq_zero)

lemma unat_limits [simp]:
  "unat MAX_PENDING_SEND_BUFFER = 16777216" "unat WRITE_FLUSH_BUDGET_BYTES = 65536"
  by (simp_all add: MAX_PENDING_SEND_BUFFER_def WRITE_FLUSH_BUDGET_BYTES_def)

lemma ctx_invD:
  assumes "ctx_inv ctx"
  shows "sb_inv (c_activeSendBuffer ctx)" "sb_inv (c_pendingSendBuffer ctx)"
    "unat (c_pendingBytes ctx) = length (unsent ctx)" "length (unsent ctx) \<le> 16777216"
    "unsent ctx \<noteq> [] \<Longrightarrow> c_writeArmed ctx"
  using assms by (auto simp: ctx_inv_def word_le_nat_alt)

lemma ClientContext_ok:
  "\<exists>ctx. ClientContext (block_of junk) fd ip = Inr ctx \<and> ctx_inv ctx \<and> unsent ctx = []
     \<and> rb_inv (c_buffer ctx) \<and> rb_bytes (c_buffer ctx) = [] \<and> c_fd ctx = fd
     \<and> c_accountID ctx = '''' \<and> c_reactorEpollFd ctx = - 1 \<and> \<not> c_writeArmed ctx"
proof -
  obtain rb where "PoolRecvBuffer 4096 = Inr rb" "rb_inv rb" "rb_bytes rb = []"
    using PoolRecvBuffer_ok [of 4096] by auto
  then show ?thesis
    using PoolSendBuffer_ok [of 4096 junk] by (simp add: ClientContext_def ctx_inv_def unsent_def)
qed

section \<open>What the sections do\<close>

lemma sp_enqueue_appends:
  "bindE (sb_append alloc sb (store32 a)) (\<lambda>sb. bindE (sb_append alloc sb (store16 b)) (\<lambda>sb.
     bindE (if body \<noteq> '''' then sb_append alloc sb body else Inr sb) f)) =
   bindE (append_all (sb_append alloc) sb [store32 a, store16 b, body]) f"
proof -
  have "(if body \<noteq> '''' then sb_append alloc sb body else Inr sb) = sb_append alloc sb body" for sb
    by (simp add: sb_append_def)
  then show ?thesis by (simp add: bindE_def split: sum.splits)
qed

lemma total_length:
  assumes "length body + 6 < 2 ^ 32"
  shows "unat (ucast (6 + ucast (str_size body) :: u32) :: size_t) = 6 + length body"
proof -
  have "unat (ucast (str_size body) :: u32) = length body"
    using assms by (simp add: unsigned_ucast_eq take_bit_nat_eq_self)
  then have "unat (6 + ucast (str_size body) :: u32) = 6 + length body"
    using assms by (subst unat_plus_if') auto
  then show ?thesis by simp
qed

lemma sp_enqueue_ok:
  assumes inv: "ctx_inv ctx" and len: "length (encodeJsonToProto t data) + 6 < 2 ^ 32"
    and body: "body = encodeJsonToProto t data"
    and room: "length (unsent ctx) + 6 + length body \<le> 16777216"
  shows "\<exists>sb n. sp_enqueue (block_of junk) t data ctx =
      Inr (ctx\<lparr>c_pendingSendBuffer := sb, c_pendingBytes := n, c_writeArmed := True\<rparr>, \<not> c_writeArmed ctx, False)
    \<and> ctx_inv (ctx\<lparr>c_pendingSendBuffer := sb, c_pendingBytes := n, c_writeArmed := True\<rparr>)
    \<and> sb_bytes sb = sb_bytes (c_pendingSendBuffer ctx) @ packet t body"
proof -
  note d = ctx_invD [OF inv]
  let ?tl = "6 + ucast (str_size body) :: u32"
  have tl: "unat (ucast ?tl :: size_t) = 6 + length body"
    using total_length [of body] len body by simp
  have sum: "unat (c_pendingBytes ctx + ucast ?tl) = length (unsent ctx) + 6 + length body"
    using room tl d(3) by (subst unat_add_64) auto
  have le: "length (sb_bytes (c_pendingSendBuffer ctx)) \<le> length (unsent ctx)"
    by (simp add: unsent_def)
  have "length (sb_bytes (c_pendingSendBuffer ctx))
      + length (concat [store32 (htonl ?tl), store16 (htons t), body]) \<le> 2 ^ 62"
    using room le by simp
  from sbuf.append_all_ok [OF d(2) this, of junk]
  obtain sb where sb: "append_all (sb_append (block_of junk)) (c_pendingSendBuffer ctx)
      [store32 (htonl ?tl), store16 (htons t), body] = Inr sb" "sb_inv sb"
      "sb_bytes sb = sb_bytes (c_pendingSendBuffer ctx) @ concat [store32 (htonl ?tl), store16 (htons t), body]"
    by blast
  have sb_bytes: "sb_bytes sb = sb_bytes (c_pendingSendBuffer ctx) @ packet t body"
    using sb(3) by (simp add: packet_def packet_header_def Let_def)
  have "\<not> c_pendingBytes ctx + ucast ?tl > MAX_PENDING_SEND_BUFFER"
    using sum room by (simp add: word_less_nat_alt)
  then have "sp_enqueue (block_of junk) t data ctx = Inr (ctx\<lparr>c_pendingSendBuffer := sb,
      c_pendingBytes := c_pendingBytes ctx + ucast ?tl, c_writeArmed := True\<rparr>, \<not> c_writeArmed ctx, False)"
    unfolding sp_enqueue_def Let_def sp_enqueue_appends body [symmetric] sb(1) by simp
  moreover have "ctx_inv (ctx\<lparr>c_pendingSendBuffer := sb,
      c_pendingBytes := c_pendingBytes ctx + ucast ?tl, c_writeArmed := True\<rparr>)"
    using sb(2) sb_bytes d(1) sum room by (simp add: ctx_inv_def unsent_def word_le_nat_alt)
  ultimately show ?thesis using sb_bytes by blast
qed

lemma sp_enqueue_backlog:
  assumes inv: "ctx_inv ctx" and len: "length (encodeJsonToProto t data) + 6 < 2 ^ 32"
    and full: "length (unsent ctx) + 6 + length (encodeJsonToProto t data) > 16777216"
  shows "sp_enqueue alloc t data ctx = Inr (ctx, False, True)"
proof -
  let ?tl = "6 + ucast (str_size (encodeJsonToProto t data)) :: u32"
  note d = ctx_invD [OF inv]
  have "unat (c_pendingBytes ctx + ucast ?tl) = length (unsent ctx) + (6 + length (encodeJsonToProto t data))"
    using total_length [OF len] d(3,4) len by (subst unat_add_64) auto
  then have "c_pendingBytes ctx + ucast ?tl > MAX_PENDING_SEND_BUFFER"
    using full by (simp add: word_less_nat_alt)
  then show ?thesis by (simp add: sp_enqueue_def Let_def)
qed

lemma hw_pick_full:
  assumes inv: "ctx_inv ctx" and fl: "flushed < WRITE_FLUSH_BUDGET_BYTES" and pick: "hw_pick flushed ctx = (ctx', r)"
  shows "ctx_inv ctx'" "unsent ctx' = unsent ctx" "c_writeArmed ctx' = c_writeArmed ctx"
    "c_pendingBytes ctx' = c_pendingBytes ctx"
    "r = None \<longleftrightarrow> unsent ctx = []"
    "\<And>n. r = Some n \<Longrightarrow> 0 < n \<and> unat n \<le> length (sb_bytes (c_activeSendBuffer ctx'))
       \<and> unat flushed + unat n \<le> 65536"
    "\<And>n. r = Some n \<Longrightarrow> unat n = min (length (sb_bytes (c_activeSendBuffer ctx'))) (65536 - unat flushed)"
    "sb_bytes (c_activeSendBuffer ctx) = [] \<Longrightarrow> sb_bytes (c_activeSendBuffer ctx') = unsent ctx"
proof -
  note d = ctx_invD [OF inv]
  let ?a = "c_activeSendBuffer ctx" and ?p = "c_pendingSendBuffer ctx"
  define ctx1 where "ctx1 = (if sb_bytes ?a = [] \<and> sb_bytes ?p \<noteq> []
      then ctx\<lparr>c_activeSendBuffer := ?p, c_pendingSendBuffer := ?a\<rparr> else ctx)"
  have gt: "sb_remaining sb > 0 \<longleftrightarrow> sb_bytes sb \<noteq> []" if "sb_inv sb" for sb
    using remaining_zero [OF that] by (simp add: word_gt_0)
  have one: "ctx_inv ctx1" "unsent ctx1 = unsent ctx" "c_writeArmed ctx1 = c_writeArmed ctx"
      "c_pendingBytes ctx1 = c_pendingBytes ctx" "sb_bytes (c_activeSendBuffer ctx1) = [] \<longleftrightarrow> unsent ctx = []"
    using inv by (auto simp: ctx1_def ctx_inv_def unsent_def)
  note d1 = ctx_invD(1) [OF one(1)]
  let ?len = "sb_remaining (c_activeSendBuffer ctx1)"
  let ?n = "min ?len (WRITE_FLUSH_BUDGET_BYTES - flushed)"
  have budget: "unat (WRITE_FLUSH_BUDGET_BYTES - flushed) = 65536 - unat flushed" "0 < 65536 - unat flushed"
    using fl by (simp_all add: unat_sub_64 word_less_nat_alt)
  have un: "unat ?n = min (length (sb_bytes (c_activeSendBuffer ctx1))) (65536 - unat flushed)"
    using budget sb_remaining_ok [OF d1] by (simp add: min_def word_le_nat_alt)
  have nz: "?n = 0 \<longleftrightarrow> unsent ctx = []"
    using un budget(2) one(5) by (metis length_0_conv min_0L min_0R min_def not_less0 unat_eq_zero)
  have res: "(ctx', r) = (ctx1, if unsent ctx = [] then None else Some ?n)"
    using pick nz remaining_zero [OF d1] one(5)
    unfolding hw_pick_def remaining_zero [OF d(1)] gt [OF d(2)] sb_swap_def Let_def
    by (auto simp: ctx1_def split: if_splits)
  then show "ctx_inv ctx'" "unsent ctx' = unsent ctx" "c_writeArmed ctx' = c_writeArmed ctx"
      "c_pendingBytes ctx' = c_pendingBytes ctx" "r = None \<longleftrightarrow> unsent ctx = []"
    using one by (auto split: if_splits)
  show "sb_bytes (c_activeSendBuffer ctx) = [] \<Longrightarrow> sb_bytes (c_activeSendBuffer ctx') = unsent ctx"
    using res by (auto simp: ctx1_def unsent_def split: if_splits)
  fix n assume "r = Some n"
  then have "n = ?n" "?n \<noteq> 0" "ctx' = ctx1" using res nz by (auto split: if_splits)
  then show "0 < n \<and> unat n \<le> length (sb_bytes (c_activeSendBuffer ctx')) \<and> unat flushed + unat n \<le> 65536"
    using un budget by (auto simp: word_gt_0)
  show "unat n = min (length (sb_bytes (c_activeSendBuffer ctx'))) (65536 - unat flushed)"
    using un \<open>n = ?n\<close> \<open>ctx' = ctx1\<close> by simp
qed

lemmas hw_pick_ok = hw_pick_full(1-6)

lemma hw_sent_ok:
  assumes inv: "ctx_inv ctx" and le: "unat n \<le> length (sb_bytes (c_activeSendBuffer ctx))"
  shows "ctx_inv (hw_sent n ctx)" "unsent (hw_sent n ctx) = drop (unat n) (unsent ctx)"
    "c_writeArmed (hw_sent n ctx) = c_writeArmed ctx"
proof -
  note d = ctx_invD [OF inv]
  have c: "sb_inv (sb_consume (c_activeSendBuffer ctx) n)"
      "sb_bytes (sb_consume (c_activeSendBuffer ctx) n) = drop (unat n) (sb_bytes (c_activeSendBuffer ctx))"
    using sbuf.consume_ok [OF d(1) le] by simp_all
  then show u: "unsent (hw_sent n ctx) = drop (unat n) (unsent ctx)"
    using le by (simp add: unsent_def hw_sent_def)
  have "unat n \<le> unat (c_pendingBytes ctx)" using le d(3) by (simp add: unsent_def)
  then have "n \<le> c_pendingBytes ctx" "unat (c_pendingBytes ctx - n) = length (unsent ctx) - unat n"
    using d(3) by (simp_all add: word_le_nat_alt unat_sub_64)
  moreover have "unsent (hw_sent n ctx) \<noteq> [] \<longrightarrow> unsent ctx \<noteq> []" unfolding u by auto
  ultimately show "ctx_inv (hw_sent n ctx)"
    using c(1) d(2,4,5) u unfolding ctx_inv_def by (auto simp: hw_sent_def word_le_nat_alt)
  show "c_writeArmed (hw_sent n ctx) = c_writeArmed ctx" by (simp add: hw_sent_def)
qed

lemma hw_finish_ok:
  assumes "ctx_inv ctx"
  shows "hw_finish ctx = (if unsent ctx = [] then (ctx\<lparr>c_writeArmed := False\<rparr>, True) else (ctx, False))"
    and "ctx_inv (fst (hw_finish ctx))" and "unsent (fst (hw_finish ctx)) = unsent ctx"
proof -
  have "hw_drained ctx \<longleftrightarrow> unsent ctx = []"
    using assms by (simp add: hw_drained_def unsent_def remaining_zero ctx_inv_def)
  then show eq: "hw_finish ctx = (if unsent ctx = [] then (ctx\<lparr>c_writeArmed := False\<rparr>, True) else (ctx, False))"
    by (auto simp: hw_finish_def Let_def hw_drained_def)
  show "ctx_inv (fst (hw_finish ctx))" "unsent (fst (hw_finish ctx)) = unsent ctx"
    unfolding eq using assms by (auto simp: ctx_inv_def unsent_def)
qed

text \<open>One round of the flush loop: it stops, or hands the first \<open>k\<close> unsent bytes to the kernel.\<close>

lemma hw_loop_round:
  assumes inv: "ctx_inv ctx" and le: "unat flushed \<le> 65536"
  obtains (stop) r ctx' where "hw_loop answers flushed ctx out = Inr (r, ctx', out)" "ctx_inv ctx'"
      "unsent ctx' = unsent ctx" "r = LoopDone \<longrightarrow> unsent ctx' = [] \<or> unat flushed = 65536"
  | (go) a rest k ctx' where "answers = a # rest"
      "hw_loop answers flushed ctx out =
         hw_loop rest (flushed + k) (hw_sent k ctx') (out @ take (unat k) (unsent ctx'))"
      "ctx_inv ctx'" "unsent ctx' = unsent ctx" "unat k \<le> length (sb_bytes (c_activeSendBuffer ctx'))"
      "unat flushed + unat k \<le> 65536"
proof (cases "flushed < WRITE_FLUSH_BUDGET_BYTES")
  case True
  obtain ctx' r where p: "hw_pick flushed ctx = (ctx', r)" by (cases "hw_pick flushed ctx")
  note ok = hw_pick_ok [OF inv True p]
  show thesis
  proof (cases r)
    case None
    then have "hw_loop answers flushed ctx out = Inr (LoopDone, ctx', out)"
      using True p by (simp add: hw_loop.simps)
    then show thesis using ok None stop by metis
  next
    case (Some n)
    note n = ok(6) [OF Some]
    have data: "sb_currentData (c_activeSendBuffer ctx') n = Inr (take (unat n) (sb_bytes (c_activeSendBuffer ctx')))"
      using ok(1) n by (intro sb_currentData_ok) (auto dest: ctx_invD)
    show thesis
    proof (cases "\<exists>m rest. answers = Room m # rest \<and> min m n > 0")
      case True2: True
      then obtain m rest where m: "answers = Room m # rest" "min m n > 0" by blast
      have k: "unat (min m n) \<le> unat n" by (simp add: word_le_nat_alt [symmetric])
      then have "take (unat (min m n)) (take (unat n) (sb_bytes (c_activeSendBuffer ctx'))) =
          take (unat (min m n)) (unsent ctx')"
        using n by (simp add: unsent_def min_absorb1)
      then have "hw_loop answers flushed ctx out =
          hw_loop rest (flushed + min m n) (hw_sent (min m n) ctx') (out @ take (unat (min m n)) (unsent ctx'))"
        using True p Some data m by (subst hw_loop.simps) (simp add: Let_def)
      then show thesis using go [OF m(1)] ok n k by fastforce
    next
      case False
      then have "\<exists>r. r \<noteq> LoopDone \<and> hw_loop answers flushed ctx out = Inr (r, ctx', out)"
        using True p Some data
        by (subst hw_loop.simps) (auto simp: Let_def split: send_answer.splits list.splits)
      then show thesis using ok stop by metis
    qed
  qed
next
  case False
  then have "hw_loop answers flushed ctx out = Inr (LoopDone, ctx, out)" by (simp add: hw_loop.simps)
  moreover have "unat flushed = 65536" using False le by (simp add: word_less_nat_alt)
  ultimately show thesis using inv stop by blast
qed

lemma hw_loop_ok:
  assumes "ctx_inv ctx" and "unat flushed \<le> 65536"
  shows "\<exists>r ctx' sent. hw_loop answers flushed ctx out = Inr (r, ctx', out @ sent) \<and> ctx_inv ctx'
    \<and> unsent ctx = sent @ unsent ctx' \<and> unat flushed + length sent \<le> 65536
    \<and> (r = LoopDone \<longrightarrow> unsent ctx' = [] \<or> unat flushed + length sent = 65536)"
  using assms
proof (induction answers arbitrary: flushed ctx out)
  case (Nil flushed ctx out)
  show ?case
    by (rule hw_loop_round [OF Nil, of "[]" out]) (use Nil in fastforce)+
next
  case (Cons a answers flushed ctx out)
  show ?case
  proof (rule hw_loop_round [OF Cons.prems, of "a # answers" out], goal_cases stop go)
    case (stop r ctx')
    then show ?thesis using Cons.prems by fastforce
  next
    case (go a' rest k ctx')
    note st = hw_sent_ok [OF go(3,5)]
    have fl: "unat (flushed + k) = unat flushed + unat k" using go(6) by (subst unat_add_64) auto
    let ?out = "out @ take (unat k) (unsent ctx')"
    obtain r2 ctx2 sent where IH: "hw_loop rest (flushed + k) (hw_sent k ctx') ?out = Inr (r2, ctx2, ?out @ sent)"
        "ctx_inv ctx2" "unsent (hw_sent k ctx') = sent @ unsent ctx2"
        "unat (flushed + k) + length sent \<le> 65536"
        "r2 = LoopDone \<longrightarrow> unsent ctx2 = [] \<or> unat (flushed + k) + length sent = 65536"
      using Cons.IH [OF st(1), of "flushed + k" ?out] go(1,6) fl by auto
    have "unat k \<le> length (unsent ctx')" using go(5) by (simp add: unsent_def)
    moreover have "unsent ctx = (take (unat k) (unsent ctx') @ sent) @ unsent ctx2"
      using go(4) st(2) IH(3) by (metis append_assoc append_take_drop_id)
    ultimately show ?thesis
      using go(2) IH fl by (intro exI [of _ r2] exI [of _ ctx2] exI [of _ "take (unat k) (unsent ctx') @ sent"]) auto
  qed
qed

section \<open>Threads on one connection\<close>

text \<open>
  The I/O thread runs \<open>handleWrite\<close> while worker threads run \<open>sendPacket\<close>. The state of the writer is
  its position between two critical sections or system calls; \<open>enabling\<close> counts the producers
  that have left their critical section with \<open>needEnableWrite\<close> and have not called \<open>epoll_ctl\<close> yet;
  \<open>interest\<close> says whether \<open>EPOLLOUT\<close> is in the interest set and \<open>event\<close> whether the kernel has an
  \<open>EPOLLOUT\<close> event to deliver. \<open>accepted\<close> and \<open>sent\<close> record the packet bytes taken in and the bytes
  handed to the kernel. A packet beyond the limit (\<open>overflow\<close>) and a failed \<open>send\<close> (\<open>failed\<close>) close the
  connection: the descriptor leaves the interest set for good and takes no more bytes, while other
  threads that hold the context may still call \<open>sendPacket\<close> on it. The memory pool gives a block for every
  request here.
\<close>

datatype writer =
    Idle
  | InLoop size_t
  | Sending size_t size_t
  | Consuming size_t size_t
  | Finishing
  | Disabling

record conn =
  k_ctx :: client_ctx
  k_writer :: writer
  k_enabling :: nat
  k_interest :: bool
  k_event :: bool
  k_closed :: bool
  k_accepted :: "byte list"
  k_sent :: "byte list"

inductive conn_step :: "(nat \<Rightarrow> byte) \<Rightarrow> conn \<Rightarrow> conn \<Rightarrow> bool" for junk where
  enqueue: "sp_enqueue (block_of junk) t data (k_ctx s) = Inr (ctx', need, False) \<Longrightarrow>
     length (encodeJsonToProto t data) + 6 < 2 ^ 32 \<Longrightarrow>
     conn_step junk s (s\<lparr>k_ctx := ctx', k_accepted := k_accepted s @ packet t (encodeJsonToProto t data),
       k_enabling := k_enabling s + (if need then 1 else 0)\<rparr>)"
| overflow: "sp_enqueue (block_of junk) t data (k_ctx s) = Inr (ctx', need, True) \<Longrightarrow>
     conn_step junk s (s\<lparr>k_ctx := ctx', k_closed := True, k_interest := False, k_event := False\<rparr>)"
| enable: "k_enabling s = Suc n \<Longrightarrow>
     conn_step junk s (s\<lparr>k_enabling := n, k_interest := \<not> k_closed s, k_event := e\<rparr>)"
| writable: "k_interest s \<Longrightarrow> conn_step junk s (s\<lparr>k_event := True\<rparr>)"
| start: "k_writer s = Idle \<Longrightarrow> k_event s \<Longrightarrow> k_interest s \<Longrightarrow>
     conn_step junk s (s\<lparr>k_writer := InLoop 0, k_event := False\<rparr>)"
| pick: "k_writer s = InLoop fl \<Longrightarrow> fl < WRITE_FLUSH_BUDGET_BYTES \<Longrightarrow>
     hw_pick fl (k_ctx s) = (ctx', Some n) \<Longrightarrow>
     conn_step junk s (s\<lparr>k_ctx := ctx', k_writer := Sending n fl\<rparr>)"
| none_left: "k_writer s = InLoop fl \<Longrightarrow> fl < WRITE_FLUSH_BUDGET_BYTES \<Longrightarrow>
     hw_pick fl (k_ctx s) = (ctx', None) \<Longrightarrow>
     conn_step junk s (s\<lparr>k_ctx := ctx', k_writer := Finishing\<rparr>)"
| budget: "k_writer s = InLoop fl \<Longrightarrow> \<not> fl < WRITE_FLUSH_BUDGET_BYTES \<Longrightarrow>
     conn_step junk s (s\<lparr>k_writer := Finishing\<rparr>)"
| send: "k_writer s = Sending n fl \<Longrightarrow> \<not> k_closed s \<Longrightarrow>
     sb_currentData (c_activeSendBuffer (k_ctx s)) n = Inr bytes \<Longrightarrow> 0 < m \<Longrightarrow> m \<le> n \<Longrightarrow>
     conn_step junk s (s\<lparr>k_writer := Consuming m fl, k_sent := k_sent s @ take (unat m) bytes\<rparr>)"
| again: "k_writer s = Sending n fl \<Longrightarrow> conn_step junk s (s\<lparr>k_writer := Idle\<rparr>)"
| failed: "k_writer s = Sending n fl \<Longrightarrow>
     conn_step junk s (s\<lparr>k_writer := Idle, k_closed := True, k_interest := False, k_event := False\<rparr>)"
| consume: "k_writer s = Consuming m fl \<Longrightarrow>
     conn_step junk s (s\<lparr>k_ctx := hw_sent m (k_ctx s), k_writer := InLoop (fl + m)\<rparr>)"
| finish: "k_writer s = Finishing \<Longrightarrow> hw_finish (k_ctx s) = (ctx', off) \<Longrightarrow>
     conn_step junk s (s\<lparr>k_ctx := ctx', k_writer := (if off then Disabling else Idle)\<rparr>)"
| disable: "k_writer s = Disabling \<Longrightarrow>
     conn_step junk s (s\<lparr>k_interest := False, k_writer := Idle\<rparr>)"

inductive_cases conn_stepE: "conn_step junk s s'"

text \<open>A connection as \<open>handleAccept\<close> leaves it: nothing to send, only \<open>EPOLLIN\<close> watched.\<close>

definition conn_init :: "client_ctx \<Rightarrow> conn" where
  "conn_init ctx = \<lparr>k_ctx = ctx, k_writer = Idle, k_enabling = 0, k_interest = False, k_event = False, k_closed = False,
     k_accepted = [], k_sent = []\<rparr>"

text \<open>
  The bytes still to be sent, as seen from the kernel: in state \<open>Consuming m\<close> the first \<open>m\<close> bytes of
  the active buffer have been sent already.
\<close>

fun writer_ok :: "writer \<Rightarrow> client_ctx \<Rightarrow> bool" where
  "writer_ok (InLoop fl) ctx \<longleftrightarrow> unat fl \<le> 65536"
| "writer_ok (Sending n fl) ctx \<longleftrightarrow> unat n \<le> length (sb_bytes (c_activeSendBuffer ctx)) \<and> unat fl + unat n \<le> 65536"
| "writer_ok (Consuming n fl) ctx \<longleftrightarrow> unat n \<le> length (sb_bytes (c_activeSendBuffer ctx)) \<and> unat fl + unat n \<le> 65536"
| "writer_ok _ ctx \<longleftrightarrow> True"

fun in_flight :: "writer \<Rightarrow> nat" where
  "in_flight (Consuming m fl) = unat m"
| "in_flight _ = 0"

definition conn_inv :: "conn \<Rightarrow> bool" where
  "conn_inv s \<longleftrightarrow> ctx_inv (k_ctx s) \<and> writer_ok (k_writer s) (k_ctx s)
     \<and> k_sent s @ drop (in_flight (k_writer s)) (unsent (k_ctx s)) = k_accepted s"

lemma conn_init_inv: "ctx_inv ctx \<Longrightarrow> unsent ctx = [] \<Longrightarrow> conn_inv (conn_init ctx)"
  by (simp add: conn_inv_def conn_init_def)

lemma sp_enqueue_cases:
  assumes "ctx_inv ctx" and "length (encodeJsonToProto t data) + 6 < 2 ^ 32"
    and "sp_enqueue (block_of junk) t data ctx = Inr (ctx', need, False)"
  shows "ctx_inv ctx' \<and> unsent ctx' = unsent ctx @ packet t (encodeJsonToProto t data)
    \<and> c_activeSendBuffer ctx' = c_activeSendBuffer ctx \<and> c_writeArmed ctx' \<and> (need \<longleftrightarrow> \<not> c_writeArmed ctx)"
proof (cases "length (unsent ctx) + 6 + length (encodeJsonToProto t data) \<le> 16777216")
  case True
  from sp_enqueue_ok [OF assms(1,2) refl True, of junk] assms(3) show ?thesis
    by (auto simp: unsent_def)
next
  case False
  with sp_enqueue_backlog [OF assms(1,2), of "block_of junk"] assms(3) show ?thesis by simp
qed

lemma sp_enqueue_fatal: "sp_enqueue alloc t data ctx = Inr (ctx', need, True) \<Longrightarrow> ctx' = ctx"
  by (auto simp: sp_enqueue_def Let_def bindE_def split: if_splits sum.splits)

lemma conn_step_inv:
  assumes "conn_step junk s s'" and "conn_inv s"
  shows "conn_inv s'"
  using assms
proof cases
  case (enqueue t data ctx' need)
  have ok: "ctx_inv ctx' \<and> unsent ctx' = unsent (k_ctx s) @ packet t (encodeJsonToProto t data)
    \<and> c_activeSendBuffer ctx' = c_activeSendBuffer (k_ctx s)"
    using sp_enqueue_cases [OF _ enqueue(3,2)] assms(2) by (simp add: conn_inv_def)
  then have "writer_ok w ctx' = writer_ok w (k_ctx s)" for w by (cases w) auto
  moreover have "in_flight (k_writer s) \<le> length (unsent (k_ctx s))"
    using assms(2) by (cases "k_writer s") (auto simp: conn_inv_def unsent_def)
  ultimately show ?thesis
    using assms(2) ok enqueue(1) by (simp add: conn_inv_def)
next
  case (overflow t data ctx' need)
  then show ?thesis using sp_enqueue_fatal [OF overflow(2)] assms(2) by (simp add: conn_inv_def)
next
  case (pick fl ctx' n)
  then show ?thesis
    using hw_pick_ok [OF _ pick(3,4)] assms(2) by (auto simp: conn_inv_def)
next
  case (none_left fl ctx')
  then show ?thesis
    using hw_pick_ok [OF _ none_left(3,4)] assms(2) by (auto simp: conn_inv_def)
next
  case (send n fl bytes m)
  have inv: "ctx_inv (k_ctx s)" and n: "unat n \<le> length (sb_bytes (c_activeSendBuffer (k_ctx s)))"
      "unat fl + unat n \<le> 65536" and acc: "k_sent s @ unsent (k_ctx s) = k_accepted s"
    using assms(2) send(2) by (auto simp: conn_inv_def)
  have m: "unat m \<le> unat n" using send(6) by (simp add: word_le_nat_alt)
  have "bytes = take (unat n) (sb_bytes (c_activeSendBuffer (k_ctx s)))"
    using sb_currentData_ok [OF ctx_invD(1) [OF inv] n(1)] send(4) by simp
  then have "take (unat m) bytes = take (unat m) (unsent (k_ctx s))"
    using m n by (simp add: unsent_def min_absorb1)
  then show ?thesis
    using inv n m acc send(1) by (simp add: conn_inv_def)
next
  case (consume m fl)
  have inv: "ctx_inv (k_ctx s)" and m: "unat m \<le> length (sb_bytes (c_activeSendBuffer (k_ctx s)))"
      "unat fl + unat m \<le> 65536" and acc: "k_sent s @ drop (unat m) (unsent (k_ctx s)) = k_accepted s"
    using assms(2) consume(2) by (auto simp: conn_inv_def)
  have "unat (fl + m) = unat fl + unat m" using m by (subst unat_add_64) auto
  then show ?thesis
    using hw_sent_ok [OF inv m(1)] m acc consume(1) by (simp add: conn_inv_def)
next
  case (finish ctx' off)
  have inv: "ctx_inv (k_ctx s)" using assms(2) by (simp add: conn_inv_def)
  then have "ctx_inv ctx'" "unsent ctx' = unsent (k_ctx s)" using hw_finish_ok(2,3) [OF inv] finish(3) by auto
  then show ?thesis using finish(1,2) assms(2) by (auto simp: conn_inv_def)
qed (auto simp: conn_inv_def)

lemma conn_reach_inv: "(conn_step junk)\<^sup>*\<^sup>* s s' \<Longrightarrow> conn_inv s \<Longrightarrow> conn_inv s'"
  by (induction rule: rtranclp_induct) (auto intro: conn_step_inv)

lemma conn_then: "conn_step junk s t \<Longrightarrow> (conn_step junk)\<^sup>*\<^sup>* t u \<Longrightarrow> (conn_step junk)\<^sup>*\<^sup>* s u"
  by (rule converse_rtranclp_into_rtranclp)

lemma conn_once: "conn_step junk s t \<Longrightarrow> (conn_step junk)\<^sup>*\<^sup>* s t"
  by (rule r_into_rtranclp)

section \<open>A lost wake-up\<close>

text \<open>
  The writer is idle, no producer is about to call \<open>epoll_ctl\<close>, \<open>EPOLLOUT\<close> is not watched, but the
  context is marked as armed: no thread will ever ask for \<open>EPOLLOUT\<close> again.
\<close>

definition stuck :: "conn \<Rightarrow> bool" where
  "stuck s \<longleftrightarrow> k_writer s = Idle \<and> k_enabling s = 0 \<and> \<not> k_interest s \<and> c_writeArmed (k_ctx s)"

lemma stuck_step:
  assumes "conn_step junk s s'" and "conn_inv s" and "stuck s"
  shows "stuck s' \<and> k_sent s' = k_sent s"
  using assms
proof cases
  case (enqueue t data ctx' need)
  then show ?thesis
    using sp_enqueue_cases [OF _ enqueue(3,2)] assms(2,3) by (simp add: conn_inv_def stuck_def)
next
  case (overflow t data ctx' need)
  then show ?thesis using sp_enqueue_fatal [OF overflow(2)] assms(3) by (simp add: stuck_def)
qed (auto simp: stuck_def)

lemma stuck_forever:
  "(conn_step junk)\<^sup>*\<^sup>* s s' \<Longrightarrow> conn_inv s \<Longrightarrow> stuck s \<Longrightarrow> stuck s' \<and> k_sent s' = k_sent s"
proof (induction rule: rtranclp_induct)
  case (step y z)
  then show ?case using stuck_step conn_reach_inv by metis
qed simp

lemma heartbeat_body [simp]: "encodeJsonToProto t '''' = ''''"
  by (simp add: encodeJsonToProto_def Let_def)

lemma enqueue_heartbeat:
  assumes "conn_inv s" and "unsent (k_ctx s) = []"
  obtains ctx' where
    "conn_step junk s (s\<lparr>k_ctx := ctx', k_accepted := k_accepted s @ packet 2 '''',
       k_enabling := k_enabling s + (if c_writeArmed (k_ctx s) then 0 else 1)\<rparr>)"
    "unsent ctx' = packet 2 ''''" "c_activeSendBuffer ctx' = c_activeSendBuffer (k_ctx s)" "c_writeArmed ctx'"
proof -
  have inv: "ctx_inv (k_ctx s)" using assms(1) by (simp add: conn_inv_def)
  obtain sb n where e: "sp_enqueue (block_of junk) 2 '''' (k_ctx s) =
      Inr (k_ctx s\<lparr>c_pendingSendBuffer := sb, c_pendingBytes := n, c_writeArmed := True\<rparr>, \<not> c_writeArmed (k_ctx s), False)"
      "sb_bytes sb = sb_bytes (c_pendingSendBuffer (k_ctx s)) @ packet 2 ''''"
    using sp_enqueue_ok [OF inv, of 2 "''''" "''''" junk] assms(2) by auto
  show thesis
    using conn_step.enqueue [OF e(1)] e(2) assms(2) that
    by (cases "c_writeArmed (k_ctx s)") (auto simp: unsent_def)
qed

text \<open>The I/O thread flushes a heartbeat completely and is about to switch \<open>EPOLLOUT\<close> off.\<close>

lemma reach_disabling:
  assumes "conn_inv s" and "k_writer s = InLoop 0" and "unsent (k_ctx s) = packet 2 ''''"
    and "sb_bytes (c_activeSendBuffer (k_ctx s)) = []" and "\<not> k_closed s"
  obtains s' where "(conn_step junk)\<^sup>*\<^sup>* s s'" "k_writer s' = Disabling" "unsent (k_ctx s') = []"
    "\<not> c_writeArmed (k_ctx s')" "k_enabling s' = k_enabling s" "\<not> k_closed s'"
proof -
  have inv: "ctx_inv (k_ctx s)" using assms(1) by (simp add: conn_inv_def)
  have fl: "(0 :: size_t) < WRITE_FLUSH_BUDGET_BYTES" by (simp add: WRITE_FLUSH_BUDGET_BYTES_def)
  obtain c1 r where p: "hw_pick 0 (k_ctx s) = (c1, r)" by (cases "hw_pick 0 (k_ctx s)")
  note ok = hw_pick_full [OF inv fl p]
  have ne: "packet 2 '''' \<noteq> []" by (simp flip: length_greater_0_conv)
  with ok(5) assms(3) obtain n where r: "r = Some n" by (cases r) auto
  then have n: "r = Some n" "unat n = 6" "0 < n"
    using ok(6,7) [OF r] ok(8) assms(3,4) by auto
  let ?s1 = "s\<lparr>k_ctx := c1, k_writer := Sending n 0\<rparr>"
  have s1: "conn_step junk s ?s1"
    using assms(2) fl p n(1) by (intro conn_step.pick) auto
  have act: "sb_bytes (c_activeSendBuffer c1) = packet 2 ''''" using ok(8) assms(3,4) by simp
  then have data: "sb_currentData (c_activeSendBuffer c1) n = Inr (packet 2 '''')"
    using sb_currentData_ok [OF ctx_invD(1) [OF ok(1)], of n] n(2) by simp
  let ?s2 = "?s1\<lparr>k_writer := Consuming n 0, k_sent := k_sent ?s1 @ take (unat n) (packet 2 '''')\<rparr>"
  have s2: "conn_step junk ?s1 ?s2"
    using data n(3) assms(5) by (intro conn_step.send) auto
  let ?c3 = "hw_sent n c1"
  let ?s3 = "?s2\<lparr>k_ctx := ?c3, k_writer := InLoop (0 + n)\<rparr>"
  have s3: "conn_step junk ?s2 ?s3"
    using conn_step.consume [of ?s2 n 0 junk] by simp
  have c3: "ctx_inv ?c3" "unsent ?c3 = []"
    using hw_sent_ok [OF ok(1), of n] act ok(2) assms(3) n(2) by simp_all
  have fn: "n < WRITE_FLUSH_BUDGET_BYTES" using n(2) by (simp add: word_less_nat_alt)
  obtain c4 r' where p4: "hw_pick n ?c3 = (c4, r')" by (cases "hw_pick n ?c3")
  note ok4 = hw_pick_ok [OF c3(1) fn p4]
  let ?s4 = "?s3\<lparr>k_ctx := c4, k_writer := Finishing\<rparr>"
  have s4: "conn_step junk ?s3 ?s4"
    using p4 ok4(5) c3(2) fn by (intro conn_step.none_left [of _ n]) auto
  let ?s5 = "?s4\<lparr>k_ctx := c4\<lparr>c_writeArmed := False\<rparr>, k_writer := Disabling\<rparr>"
  have u4: "unsent c4 = []" using ok4(2) c3(2) by simp
  have s5: "conn_step junk ?s4 ?s5"
    using conn_step.finish [of ?s4 "c4\<lparr>c_writeArmed := False\<rparr>" True junk] hw_finish_ok(1) [OF ok4(1)] u4 by simp
  have "(conn_step junk)\<^sup>*\<^sup>* s ?s5"
    by (rule conn_then [OF s1] conn_then [OF s2]
        conn_then [OF s3] conn_then [OF s4] conn_once [OF s5])+
  then show thesis
    using that [of ?s5] u4 assms(5) by (simp add: unsent_def)
qed

lemma reach_stuck:
  assumes "ctx_inv ctx" and "unsent ctx = []" and "\<not> c_writeArmed ctx"
  shows "\<exists>s. (conn_step junk)\<^sup>*\<^sup>* (conn_init ctx) s \<and> stuck s \<and> unsent (k_ctx s) = packet 2 ''''"
proof -
  let ?s0 = "conn_init ctx"
  have i0: "conn_inv ?s0" using assms(1,2) by (rule conn_init_inv)
  obtain c1 where s1: "conn_step junk ?s0 (?s0\<lparr>k_ctx := c1, k_accepted := k_accepted ?s0 @ packet 2 '''',
       k_enabling := k_enabling ?s0 + (if c_writeArmed (k_ctx ?s0) then 0 else 1)\<rparr>)"
      and c1: "unsent c1 = packet 2 ''''" "c_activeSendBuffer c1 = c_activeSendBuffer ctx" "c_writeArmed c1"
    using enqueue_heartbeat [OF i0] assms(2) by (auto simp: conn_init_def)
  let ?s1 = "?s0\<lparr>k_ctx := c1, k_accepted := k_accepted ?s0 @ packet 2 '''', k_enabling := 1\<rparr>"
  have s1: "conn_step junk ?s0 ?s1" using s1 assms(3) by (simp add: conn_init_def)
  let ?s2 = "?s1\<lparr>k_enabling := 0, k_interest := True, k_event := True\<rparr>"
  have s2: "conn_step junk ?s1 ?s2"
    using conn_step.enable [of ?s1 0 junk True] by (simp add: conn_init_def)
  let ?s3 = "?s2\<lparr>k_writer := InLoop 0, k_event := False\<rparr>"
  have s3: "conn_step junk ?s2 ?s3" by (rule conn_step.start) (simp_all add: conn_init_def)
  have r3: "(conn_step junk)\<^sup>*\<^sup>* ?s0 ?s3"
    by (rule conn_then [OF s1] conn_then [OF s2] conn_once [OF s3])+
  have act: "sb_bytes (c_activeSendBuffer ctx) = []" using assms(2) by (simp add: unsent_def)
  obtain s4 where s4: "(conn_step junk)\<^sup>*\<^sup>* ?s3 s4" "k_writer s4 = Disabling" "unsent (k_ctx s4) = []"
      "\<not> c_writeArmed (k_ctx s4)" "k_enabling s4 = 0" "\<not> k_closed s4"
    using reach_disabling [OF conn_reach_inv [OF r3 i0]] c1 act by (auto simp: conn_init_def)
  have r4: "(conn_step junk)\<^sup>*\<^sup>* ?s0 s4" using r3 s4(1) by (rule rtranclp_trans)
  obtain c5 where s5: "conn_step junk s4 (s4\<lparr>k_ctx := c5, k_accepted := k_accepted s4 @ packet 2 '''', k_enabling := 1\<rparr>)"
      and c5: "unsent c5 = packet 2 ''''" "c_writeArmed c5"
    using enqueue_heartbeat [OF conn_reach_inv [OF r4 i0] s4(3)] s4(4,5) by auto
  let ?s5 = "s4\<lparr>k_ctx := c5, k_accepted := k_accepted s4 @ packet 2 '''', k_enabling := 1\<rparr>"
  let ?s6 = "?s5\<lparr>k_enabling := 0, k_interest := True, k_event := True\<rparr>"
  have s6: "conn_step junk ?s5 ?s6"
    using conn_step.enable [of ?s5 0 junk True] s4(6) by simp
  let ?s7 = "?s6\<lparr>k_interest := False, k_writer := Idle\<rparr>"
  have s7: "conn_step junk ?s6 ?s7" by (rule conn_step.disable) (simp add: s4(2))
  have "(conn_step junk)\<^sup>*\<^sup>* s4 ?s7"
    by (rule conn_then [OF s5] conn_then [OF s6] conn_once [OF s7])+
  with r4 have "(conn_step junk)\<^sup>*\<^sup>* ?s0 ?s7" by (rule rtranclp_trans)
  then show ?thesis using c5 by (intro exI [of _ ?s7]) (simp add: stuck_def)
qed

section \<open>Properties\<close>

text \<open>
  (C3) With memory for every request, however worker threads and the I/O thread interleave and wherever
  the connection is closed, the bytes handed to the kernel are the packets in the order in which they
  were accepted, with nothing lost, repeated or mixed (a closed connection sends no more of them); the
  counter of unsent bytes is exact and never above the limit of 16 MB.
\<close>

theorem packets_leave_in_order:
  assumes "ClientContext (block_of junk) fd ip = Inr ctx" and "(conn_step junk)\<^sup>*\<^sup>* (conn_init ctx) s"
  shows "k_sent s @ drop (in_flight (k_writer s)) (unsent (k_ctx s)) = k_accepted s
    \<and> unat (c_pendingBytes (k_ctx s)) = length (unsent (k_ctx s))
    \<and> c_pendingBytes (k_ctx s) \<le> MAX_PENDING_SEND_BUFFER"
proof -
  have "ctx_inv ctx" "unsent ctx = []" using ClientContext_ok [of junk fd ip] assms(1) by auto
  from conn_reach_inv [OF assms(2) conn_init_inv [OF this]] show ?thesis
    by (auto simp: conn_inv_def ctx_inv_def)
qed

theorem packets_leave_in_order_witness:
  "\<exists>ctx (s :: conn). ClientContext (block_of (\<lambda>_. CHR 0x00)) 7 ''10.0.0.1'' = Inr ctx
     \<and> k_sent s @ drop (in_flight (k_writer s)) (unsent (k_ctx s)) = k_accepted s \<and> k_accepted s = packet 2 ''''"
proof -
  let ?j = "\<lambda>_. CHR 0x00"
  obtain ctx where c: "ClientContext (block_of ?j) 7 ''10.0.0.1'' = Inr ctx" "ctx_inv ctx" "unsent ctx = []"
    using ClientContext_ok [of ?j 7 "''10.0.0.1''"] by auto
  have "\<exists>s. conn_step ?j (conn_init ctx) s \<and> k_accepted s = packet 2 ''''"
  proof (rule enqueue_heartbeat [OF conn_init_inv [OF c(2,3)], of ?j], goal_cases)
    case 1
    then show ?case using c(3) by (simp add: conn_init_def)
  next
    case (2 c')
    show ?case by (rule exI, rule conjI, rule 2(1)) (simp add: conn_init_def)
  qed
  then obtain s where s: "conn_step ?j (conn_init ctx) s" "k_accepted s = packet 2 ''''" by blast
  have "k_sent s @ drop (in_flight (k_writer s)) (unsent (k_ctx s)) = k_accepted s"
    using packets_leave_in_order [OF c(1) conn_once [OF s(1)]] by simp
  with c(1) s(2) show ?thesis by (intro exI [of _ ctx] exI [of _ s]) simp
qed

text \<open>
  (C34) A wake-up can be lost: there is an interleaving of two calls of \<open>sendPacket\<close> with one call of
  \<open>handleWrite\<close> after which a packet is queued and no continuation ever hands another byte to the
  kernel. The I/O thread leaves its last critical section to switch \<open>EPOLLOUT\<close> off, a worker
  enqueues a packet and switches \<open>EPOLLOUT\<close> on, then the I/O thread switches it off.
\<close>

theorem wakeup_can_be_lost:
  assumes "ClientContext (block_of junk) fd ip = Inr ctx"
  shows "\<exists>s. (conn_step junk)\<^sup>*\<^sup>* (conn_init ctx) s \<and> unsent (k_ctx s) = packet 2 ''''
    \<and> (\<forall>s'. (conn_step junk)\<^sup>*\<^sup>* s s' \<longrightarrow> k_sent s' = k_sent s)"
proof -
  have c: "ctx_inv ctx" "unsent ctx = []" "\<not> c_writeArmed ctx"
    using ClientContext_ok [of junk fd ip] assms by auto
  obtain s where s: "(conn_step junk)\<^sup>*\<^sup>* (conn_init ctx) s" "stuck s" "unsent (k_ctx s) = packet 2 ''''"
    using reach_stuck [OF c] by blast
  have "conn_inv s" using conn_reach_inv [OF s(1) conn_init_inv [OF c(1,2)]] .
  then show ?thesis using s stuck_forever by blast
qed

theorem wakeup_can_be_lost_witness:
  "\<exists>ctx s. ClientContext (block_of (\<lambda>_. CHR 0x00)) 7 ''10.0.0.1'' = Inr ctx
     \<and> (conn_step (\<lambda>_. CHR 0x00))\<^sup>*\<^sup>* (conn_init ctx) s \<and> unsent (k_ctx s) = packet 2 ''''
     \<and> (\<forall>s'. (conn_step (\<lambda>_. CHR 0x00))\<^sup>*\<^sup>* s s' \<longrightarrow> k_sent s' = k_sent s)"
  using ClientContext_ok [of "\<lambda>_. CHR 0x00" 7 "''10.0.0.1''"] wakeup_can_be_lost by blast

text \<open>
  One run of the flush loop never faults, hands the kernel a prefix of the unsent bytes of at
  most 64 KB, and keeps the rest for later; it ends on its own only when everything is sent or the
  budget is used up.
\<close>

theorem flush_loop_sends_prefix:
  assumes "ctx_inv ctx"
  shows "\<exists>r ctx' sent. hw_loop answers 0 ctx [] = Inr (r, ctx', sent) \<and> ctx_inv ctx'
    \<and> unsent ctx = sent @ unsent ctx' \<and> length sent \<le> unat WRITE_FLUSH_BUDGET_BYTES
    \<and> (r = LoopDone \<longrightarrow> unsent ctx' = [] \<or> length sent = unat WRITE_FLUSH_BUDGET_BYTES)"
  using hw_loop_ok [OF assms, of 0 answers "[]"] by simp

theorem flush_loop_sends_prefix_witness:
  "\<exists>ctx r ctx' sent. ClientContext (block_of (\<lambda>_. CHR 0x00)) 7 ''10.0.0.1'' = Inr ctx
     \<and> hw_loop [Room 10, WouldBlock] 0 ctx [] = Inr (r, ctx', sent) \<and> unsent ctx = sent @ unsent ctx'"
  using ClientContext_ok [of "\<lambda>_. CHR 0x00" 7 "''10.0.0.1''"] flush_loop_sends_prefix by blast

end
