(* ===== verification/KeyStore.thy ===== *)
theory KeyStore
  imports Prelude
begin

text \<open>
  What a keyed container promises, as the contract \<open>key_store\<close>, and \<open>std::map\<close> with integer keys as
  one provider: an association list with increasing keys, which is its iteration order. The
  sharded hash maps of the registries are another provider.
\<close>

section \<open>The contract\<close>

locale key_store =
  fixes inv :: "'s \<Rightarrow> bool"
    and find :: "'s \<Rightarrow> 'k \<Rightarrow> 'v option"
    and put :: "'k \<Rightarrow> 'v \<Rightarrow> 's \<Rightarrow> 's"
    and erase :: "'k \<Rightarrow> 's \<Rightarrow> 's"
    and items :: "'s \<Rightarrow> ('k \<times> 'v) list"
  assumes put_inv: "inv s \<Longrightarrow> inv (put k v s)"
    and erase_inv: "inv s \<Longrightarrow> inv (erase k s)"
    and find_put: "inv s \<Longrightarrow> find (put k v s) k' = (if k' = k then Some v else find s k')"
    and find_erase: "inv s \<Longrightarrow> find (erase k s) k' = (if k' = k then None else find s k')"
    and items_find: "inv s \<Longrightarrow> (k, v) \<in> set (items s) \<longleftrightarrow> find s k = Some v"
    and items_distinct: "inv s \<Longrightarrow> distinct (map fst (items s))"
begin

lemma find_put_other: "inv s \<Longrightarrow> k' \<noteq> k \<Longrightarrow> find (put k v s) k' = find s k'"
  by (simp add: find_put)

lemma items_put: "inv s \<Longrightarrow> set (items (put k v s)) = insert (k, v) {e \<in> set (items s). fst e \<noteq> k}"
  using items_find [OF put_inv] items_find find_put by (auto split: if_splits)

lemma items_erase: "inv s \<Longrightarrow> set (items (erase k s)) = {e \<in> set (items s). fst e \<noteq> k}"
  using items_find [OF erase_inv] items_find find_erase by (auto split: if_splits)

lemma items_length: "inv s \<Longrightarrow> length (items s) = card {k. find s k \<noteq> None}"
proof -
  assume inv: "inv s"
  have "set (map fst (items s)) = {k. find s k \<noteq> None}"
    using items_find [OF inv] by (force simp: image_iff)
  then show ?thesis
    using distinct_card [OF items_distinct [OF inv]] by simp
qed

end

section \<open>\<open>std::map\<close>\<close>

type_synonym 'v std_map = "(nat \<times> 'v) list"

fun map_put :: "nat \<Rightarrow> 'v \<Rightarrow> 'v std_map \<Rightarrow> 'v std_map" where
  "map_put k v [] = [(k, v)]"
| "map_put k v ((k', v') # m) =
     (if k < k' then (k, v) # (k', v') # m
      else if k = k' then (k, v) # m
      else (k', v') # map_put k v m)"

definition map_erase :: "nat \<Rightarrow> 'v std_map \<Rightarrow> 'v std_map" where
  "map_erase k m = filter (\<lambda>e. fst e \<noteq> k) m"

text \<open>\<open>lower_bound\<close>: the entry with the least key that is not below \<open>k\<close>.\<close>

definition lower_bound :: "nat \<Rightarrow> 'v std_map \<Rightarrow> (nat \<times> 'v) option" where
  "lower_bound k m = find (\<lambda>e. k \<le> fst e) m"

definition map_inv :: "'v std_map \<Rightarrow> bool" where
  "map_inv m \<longleftrightarrow> sorted_wrt (<) (map fst m)"

lemma map_put_keys [simp]: "set (map fst (map_put k v m)) = insert k (set (map fst m))"
  by (induction k v m rule: map_put.induct) auto

lemma map_put_keys' [simp]: "fst ` set (map_put k v m) = insert k (fst ` set m)"
  using map_put_keys [of k v m] by simp

lemma map_put_inv: "map_inv m \<Longrightarrow> map_inv (map_put k v m)"
  by (induction k v m rule: map_put.induct) (auto simp: map_inv_def)

lemma map_erase_inv: "map_inv m \<Longrightarrow> map_inv (map_erase k m)"
  by (induction m) (auto simp: map_inv_def map_erase_def)

lemma map_of_put: "map_inv m \<Longrightarrow> map_of (map_put k v m) k' = (if k' = k then Some v else map_of m k')"
  by (induction k v m rule: map_put.induct)
    (auto simp: map_inv_def map_of_eq_None_iff [symmetric] intro!: map_of_eq_None_iff [THEN iffD2, symmetric])

lemma map_of_erase: "map_of (map_erase k m) k' = (if k' = k then None else map_of m k')"
  by (induction m) (auto simp: map_erase_def)

lemma map_inv_distinct: "map_inv m \<Longrightarrow> distinct (map fst m)"
  by (auto simp: map_inv_def strict_sorted_iff)

interpretation std_map: key_store map_inv map_of map_put map_erase id
  by unfold_locales
    (auto simp: map_put_inv map_erase_inv map_of_put map_of_erase map_inv_distinct)

lemma lower_bound_SomeD:
  assumes "lower_bound k m = Some (k', v)" and "map_inv m"
  shows "k \<le> k' \<and> map_of m k' = Some v \<and> (\<forall>j. k \<le> j \<longrightarrow> j < k' \<longrightarrow> map_of m j = None)"
  using assms
proof (induction m)
  case (Cons e m)
  have above: "fst e < fst x" if "x \<in> set m" for x
    using Cons.prems(2) that by (auto simp: map_inv_def)
  show ?case
  proof (cases "k \<le> fst e")
    case True
    then have e: "e = (k', v)" using Cons.prems(1) by (simp add: lower_bound_def)
    have "map_of m j = None" if "j < k'" for j
      using above that by (fastforce simp: e map_of_eq_None_iff)
    with True show ?thesis by (auto simp: e)
  next
    case False
    then have "lower_bound k m = Some (k', v)" using Cons.prems(1) by (simp add: lower_bound_def)
    with Cons False show ?thesis by (auto simp: map_inv_def)
  qed
qed (simp add: lower_bound_def)

lemma lower_bound_None: "lower_bound k m = None \<longleftrightarrow> (\<forall>e \<in> set m. fst e < k)"
  by (auto simp: lower_bound_def find_None_iff)

end
