(* ===== verification/Registry.thy ===== *)
theory Registry
  imports Connection KeyStore "HOL-Library.AList"
begin

text \<open>
  The two registries of the server (\<open>EpollChatServer.h\<close>, \<open>EpollChatServer.cpp\<close>): connections by
  file descriptor and online users by account name, each an array of 128 hash maps, one mutex per
  shard. A \<open>shared_ptr<ClientContext>\<close> is a pointer, \<open>nullptr\<close> is \<open>None\<close>; a hash map is an
  association list in its iteration order. What a sharded map does is stated once, as the contract
  \<open>key_store\<close>, and shown for every sharding; both registries are instances.
\<close>

section \<open>Sharded maps\<close>

definition sh_inv :: "nat \<Rightarrow> ('k \<Rightarrow> nat) \<Rightarrow> ('k \<times> 'v) list list \<Rightarrow> bool" where
  "sh_inv n idx s \<longleftrightarrow> length s = n
     \<and> (\<forall>i < n. distinct (map fst (s ! i)) \<and> (\<forall>k \<in> set (map fst (s ! i)). idx k = i))"

definition sh_find :: "('k \<Rightarrow> nat) \<Rightarrow> ('k \<times> 'v) list list \<Rightarrow> 'k \<Rightarrow> 'v option" where
  "sh_find idx s k = map_of (s ! idx k) k"

definition sh_put :: "('k \<Rightarrow> nat) \<Rightarrow> 'k \<Rightarrow> 'v \<Rightarrow> ('k \<times> 'v) list list \<Rightarrow> ('k \<times> 'v) list list" where
  "sh_put idx k v s = s[idx k := AList.update k v (s ! idx k)]"

definition sh_erase :: "('k \<Rightarrow> nat) \<Rightarrow> 'k \<Rightarrow> ('k \<times> 'v) list list \<Rightarrow> ('k \<times> 'v) list list" where
  "sh_erase idx k s = s[idx k := AList.delete k (s ! idx k)]"

lemma distinct_concat_nth:
  "(\<And>i. i < length xs \<Longrightarrow> distinct (xs ! i)) \<Longrightarrow>
   (\<And>i j. i < j \<Longrightarrow> j < length xs \<Longrightarrow> set (xs ! i) \<inter> set (xs ! j) = {}) \<Longrightarrow> distinct (concat xs)"
proof (induction xs)
  case (Cons a xs)
  have "distinct a" using Cons.prems(1) [of 0] by simp
  moreover have "distinct (concat xs)"
  proof (rule Cons.IH)
    show "i < length xs \<Longrightarrow> distinct (xs ! i)" for i using Cons.prems(1) [of "Suc i"] by simp
    show "i < j \<Longrightarrow> j < length xs \<Longrightarrow> set (xs ! i) \<inter> set (xs ! j) = {}" for i j
      using Cons.prems(2) [of "Suc i" "Suc j"] by simp
  qed
  moreover have "set a \<inter> set x = {}" if x: "x \<in> set xs" for x
  proof -
    obtain j where "j < length xs" "x = xs ! j" using x by (auto simp: in_set_conv_nth)
    then show ?thesis using Cons.prems(2) [of 0 "Suc j"] by simp
  qed
  ultimately show ?case by auto
qed simp

locale sharding =
  fixes n :: nat and idx :: "'k \<Rightarrow> nat"
  assumes idx_less: "idx k < n"
begin

lemma sh_put_inv:
  assumes "sh_inv n idx s"
  shows "sh_inv n idx (sh_put idx k v s)"
proof -
  have "distinct (map fst (AList.update k v (s ! idx k)))"
    using assms idx_less [of k] by (simp add: sh_inv_def distinct_update)
  moreover have "set (map fst (AList.update k v (s ! idx k))) = insert k (set (map fst (s ! idx k)))"
    using dom_update [of k v "s ! idx k"] by simp
  ultimately show ?thesis
    using assms idx_less [of k] unfolding sh_inv_def sh_put_def
    by (metis insert_iff length_list_update nth_list_update)
qed

lemma sh_erase_inv:
  assumes "sh_inv n idx s"
  shows "sh_inv n idx (sh_erase idx k s)"
proof -
  have "distinct (map fst (AList.delete k (s ! idx k)))"
    using assms idx_less [of k] by (simp add: sh_inv_def distinct_delete)
  moreover have "set (map fst (AList.delete k (s ! idx k))) \<subseteq> set (map fst (s ! idx k))"
    by (auto simp: AList.delete_eq)
  ultimately show ?thesis
    using assms idx_less [of k] by (fastforce simp: sh_inv_def sh_erase_def nth_list_update)
qed

lemma sh_items:
  assumes "sh_inv n idx s"
  shows "(k, v) \<in> set (concat s) \<longleftrightarrow> sh_find idx s k = Some v"
proof
  assume "(k, v) \<in> set (concat s)"
  then obtain i where i: "i < n" "(k, v) \<in> set (s ! i)"
    using assms unfolding sh_inv_def set_concat by (metis UN_E in_set_conv_nth)
  then have "idx k = i" using assms by (force simp: sh_inv_def)
  then show "sh_find idx s k = Some v"
    using i assms by (simp add: sh_find_def sh_inv_def)
next
  assume "sh_find idx s k = Some v"
  then have "(k, v) \<in> set (s ! idx k)" by (simp add: sh_find_def map_of_SomeD)
  then show "(k, v) \<in> set (concat s)"
    using assms idx_less [of k] by (auto simp: sh_inv_def intro: nth_mem)
qed

lemma sh_distinct:
  assumes "sh_inv n idx s"
  shows "distinct (map fst (concat s))"
proof -
  have "distinct (concat (map (map fst) s))"
  proof (rule distinct_concat_nth)
    show "i < length (map (map fst) s) \<Longrightarrow> distinct (map (map fst) s ! i)" for i
      using assms by (simp add: sh_inv_def)
    show "i < j \<Longrightarrow> j < length (map (map fst) s) \<Longrightarrow>
        set (map (map fst) s ! i) \<inter> set (map (map fst) s ! j) = {}" for i j
    proof -
      assume ij: "i < j" "j < length (map (map fst) s)"
      have "idx k = i \<and> idx k = j" if "k \<in> set (map fst (s ! i))" "k \<in> set (map fst (s ! j))" for k
      proof -
        have "i < n" "j < n" using ij assms by (auto simp: sh_inv_def)
        then show ?thesis using assms that unfolding sh_inv_def by blast
      qed
      then show ?thesis using ij by fastforce
    qed
  qed
  then show ?thesis by (simp add: map_concat)
qed

lemma sh_find_put:
  "sh_inv n idx s \<Longrightarrow> sh_find idx (sh_put idx k v s) k' = (if k' = k then Some v else sh_find idx s k')"
  using idx_less [of k]
  by (cases "idx k' = idx k") (auto simp: sh_find_def sh_put_def sh_inv_def update_conv')

lemma sh_find_erase:
  "sh_inv n idx s \<Longrightarrow> sh_find idx (sh_erase idx k s) k' = (if k' = k then None else sh_find idx s k')"
  using idx_less [of k]
  by (cases "idx k' = idx k") (auto simp: sh_find_def sh_erase_def sh_inv_def delete_conv')

end

sublocale sharding \<subseteq> store: key_store "sh_inv n idx" "sh_find idx" "sh_put idx" "sh_erase idx" concat
  by unfold_locales
    (rule sh_put_inv sh_erase_inv sh_find_put sh_find_erase sh_items sh_distinct, assumption)+

section \<open>The registries\<close>

type_synonym ctx_ptr = nat

definition kShardCount :: nat where "kShardCount = 128"

record registry =
  m_clientShards :: "(int \<times> ctx_ptr) list list"
  m_onlineUserShards :: "(string \<times> ctx_ptr) list list"

definition empty_registry :: registry where
  "empty_registry =
     \<lparr>m_clientShards = replicate kShardCount [], m_onlineUserShards = replicate kShardCount []\<rparr>"

text \<open>\<open>static_cast<size_t>(fd) % kShardCount\<close>; the hash of account names is an argument.\<close>

definition clientShardIndex :: "int \<Rightarrow> nat" where
  "clientShardIndex fd = unat (word_of_int fd :: size_t) mod kShardCount"

definition userShardIndex :: "(string \<Rightarrow> size_t) \<Rightarrow> string \<Rightarrow> nat" where
  "userShardIndex hash accountID = unat (hash accountID) mod kShardCount"

definition addClientCtx :: "(ctx_ptr \<Rightarrow> client_ctx) \<Rightarrow> ctx_ptr option \<Rightarrow> registry \<Rightarrow> registry" where
  "addClientCtx ctxs ctx reg =
     (case ctx of None \<Rightarrow> reg
      | Some p \<Rightarrow> reg\<lparr>m_clientShards := sh_put clientShardIndex (c_fd (ctxs p)) p (m_clientShards reg)\<rparr>)"

definition removeClientCtx :: "int \<Rightarrow> registry \<Rightarrow> registry" where
  "removeClientCtx fd reg = reg\<lparr>m_clientShards := sh_erase clientShardIndex fd (m_clientShards reg)\<rparr>"

definition getClientCtxByFd :: "registry \<Rightarrow> int \<Rightarrow> ctx_ptr option" where
  "getClientCtxByFd reg fd = sh_find clientShardIndex (m_clientShards reg) fd"

definition snapshotAllClients :: "registry \<Rightarrow> ctx_ptr list" where
  "snapshotAllClients reg = concat (map (map snd) (m_clientShards reg))"

text \<open>
  The online registry holds weak pointers: \<open>alive\<close> says whether a context still has an owner when
  \<open>lock\<close> is called.
\<close>

definition setOnlineUser :: "(string \<Rightarrow> size_t) \<Rightarrow> string \<Rightarrow> ctx_ptr option \<Rightarrow> registry \<Rightarrow> registry" where
  "setOnlineUser hash accountID ctx reg =
     (if accountID = '''' \<or> ctx = None then reg
      else reg\<lparr>m_onlineUserShards :=
        sh_put (userShardIndex hash) accountID (the ctx) (m_onlineUserShards reg)\<rparr>)"

definition getOnlineCtx :: "(string \<Rightarrow> size_t) \<Rightarrow> (ctx_ptr \<Rightarrow> bool) \<Rightarrow> registry \<Rightarrow> string \<Rightarrow> ctx_ptr option" where
  "getOnlineCtx hash alive reg accountID =
     (if accountID = '''' then None
      else case sh_find (userShardIndex hash) (m_onlineUserShards reg) accountID of
        None \<Rightarrow> None
      | Some p \<Rightarrow> if alive p then Some p else None)"

definition removeOnlineUser :: "(string \<Rightarrow> size_t) \<Rightarrow> string \<Rightarrow> registry \<Rightarrow> registry" where
  "removeOnlineUser hash accountID reg =
     (if accountID = '''' then reg
      else reg\<lparr>m_onlineUserShards := sh_erase (userShardIndex hash) accountID (m_onlineUserShards reg)\<rparr>)"

definition snapshotOnlineUsers :: "(ctx_ptr \<Rightarrow> bool) \<Rightarrow> registry \<Rightarrow> (string \<times> ctx_ptr) list" where
  "snapshotOnlineUsers alive reg = concat (map (filter (\<lambda>(a, p). alive p)) (m_onlineUserShards reg))"

interpretation client_shards: sharding kShardCount clientShardIndex
  by unfold_locales (simp add: clientShardIndex_def kShardCount_def)

interpretation online_shards: sharding kShardCount "userShardIndex hash" for hash
  by unfold_locales (simp add: userShardIndex_def kShardCount_def)

definition reg_inv :: "(string \<Rightarrow> size_t) \<Rightarrow> registry \<Rightarrow> bool" where
  "reg_inv hash reg \<longleftrightarrow> sh_inv kShardCount clientShardIndex (m_clientShards reg)
     \<and> sh_inv kShardCount (userShardIndex hash) (m_onlineUserShards reg)"

lemma empty_registry_inv: "reg_inv hash empty_registry"
  by (simp add: reg_inv_def sh_inv_def empty_registry_def)

lemma registry_ops_inv [inv_intros]:
  assumes "reg_inv hash reg"
  shows "reg_inv hash (addClientCtx ctxs ctx reg)" "reg_inv hash (removeClientCtx fd reg)"
    "reg_inv hash (setOnlineUser hash a ctx reg)" "reg_inv hash (removeOnlineUser hash a reg)"
  using assms
  by (auto simp: reg_inv_def addClientCtx_def removeClientCtx_def setOnlineUser_def removeOnlineUser_def
      client_shards.sh_put_inv client_shards.sh_erase_inv online_shards.sh_put_inv
      online_shards.sh_erase_inv split: option.splits)

text \<open>Lookups after updates, in both registries.\<close>

lemma client_lookup:
  assumes "reg_inv hash reg"
  shows "getClientCtxByFd (addClientCtx ctxs (Some p) reg) fd =
      (if fd = c_fd (ctxs p) then Some p else getClientCtxByFd reg fd)"
    and "getClientCtxByFd (removeClientCtx fd' reg) fd = (if fd = fd' then None else getClientCtxByFd reg fd)"
    and "getClientCtxByFd (setOnlineUser hash a ctx reg) fd = getClientCtxByFd reg fd"
    and "getClientCtxByFd (removeOnlineUser hash a reg) fd = getClientCtxByFd reg fd"
  using assms
  by (simp_all add: reg_inv_def getClientCtxByFd_def addClientCtx_def removeClientCtx_def
      client_shards.sh_find_put client_shards.sh_find_erase setOnlineUser_def removeOnlineUser_def)

lemma online_lookup:
  assumes "reg_inv hash reg"
  shows "a \<noteq> '''' \<Longrightarrow> getOnlineCtx hash alive (setOnlineUser hash a (Some p) reg) b =
      (if b = a then (if alive p then Some p else None) else getOnlineCtx hash alive reg b)"
    and "getOnlineCtx hash alive (removeOnlineUser hash a reg) b =
      (if b = a then None else getOnlineCtx hash alive reg b)"
    and "getOnlineCtx hash alive (addClientCtx ctxs ctx reg) b = getOnlineCtx hash alive reg b"
    and "getOnlineCtx hash alive (removeClientCtx fd reg) b = getOnlineCtx hash alive reg b"
  using assms
  by (auto simp: reg_inv_def getOnlineCtx_def setOnlineUser_def removeOnlineUser_def addClientCtx_def
      removeClientCtx_def online_shards.sh_find_put online_shards.sh_find_erase split: option.splits)

lemma snapshotAllClients_set:
  assumes "reg_inv hash reg"
  shows "set (snapshotAllClients reg) = {p. \<exists>fd. getClientCtxByFd reg fd = Some p}"
proof -
  have "snapshotAllClients reg = map snd (concat (m_clientShards reg))"
    by (simp add: snapshotAllClients_def map_concat)
  then show ?thesis
    using assms client_shards.sh_items [of "m_clientShards reg"]
    by (force simp: reg_inv_def getClientCtxByFd_def)
qed

lemma snapshotOnlineUsers_items:
  "snapshotOnlineUsers alive reg = filter (\<lambda>(a, p). alive p) (concat (m_onlineUserShards reg))"
  by (simp add: snapshotOnlineUsers_def filter_concat)

section \<open>Refinement of two maps\<close>

text \<open>
  The specification of the registries: a map from descriptors to contexts and one from account
  names to contexts, and what each operation does to them.
\<close>

datatype reg_op =
    AddClient ctx_ptr
  | RemoveClient int
  | SetOnline string ctx_ptr
  | RemoveOnline string

fun reg_apply :: "(string \<Rightarrow> size_t) \<Rightarrow> (ctx_ptr \<Rightarrow> client_ctx) \<Rightarrow> reg_op \<Rightarrow> registry \<Rightarrow> registry" where
  "reg_apply hash ctxs (AddClient p) reg = addClientCtx ctxs (Some p) reg"
| "reg_apply hash ctxs (RemoveClient fd) reg = removeClientCtx fd reg"
| "reg_apply hash ctxs (SetOnline a p) reg = setOnlineUser hash a (Some p) reg"
| "reg_apply hash ctxs (RemoveOnline a) reg = removeOnlineUser hash a reg"

fun spec_apply :: "(ctx_ptr \<Rightarrow> client_ctx) \<Rightarrow> reg_op \<Rightarrow> (int \<rightharpoonup> ctx_ptr) \<times> (string \<rightharpoonup> ctx_ptr)
    \<Rightarrow> (int \<rightharpoonup> ctx_ptr) \<times> (string \<rightharpoonup> ctx_ptr)" where
  "spec_apply ctxs (AddClient p) (cs, us) = (cs(c_fd (ctxs p) \<mapsto> p), us)"
| "spec_apply ctxs (RemoveClient fd) (cs, us) = (cs(fd := None), us)"
| "spec_apply ctxs (SetOnline a p) (cs, us) = (cs, if a = '''' then us else us(a \<mapsto> p))"
| "spec_apply ctxs (RemoveOnline a) (cs, us) = (cs, us(a := None))"

definition reg_abs :: "(string \<Rightarrow> size_t) \<Rightarrow> registry \<Rightarrow> (int \<rightharpoonup> ctx_ptr) \<times> (string \<rightharpoonup> ctx_ptr)" where
  "reg_abs hash reg =
     (getClientCtxByFd reg, sh_find (userShardIndex hash) (m_onlineUserShards reg))"

lemma reg_apply_refines:
  assumes "reg_inv hash reg" and "snd (reg_abs hash reg) '''' = None"
  shows "reg_inv hash (reg_apply hash ctxs op reg)"
    and "reg_abs hash (reg_apply hash ctxs op reg) = spec_apply ctxs op (reg_abs hash reg)"
    and "snd (spec_apply ctxs op (reg_abs hash reg)) '''' = None"
proof -
  show "reg_inv hash (reg_apply hash ctxs op reg)"
    using assms(1) by (cases op) (simp_all add: registry_ops_inv)
  note inv = assms(1) [unfolded reg_inv_def]
  show "reg_abs hash (reg_apply hash ctxs op reg) = spec_apply ctxs op (reg_abs hash reg)"
  proof (cases op)
    case (AddClient p)
    then show ?thesis using client_lookup(1) [OF assms(1)] by (auto simp: reg_abs_def addClientCtx_def)
  next
    case (RemoveClient fd)
    then show ?thesis using client_lookup(2) [OF assms(1)] by (auto simp: reg_abs_def removeClientCtx_def)
  next
    case (SetOnline a p)
    then show ?thesis
      using inv by (auto simp: reg_abs_def setOnlineUser_def getClientCtxByFd_def online_shards.sh_find_put)
  next
    case (RemoveOnline a)
    then show ?thesis
      using inv assms(2)
      by (auto simp: reg_abs_def removeOnlineUser_def getClientCtxByFd_def online_shards.sh_find_erase)
  qed
  show "snd (spec_apply ctxs op (reg_abs hash reg)) '''' = None"
    using assms(2) by (cases op; cases "reg_abs hash reg") auto
qed

lemma reg_run_refines:
  assumes "reg_inv hash reg" and "snd (reg_abs hash reg) '''' = None"
  shows "reg_inv hash (fold (reg_apply hash ctxs) ops reg)
    \<and> reg_abs hash (fold (reg_apply hash ctxs) ops reg) = fold (spec_apply ctxs) ops (reg_abs hash reg)
    \<and> snd (reg_abs hash (fold (reg_apply hash ctxs) ops reg)) '''' = None"
  using assms
proof (induction ops arbitrary: reg)
  case (Cons op ops)
  note r = reg_apply_refines [OF Cons.prems, of ctxs op]
  show ?case using Cons.IH [OF r(1)] r(2,3) by (metis fold_simps(2))
qed simp

lemma snapshotOnlineUsers_set:
  assumes "reg_inv hash reg" and "snd (reg_abs hash reg) '''' = None"
  shows "set (snapshotOnlineUsers alive reg) = {(a, p). getOnlineCtx hash alive reg a = Some p}"
proof -
  have "(a, p) \<in> set (concat (m_onlineUserShards reg)) \<longleftrightarrow>
      sh_find (userShardIndex hash) (m_onlineUserShards reg) a = Some p" for a p
    using assms(1) by (intro online_shards.sh_items) (simp add: reg_inv_def)
  then have "(a, p) \<in> set (snapshotOnlineUsers alive reg) \<longleftrightarrow>
      getOnlineCtx hash alive reg a = Some p" for a p
    using assms(2) unfolding snapshotOnlineUsers_items set_filter
    by (auto simp: getOnlineCtx_def reg_abs_def split: option.splits if_splits)
  then show ?thesis by auto
qed

text \<open>
  (C10) The sharded registries behave like two plain maps, whatever the hash of names is: after any
  sequence of registrations and removals, looking up a descriptor or a name gives what the maps
  give (a name only while its context is alive), and the two snapshots list exactly the entries.
\<close>

theorem registry_refines_maps:
  fixes ops :: "reg_op list"
  defines "reg \<equiv> \<lambda>hash ctxs. fold (reg_apply hash ctxs) ops empty_registry"
    and "spec \<equiv> \<lambda>ctxs. fold (spec_apply ctxs) ops (Map.empty, Map.empty)"
  shows "getClientCtxByFd (reg hash ctxs) fd = fst (spec ctxs) fd
    \<and> getOnlineCtx hash alive (reg hash ctxs) a =
        (case snd (spec ctxs) a of None \<Rightarrow> None | Some p \<Rightarrow> if alive p then Some p else None)
    \<and> set (snapshotAllClients (reg hash ctxs)) = ran (fst (spec ctxs))
    \<and> set (snapshotOnlineUsers alive (reg hash ctxs)) =
        {(a, p). snd (spec ctxs) a = Some p \<and> alive p}"
proof -
  have "reg_abs hash empty_registry = (Map.empty, Map.empty)"
    by (auto simp: reg_abs_def empty_registry_def getClientCtxByFd_def sh_find_def
        client_shards.idx_less online_shards.idx_less)
  then have r: "reg_inv hash (reg hash ctxs)" "reg_abs hash (reg hash ctxs) = spec ctxs"
      "snd (reg_abs hash (reg hash ctxs)) '''' = None"
    using reg_run_refines [OF empty_registry_inv, of hash ctxs ops] unfolding reg_def spec_def by auto
  have g: "getClientCtxByFd (reg hash ctxs) = fst (spec ctxs)"
    using r(2) by (simp add: reg_abs_def prod_eq_iff)
  have o: "getOnlineCtx hash alive (reg hash ctxs) a =
      (case snd (spec ctxs) a of None \<Rightarrow> None | Some p \<Rightarrow> if alive p then Some p else None)" for a
    using r(2,3) by (auto simp: reg_abs_def prod_eq_iff getOnlineCtx_def split: option.splits)
  have "set (snapshotAllClients (reg hash ctxs)) = ran (fst (spec ctxs))"
    unfolding snapshotAllClients_set [OF r(1)] g by (simp add: ran_def)
  moreover have "set (snapshotOnlineUsers alive (reg hash ctxs)) =
      {(a, p). snd (spec ctxs) a = Some p \<and> alive p}"
    unfolding snapshotOnlineUsers_set [OF r(1,3)] o by (auto split: option.splits if_splits)
  ultimately show ?thesis using g o by simp
qed

end
