(* ===== verification/TaskPool.thy ===== *)
theory TaskPool
  imports Prelude
begin

text \<open>
  The class \<open>ThreadPool\<close> (\<open>ThreadPool.h\<close>, \<open>ThreadPool.cpp\<close>): a queue of tasks and worker threads
  that take tasks from it until the pool is stopped and the queue is empty. The operations are
  functions on the pool; the workers and the callers interleave in the step relation \<open>tp_step\<close>,
  whose steps are the sections under \<open>queue_mutex\<close>.
\<close>

section \<open>The class\<close>

datatype 'a worker = Waiting | Running 'a | Exited

text \<open>\<open>tp_submitted\<close>, \<open>tp_started\<close> and \<open>tp_finished\<close> record the history of the pool.\<close>

record 'a thread_pool =
  tp_workers :: "'a worker list"
  tp_tasks :: "'a list"
  tp_stop :: bool
  tp_max_queue_size :: size_t
  tp_submitted :: "'a list"
  tp_started :: "'a list"
  tp_finished :: "'a list"

definition ThreadPool :: "nat \<Rightarrow> size_t \<Rightarrow> 'a thread_pool" where
  "ThreadPool threads maxQueueSize =
     \<lparr>tp_workers = replicate threads Waiting, tp_tasks = [], tp_stop = False,
      tp_max_queue_size = maxQueueSize, tp_submitted = [], tp_started = [], tp_finished = []\<rparr>"

definition tp_enqueue :: "'a \<Rightarrow> 'a thread_pool \<Rightarrow> 'a thread_pool" where
  "tp_enqueue task p = p\<lparr>tp_tasks := tp_tasks p @ [task], tp_submitted := tp_submitted p @ [task]\<rparr>"

definition tp_try_enqueue :: "'a \<Rightarrow> 'a thread_pool \<Rightarrow> bool \<times> 'a thread_pool" where
  "tp_try_enqueue task p =
     (if tp_stop p then (False, p)
      else if tp_max_queue_size p > 0 \<and> of_nat (length (tp_tasks p)) \<ge> tp_max_queue_size p then (False, p)
      else (True, tp_enqueue task p))"

definition tp_get_size :: "'a thread_pool \<Rightarrow> nat" where
  "tp_get_size p = length (tp_workers p)"

definition tp_get_queue_size :: "'a thread_pool \<Rightarrow> size_t" where
  "tp_get_queue_size p = of_nat (length (tp_tasks p))"

text \<open>The destructor's first section; it then joins the workers.\<close>

definition tp_shutdown :: "'a thread_pool \<Rightarrow> 'a thread_pool" where
  "tp_shutdown p = p\<lparr>tp_stop := True\<rparr>"

text \<open>
  A worker at the head of its loop: \<open>None\<close> while it waits on the condition variable, else it leaves
  the loop or takes the oldest task.
\<close>

definition tp_take :: "nat \<Rightarrow> 'a thread_pool \<Rightarrow> 'a thread_pool option" where
  "tp_take i p =
     (if \<not> (tp_stop p \<or> tp_tasks p \<noteq> []) then None
      else if tp_stop p \<and> tp_tasks p = [] then Some (p\<lparr>tp_workers := (tp_workers p)[i := Exited]\<rparr>)
      else Some (p\<lparr>tp_workers := (tp_workers p)[i := Running (hd (tp_tasks p))],
                   tp_tasks := tl (tp_tasks p), tp_started := tp_started p @ [hd (tp_tasks p)]\<rparr>))"

definition tp_done :: "nat \<Rightarrow> 'a \<Rightarrow> 'a thread_pool \<Rightarrow> 'a thread_pool" where
  "tp_done i task p = p\<lparr>tp_workers := (tp_workers p)[i := Waiting], tp_finished := tp_finished p @ [task]\<rparr>"

text \<open>
  The destructor of a pool without tasks: stop, wake the workers and join them one after the other.
  \<open>None\<close> is a worker that still has a task to run; what happens then is the subject of
  \<open>pool_shutdown_drains\<close>.
\<close>

fun join_workers :: "nat list \<Rightarrow> 'a thread_pool \<Rightarrow> 'a thread_pool option" where
  "join_workers [] p = Some p"
| "join_workers (i # is) p =
     (if tp_workers p ! i = Waiting then
        case tp_take i p of
          None \<Rightarrow> None
        | Some p \<Rightarrow> if tp_workers p ! i = Exited then join_workers is p else None
      else None)"

definition ThreadPool_destroy :: "'a thread_pool \<Rightarrow> 'a thread_pool option" where
  "ThreadPool_destroy p = join_workers [0..<length (tp_workers p)] (tp_shutdown p)"

text \<open>
  The parameter \<open>late\<close> says whether \<open>enqueue\<close> may be called on a pool that is being destroyed: the
  function does not check.
\<close>

inductive tp_step :: "bool \<Rightarrow> 'a thread_pool \<Rightarrow> 'a thread_pool \<Rightarrow> bool" for late where
  submit: "late \<or> \<not> tp_stop p \<Longrightarrow> tp_step late p (tp_enqueue task p)"
| try_submit: "tp_try_enqueue task p = (True, p') \<Longrightarrow> tp_step late p p'"
| shutdown: "tp_step late p (tp_shutdown p)"
| take_task: "i < length (tp_workers p) \<Longrightarrow> tp_workers p ! i = Waiting \<Longrightarrow> tp_take i p = Some p' \<Longrightarrow>
     tp_step late p p'"
| finish_task: "i < length (tp_workers p) \<Longrightarrow> tp_workers p ! i = Running task \<Longrightarrow>
     tp_step late p (tp_done i task p)"

inductive_cases tp_stepE: "tp_step late p p'"

section \<open>Destroying an idle pool\<close>

lemma join_idle:
  assumes "tp_stop p" and "tp_tasks p = []" and "tp_workers p = replicate k Exited @ replicate n Waiting"
  shows "join_workers [k..<k + n] p = Some (p\<lparr>tp_workers := replicate (k + n) Exited\<rparr>)"
  using assms
proof (induction n arbitrary: k p)
  case (Suc n)
  let ?p = "p\<lparr>tp_workers := (tp_workers p)[k := Exited]\<rparr>"
  have w: "tp_workers p ! k = Waiting" "tp_workers ?p = replicate (Suc k) Exited @ replicate n Waiting"
    using Suc.prems(3) by (simp_all add: nth_append list_update_append replicate_app_Cons_same)
  have "tp_workers ?p ! k = Exited" using Suc.prems(3) by simp
  moreover have "tp_take k p = Some ?p" using Suc.prems(1,2) by (simp add: tp_take_def)
  moreover have "[k..<k + Suc n] = k # [Suc k..<Suc k + n]" by (simp add: upt_conv_Cons del: upt_Suc)
  ultimately show ?case using Suc.IH [of ?p "Suc k"] w Suc.prems(1,2) by (simp del: upt_Suc)
qed simp

lemma ThreadPool_destroy_idle:
  assumes "tp_tasks p = []" and "tp_workers p = replicate n Waiting"
  shows "ThreadPool_destroy p = Some (p\<lparr>tp_stop := True, tp_workers := replicate n Exited\<rparr>)"
  using join_idle [of "tp_shutdown p" 0 n] assms by (simp add: ThreadPool_destroy_def tp_shutdown_def)

section \<open>Invariant\<close>

definition running :: "'a worker \<Rightarrow> 'a list" where
  "running w = (case w of Running t \<Rightarrow> [t] | _ \<Rightarrow> [])"

definition tp_running :: "'a thread_pool \<Rightarrow> 'a list" where
  "tp_running p = concat (map running (tp_workers p))"

text \<open>
  Tasks are started in the order of submission, a started task is running or finished, and once a
  worker has left, the pool is stopped and the queue is empty.
\<close>

definition tp_inv :: "bool \<Rightarrow> 'a thread_pool \<Rightarrow> bool" where
  "tp_inv late p \<longleftrightarrow> tp_submitted p = tp_started p @ tp_tasks p
     \<and> (\<forall>t. count_list (tp_started p) t = count_list (tp_finished p) t + count_list (tp_running p) t)
     \<and> (Exited \<in> set (tp_workers p) \<longrightarrow> tp_stop p \<and> (late \<or> tp_tasks p = []))"

lemma running_simps [simp]: "running Waiting = []" "running (Running t) = [t]" "running Exited = []"
  by (simp_all add: running_def)

lemma count_concat_update:
  assumes "i < length ws"
  shows "count_list (concat (map running (ws[i := w]))) t + count_list (running (ws ! i)) t =
    count_list (concat (map running ws)) t + count_list (running w) t"
  using assms
proof (induction ws arbitrary: i)
  case (Cons a ws)
  then show ?case by (cases i) (auto simp: count_list_append)
qed simp

lemma tp_running_update:
  assumes "i < length (tp_workers p)" and "tp_workers p' = (tp_workers p)[i := w]"
  shows "count_list (tp_running p') t + count_list (running (tp_workers p ! i)) t =
    count_list (tp_running p) t + count_list (running w) t"
  using count_concat_update [OF assms(1)] assms(2) by (simp add: tp_running_def)

lemma tp_running_new [simp]: "tp_running (ThreadPool n m) = []"
  by (simp add: tp_running_def ThreadPool_def)

lemma ThreadPool_inv: "tp_inv late (ThreadPool n m)"
  unfolding tp_inv_def tp_running_new by (simp add: ThreadPool_def)

lemma tp_try_enqueue_True:
  "tp_try_enqueue task p = (True, p') \<Longrightarrow> p' = tp_enqueue task p \<and> \<not> tp_stop p
     \<and> (tp_max_queue_size p = 0 \<or> of_nat (length (tp_tasks p)) < tp_max_queue_size p)"
  by (auto simp: tp_try_enqueue_def word_gt_0 split: if_splits)

lemma tp_enqueue_inv: "tp_inv late p \<Longrightarrow> late \<or> \<not> tp_stop p \<Longrightarrow> tp_inv late (tp_enqueue task p)"
  by (auto simp: tp_inv_def tp_enqueue_def tp_running_def)

lemma tp_step_inv:
  assumes "tp_step late p p'" and inv: "tp_inv late p"
  shows "tp_inv late p'"
  using assms(1)
proof cases
  case (submit task)
  show ?thesis unfolding submit(1) using inv submit(2) by (rule tp_enqueue_inv)
next
  case (try_submit task)
  then have "p' = tp_enqueue task p" "late \<or> \<not> tp_stop p" by (auto dest: tp_try_enqueue_True)
  with inv show ?thesis by (simp add: tp_enqueue_inv)
next
  case shutdown
  then show ?thesis using inv by (simp add: tp_inv_def tp_shutdown_def tp_running_def)
next
  case (take_task i)
  consider (exit) "tp_stop p" "tp_tasks p = []" "p' = p\<lparr>tp_workers := (tp_workers p)[i := Exited]\<rparr>"
    | (go) t ts where "tp_tasks p = t # ts" "p' = p\<lparr>tp_workers := (tp_workers p)[i := Running t],
          tp_tasks := ts, tp_started := tp_started p @ [t]\<rparr>"
    using take_task(3) by (cases "tp_tasks p") (auto simp: tp_take_def split: if_splits)
  then show ?thesis
  proof cases
    case exit
    then show ?thesis
      using inv tp_running_update [OF take_task(1), of p' Exited] take_task(2) by (simp add: tp_inv_def)
  next
    case go
    have "Exited \<notin> set (tp_workers p')" if "Exited \<notin> set (tp_workers p)"
      using that go(2) set_update_subset_insert [of "tp_workers p" i "Running t"] by auto
    then show ?thesis
      using inv go tp_running_update [OF take_task(1), of p' "Running t"] take_task(2)
      by (auto simp: tp_inv_def count_list_append)
  qed
next
  case (finish_task i task)
  have "Exited \<notin> set (tp_workers p')" if "Exited \<notin> set (tp_workers p)"
    using that finish_task(1) set_update_subset_insert [of "tp_workers p" i Waiting] by (auto simp: tp_done_def)
  moreover have "tp_submitted p' = tp_submitted p" "tp_started p' = tp_started p" "tp_tasks p' = tp_tasks p"
    "tp_stop p' = tp_stop p" "tp_finished p' = tp_finished p @ [task]"
    using finish_task(1) by (simp_all add: tp_done_def)
  moreover have "count_list (tp_running p) t = count_list (tp_running p') t + (if task = t then 1 else 0)" for t
  proof -
    have "tp_workers p' = (tp_workers p)[i := Waiting]" using finish_task(1) by (simp add: tp_done_def)
    from tp_running_update [OF finish_task(2) this, of t] show ?thesis
      using finish_task(3) by (auto split: if_splits)
  qed
  ultimately show ?thesis
    using inv by (auto simp: tp_inv_def count_list_append)
qed

lemma tp_reach_inv: "(tp_step late)\<^sup>*\<^sup>* p p' \<Longrightarrow> tp_inv late p \<Longrightarrow> tp_inv late p'"
  by (induction rule: rtranclp_induct) (auto intro: tp_step_inv)

section \<open>Shutting down\<close>

text \<open>The steps of the workers alone, which is what is left to happen once the pool is destroyed.\<close>

inductive tp_work :: "'a thread_pool \<Rightarrow> 'a thread_pool \<Rightarrow> bool" where
  work_take: "i < length (tp_workers p) \<Longrightarrow> tp_workers p ! i = Waiting \<Longrightarrow> tp_take i p = Some p' \<Longrightarrow>
     tp_work p p'"
| work_done: "i < length (tp_workers p) \<Longrightarrow> tp_workers p ! i = Running task \<Longrightarrow>
     tp_work p (tp_done i task p)"

lemma tp_work_step: "tp_work p p' \<Longrightarrow> tp_step late p p'"
  by (auto elim: tp_work.cases intro: tp_step.intros)

fun worker_weight :: "'a worker \<Rightarrow> nat" where
  "worker_weight Waiting = 1"
| "worker_weight (Running t) = 2"
| "worker_weight Exited = 0"

definition tp_weight :: "'a thread_pool \<Rightarrow> nat" where
  "tp_weight p = 3 * length (tp_tasks p) + sum_list (map worker_weight (tp_workers p))"

lemma sum_weight_update:
  "i < length ws \<Longrightarrow> sum_list (map worker_weight (ws[i := w])) + worker_weight (ws ! i) =
     sum_list (map worker_weight ws) + worker_weight w"
proof (induction ws arbitrary: i)
  case (Cons a ws)
  then show ?case by (cases i) auto
qed simp

lemma tp_work_weight: "tp_work p p' \<Longrightarrow> tp_weight p' < tp_weight p"
proof (induction rule: tp_work.induct)
  case (work_take i p p')
  then show ?case
    using sum_weight_update [OF work_take(1), of Exited]
      sum_weight_update [OF work_take(1), of "Running (hd (tp_tasks p))"]
    by (cases "tp_tasks p") (auto simp: tp_take_def tp_weight_def split: if_splits)
next
  case (work_done i p task)
  then show ?case
    using sum_weight_update [OF work_done(1), of Waiting] by (simp add: tp_done_def tp_weight_def)
qed

lemma tp_work_stop: "tp_work p p' \<Longrightarrow> tp_stop p' = tp_stop p \<and> tp_submitted p' = tp_submitted p
    \<and> length (tp_workers p') = length (tp_workers p)"
  by (auto elim!: tp_work.cases simp: tp_take_def tp_done_def split: if_splits)

text \<open>A stopped pool with a worker that has not left can always go on.\<close>

lemma tp_work_progress:
  assumes "tp_stop p" and "\<exists>w \<in> set (tp_workers p). w \<noteq> Exited"
  shows "\<exists>p'. tp_work p p'"
proof -
  obtain i where i: "i < length (tp_workers p)" "tp_workers p ! i \<noteq> Exited"
    using assms(2) by (metis in_set_conv_nth)
  show ?thesis
  proof (cases "tp_workers p ! i")
    case Waiting
    moreover obtain p' where "tp_take i p = Some p'"
      using assms(1) by (cases "tp_tasks p = []") (auto simp: tp_take_def)
    ultimately show ?thesis using i by (blast intro: work_take)
  next
    case (Running t)
    then show ?thesis using i by (blast intro: work_done)
  qed (use i in simp)
qed

lemma tp_drains:
  assumes "tp_stop p"
  shows "\<exists>p'. tp_work\<^sup>*\<^sup>* p p' \<and> set (tp_workers p') \<subseteq> {Exited}"
  using assms
proof (induction "tp_weight p" arbitrary: p rule: less_induct)
  case less
  show ?case
  proof (cases "\<exists>w \<in> set (tp_workers p). w \<noteq> Exited")
    case True
    then obtain q where q: "tp_work p q" using tp_work_progress less.prems by blast
    then obtain p' where "tp_work\<^sup>*\<^sup>* q p'" "set (tp_workers p') \<subseteq> {Exited}"
      using less.hyps tp_work_weight tp_work_stop less.prems by metis
    with q show ?thesis by (meson converse_rtranclp_into_rtranclp)
  qed auto
qed

lemma all_exited:
  assumes "tp_inv False p" and "set (tp_workers p) \<subseteq> {Exited}" and "tp_workers p \<noteq> []"
  shows "tp_tasks p = [] \<and> tp_submitted p = tp_started p
    \<and> (\<forall>t. count_list (tp_submitted p) t = count_list (tp_finished p) t)"
proof -
  have "running w = []" if "w \<in> set (tp_workers p)" for w using that assms(2) by auto
  then have "tp_running p = []" by (simp add: tp_running_def)
  moreover have "Exited \<in> set (tp_workers p)" using assms(2,3) by (cases "tp_workers p") auto
  ultimately show ?thesis using assms(1) by (simp add: tp_inv_def)
qed

section \<open>A bounded queue\<close>

text \<open>The steps of a pool whose callers only use \<open>try_enqueue\<close>, like the business pool.\<close>

inductive tp_bounded_step :: "'a thread_pool \<Rightarrow> 'a thread_pool \<Rightarrow> bool" where
  "tp_try_enqueue task p = (True, p') \<Longrightarrow> tp_bounded_step p p'"
| "tp_bounded_step p (tp_shutdown p)"
| "tp_work p p' \<Longrightarrow> tp_bounded_step p p'"

lemma tp_bounded_step_queue:
  assumes "tp_bounded_step p p'" and "length (tp_tasks p) \<le> unat (tp_max_queue_size p)"
    and "0 < tp_max_queue_size p"
  shows "length (tp_tasks p') \<le> unat (tp_max_queue_size p') \<and> tp_max_queue_size p' = tp_max_queue_size p"
  using assms(1)
proof cases
  case (1 task)
  have "unat (of_nat (length (tp_tasks p)) :: size_t) = length (tp_tasks p)"
    using assms(2) unat_lt_64 [of "tp_max_queue_size p"] by (intro unat_of_nat_64) simp
  moreover have "p' = tp_enqueue task p" "of_nat (length (tp_tasks p)) < tp_max_queue_size p"
    using tp_try_enqueue_True [OF 1] assms(3) by auto
  ultimately show ?thesis by (simp add: tp_enqueue_def word_less_nat_alt)
next
  case 2
  then show ?thesis using assms(2) by (simp add: tp_shutdown_def)
next
  case 3
  then show ?thesis
    using assms(2) by (auto elim!: tp_work.cases simp: tp_take_def tp_done_def split: if_splits)
qed

lemma tp_bounded_reach:
  assumes "tp_bounded_step\<^sup>*\<^sup>* p p'" and "length (tp_tasks p) \<le> unat (tp_max_queue_size p)"
    and "0 < tp_max_queue_size p"
  shows "length (tp_tasks p') \<le> unat (tp_max_queue_size p) \<and> tp_max_queue_size p' = tp_max_queue_size p"
  using assms(1)
proof induction
  case (step q r)
  then show ?case using tp_bounded_step_queue [OF step(2)] assms(3) by auto
qed (use assms in simp)

section \<open>Properties\<close>

text \<open>
  (C20) The pool runs tasks in the order of submission and none twice: in every state that callers
  and workers can reach, the started tasks followed by the queued ones are the submitted ones, and
  every started task is finished or on exactly one worker.
\<close>

theorem pool_is_fifo:
  assumes "(tp_step late)\<^sup>*\<^sup>* (ThreadPool n m) p"
  shows "tp_submitted p = tp_started p @ tp_tasks p
    \<and> (\<forall>t. count_list (tp_started p) t = count_list (tp_finished p) t + count_list (tp_running p) t)"
  using tp_reach_inv [OF assms ThreadPool_inv] by (simp add: tp_inv_def)

theorem pool_is_fifo_witness:
  "\<exists>p. (tp_step True)\<^sup>*\<^sup>* (ThreadPool 1 0) p \<and> tp_submitted p = tp_started p @ tp_tasks p
     \<and> tp_submitted p = [7 :: nat]"
proof -
  have "tp_step True (ThreadPool 1 0) (tp_enqueue (7 :: nat) (ThreadPool 1 0))"
    by (rule tp_step.submit) simp
  then have r: "(tp_step True)\<^sup>*\<^sup>* (ThreadPool 1 0) (tp_enqueue (7 :: nat) (ThreadPool 1 0))" by (rule r_into_rtranclp)
  moreover have "tp_submitted (tp_enqueue (7 :: nat) (ThreadPool 1 0)) = [7]"
    by (simp add: tp_enqueue_def ThreadPool_def)
  ultimately show ?thesis using pool_is_fifo [OF r] by blast
qed

text \<open>
  (C21) Destroying a pool loses no task and ends: if nothing is enqueued once the pool is stopped,
  the workers can always go on until all of them have left, no run of them is infinite (each step
  lowers a measure), and then every submitted task has been run exactly as often as it was
  submitted.
\<close>

theorem pool_shutdown_drains:
  assumes "(tp_step False)\<^sup>*\<^sup>* (ThreadPool n m) p" and "tp_stop p" and "0 < n"
  shows "(\<exists>p'. tp_work\<^sup>*\<^sup>* p p' \<and> set (tp_workers p') \<subseteq> {Exited})
    \<and> (\<forall>q q'. tp_work q q' \<longrightarrow> tp_weight q' < tp_weight (q :: 'a thread_pool))
    \<and> (\<forall>p'. tp_work\<^sup>*\<^sup>* p p' \<and> set (tp_workers p') \<subseteq> {Exited} \<longrightarrow> tp_tasks p' = []
          \<and> (\<forall>t :: 'a. count_list (tp_finished p') t = count_list (tp_submitted p) t))"
proof (intro conjI allI impI)
  show "\<exists>p'. tp_work\<^sup>*\<^sup>* p p' \<and> set (tp_workers p') \<subseteq> {Exited}" using assms(2) by (rule tp_drains)
  show "tp_work q q' \<Longrightarrow> tp_weight q' < tp_weight q" for q q' :: "'a thread_pool" by (rule tp_work_weight)
  fix p' t assume r: "tp_work\<^sup>*\<^sup>* p p' \<and> set (tp_workers p') \<subseteq> {Exited}"
  have inv: "tp_inv False p" by (rule tp_reach_inv [OF assms(1) ThreadPool_inv])
  have len: "length (tp_workers p) = n"
    using assms(1)
  proof induction
    case (step a b)
    then show ?case
      by (auto elim!: tp_stepE dest: tp_try_enqueue_True
          simp: tp_enqueue_def tp_shutdown_def tp_take_def tp_done_def split: if_splits)
  qed (simp add: ThreadPool_def)
  from r have "tp_work\<^sup>*\<^sup>* p p'" by simp
  then have "tp_inv False p' \<and> tp_submitted p' = tp_submitted p \<and> length (tp_workers p') = n"
  proof induction
    case (step a b)
    then show ?case using tp_step_inv [OF tp_work_step [OF step(2)]] tp_work_stop [OF step(2)] by simp
  qed (use inv len in simp)
  then show "tp_tasks p' = []" and "count_list (tp_finished p') t = count_list (tp_submitted p) t"
    using all_exited [of p'] r assms(3) by auto
qed

theorem pool_shutdown_drains_witness:
  "\<exists>p'. tp_work\<^sup>*\<^sup>* (tp_shutdown (tp_enqueue (7 :: nat) (ThreadPool 2 0))) p'
     \<and> set (tp_workers p') \<subseteq> {Exited}"
proof -
  have "tp_step False (ThreadPool 2 0) (tp_enqueue (7 :: nat) (ThreadPool 2 0))"
    by (rule tp_step.submit) (simp add: ThreadPool_def)
  then have "(tp_step False)\<^sup>*\<^sup>* (ThreadPool 2 0) (tp_shutdown (tp_enqueue (7 :: nat) (ThreadPool 2 0)))"
    by (meson r_into_rtranclp rtranclp.rtrancl_into_rtrancl tp_step.shutdown)
  from pool_shutdown_drains [OF this] show ?thesis by (simp add: tp_shutdown_def)
qed

text \<open>
  The business queue is bounded: as long as tasks are submitted with \<open>try_enqueue\<close> only, the
  queue of a pool made with a positive limit never holds more tasks than the limit.
\<close>

theorem pool_queue_bounded:
  assumes "tp_bounded_step\<^sup>*\<^sup>* (ThreadPool n m) p" and "0 < m"
  shows "length (tp_tasks p) \<le> unat m"
  using tp_bounded_reach [OF assms(1)] assms(2) by (simp add: ThreadPool_def)

theorem pool_queue_bounded_witness:
  "length (tp_tasks (tp_enqueue (7 :: nat) (ThreadPool 12 50000))) \<le> 50000"
proof -
  have "tp_bounded_step (ThreadPool 12 50000) (tp_enqueue (7 :: nat) (ThreadPool 12 50000))"
    by (rule tp_bounded_step.intros(1) [of 7]) (simp add: tp_try_enqueue_def ThreadPool_def)
  from pool_queue_bounded [OF r_into_rtranclp [where r = tp_bounded_step, OF this]] show ?thesis by simp
qed

end
