(* ===== verification/ConnPool.thy ===== *)
theory ConnPool
  imports Json "HOL-Library.Multiset"
begin

text \<open>
  The connection pools \<open>DBConnectionPool\<close> and \<open>RedisConnectionPool\<close>. A connection is an opaque
  handle of the client library; what the library answers when connections are opened is an
  argument of \<open>init\<close>. \<open>getConnection\<close> waits while the queue is empty, which is the result \<open>None\<close>;
  the deleter of the smart pointer puts the connection back. Both classes keep the contract
  \<open>connection_pool\<close>, from which exclusive use and the limits of nested use follow.
\<close>

section \<open>DBConnectionPool\<close>

record 'c db_pool =
  m_host :: string
  m_user :: string
  m_password :: string
  m_dbname :: string
  m_port :: int
  m_poolSize :: int
  m_connections :: "'c list"
  m_closed :: "'c list"

definition db_configure :: "string \<Rightarrow> string \<Rightarrow> string \<Rightarrow> string \<Rightarrow> int \<Rightarrow> int \<Rightarrow> 'c db_pool \<Rightarrow> 'c db_pool" where
  "db_configure host user password dbname port poolSize p =
     p\<lparr>m_host := host, m_user := user, m_password := password, m_dbname := dbname,
       m_port := port, m_poolSize := poolSize\<rparr>"

text \<open>The loop of \<open>closeAll\<close>: close the front connection and pop it.\<close>

fun close_loop :: "'c list \<Rightarrow> 'c list \<Rightarrow> 'c list" where
  "close_loop [] closed = closed"
| "close_loop (c # cs) closed = close_loop cs (closed @ [c])"

definition db_closeAll :: "'c db_pool \<Rightarrow> 'c db_pool" where
  "db_closeAll p = p\<lparr>m_connections := [], m_closed := close_loop (m_connections p) (m_closed p)\<rparr>"

text \<open>
  \<open>init\<close>: \<open>mysql_init\<close> answers the \<open>i\<close>-th call with a handle or \<open>NULL\<close>, \<open>mysql_real_connect\<close> says
  whether the handle could be connected with the configured parameters.
\<close>

fun db_init_loop :: "(nat \<Rightarrow> 'c option) \<Rightarrow> ('c \<Rightarrow> bool) \<Rightarrow> nat \<Rightarrow> nat \<Rightarrow> 'c db_pool \<Rightarrow> bool \<times> 'c db_pool" where
  "db_init_loop mysql_init connect i 0 p = (True, p)"
| "db_init_loop mysql_init connect i (Suc n) p =
     (case mysql_init i of
        None \<Rightarrow> (False, db_closeAll p)
      | Some conn \<Rightarrow>
          if \<not> connect conn then (False, db_closeAll (p\<lparr>m_closed := m_closed p @ [conn]\<rparr>))
          else db_init_loop mysql_init connect (Suc i) n (p\<lparr>m_connections := m_connections p @ [conn]\<rparr>))"

definition db_init :: "(nat \<Rightarrow> 'c option) \<Rightarrow> ('c \<Rightarrow> bool) \<Rightarrow> 'c db_pool \<Rightarrow> bool \<times> 'c db_pool" where
  "db_init mysql_init connect p = db_init_loop mysql_init connect 0 (nat (m_poolSize p)) p"

definition db_getConnection :: "'c db_pool \<Rightarrow> ('c \<times> 'c db_pool) option" where
  "db_getConnection p =
     (case m_connections p of [] \<Rightarrow> None | conn # rest \<Rightarrow> Some (conn, p\<lparr>m_connections := rest\<rparr>))"

definition db_release :: "'c \<Rightarrow> 'c db_pool \<Rightarrow> 'c db_pool" where
  "db_release conn p = p\<lparr>m_connections := m_connections p @ [conn]\<rparr>"

section \<open>RedisConnectionPool\<close>

record 'c redis_pool =
  r_host :: string
  r_port :: int
  r_poolSize :: int
  r_connections :: "'c list"
  r_freed :: "'c list"

definition redis_configure :: "string \<Rightarrow> int \<Rightarrow> int \<Rightarrow> 'c redis_pool \<Rightarrow> 'c redis_pool" where
  "redis_configure host port poolSize p = p\<lparr>r_host := host, r_port := port, r_poolSize := poolSize\<rparr>"

definition redis_closeAll :: "'c redis_pool \<Rightarrow> 'c redis_pool" where
  "redis_closeAll p = p\<lparr>r_connections := [], r_freed := close_loop (r_connections p) (r_freed p)\<rparr>"

text \<open>\<open>redisConnect\<close> answers the \<open>i\<close>-th call with a context or \<open>NULL\<close>; the context may carry an error.\<close>

fun redis_init_loop :: "(nat \<Rightarrow> 'c option) \<Rightarrow> ('c \<Rightarrow> bool) \<Rightarrow> nat \<Rightarrow> nat \<Rightarrow> 'c redis_pool \<Rightarrow> bool \<times> 'c redis_pool" where
  "redis_init_loop redisConnect err i 0 p = (True, p)"
| "redis_init_loop redisConnect err i (Suc n) p =
     (case redisConnect i of
        None \<Rightarrow> (False, redis_closeAll p)
      | Some conn \<Rightarrow>
          if err conn then (False, redis_closeAll (p\<lparr>r_freed := r_freed p @ [conn]\<rparr>))
          else redis_init_loop redisConnect err (Suc i) n (p\<lparr>r_connections := r_connections p @ [conn]\<rparr>))"

definition redis_init :: "(nat \<Rightarrow> 'c option) \<Rightarrow> ('c \<Rightarrow> bool) \<Rightarrow> 'c redis_pool \<Rightarrow> bool \<times> 'c redis_pool" where
  "redis_init redisConnect err p = redis_init_loop redisConnect err 0 (nat (r_poolSize p)) p"

definition redis_getConnection :: "'c redis_pool \<Rightarrow> ('c \<times> 'c redis_pool) option" where
  "redis_getConnection p =
     (case r_connections p of [] \<Rightarrow> None | conn # rest \<Rightarrow> Some (conn, p\<lparr>r_connections := rest\<rparr>))"

definition redis_release :: "'c \<Rightarrow> 'c redis_pool \<Rightarrow> 'c redis_pool" where
  "redis_release conn p = p\<lparr>r_connections := r_connections p @ [conn]\<rparr>"

section \<open>Threads that use a pool\<close>

text \<open>
  A schedule of threads that take and give back connections. \<open>held\<close> lists who holds which
  connection, the latest first; a thread gives back the one it took last, as nested smart
  pointers do. A \<open>Get\<close> on an empty pool blocks: the schedule cannot go on that way.
\<close>

datatype pool_op = Get nat | Put nat

fun pool_run :: "('p \<Rightarrow> ('c \<times> 'p) option) \<Rightarrow> ('c \<Rightarrow> 'p \<Rightarrow> 'p) \<Rightarrow> pool_op list
    \<Rightarrow> 'p \<times> (nat \<times> 'c) list \<Rightarrow> ('p \<times> (nat \<times> 'c) list) option" where
  "pool_run acquire release [] s = Some s"
| "pool_run acquire release (Get t # ops) (p, held) =
     (case acquire p of None \<Rightarrow> None | Some (c, p') \<Rightarrow> pool_run acquire release ops (p', (t, c) # held))"
| "pool_run acquire release (Put t # ops) (p, held) =
     (case map_of held t of
        None \<Rightarrow> None
      | Some c \<Rightarrow> pool_run acquire release ops (release c p, remove1 (t, c) held))"

lemma mset_map_remove1:
  "x \<in> set xs \<Longrightarrow> mset (map f xs) = add_mset (f x) (mset (map f (remove1 x xs)))"
  by (induction xs) auto

locale connection_pool =
  fixes idle :: "'p \<Rightarrow> 'c list"
    and acquire :: "'p \<Rightarrow> ('c \<times> 'p) option"
    and release :: "'c \<Rightarrow> 'p \<Rightarrow> 'p"
  assumes acquire_none: "acquire p = None \<longleftrightarrow> idle p = []"
    and acquire_some: "acquire p = Some (c, p') \<Longrightarrow> idle p = c # idle p'"
    and idle_release: "idle (release c p) = idle p @ [c]"
begin

lemma run_conserves:
  "pool_run acquire release ops (p, held) = Some (p', held') \<Longrightarrow>
   mset (idle p') + mset (map snd held') = mset (idle p) + mset (map snd held)"
proof (induction ops arbitrary: p held)
  case (Cons op ops)
  show ?case
  proof (cases op)
    case (Get t)
    then show ?thesis
      using Cons by (auto split: option.splits prod.splits dest!: acquire_some)
  next
    case (Put t)
    then obtain c where c: "map_of held t = Some c"
        and r: "pool_run acquire release ops (release c p, remove1 (t, c) held) = Some (p', held')"
      using Cons.prems by (auto split: option.splits)
    have "mset (map snd held) = mset (map snd (remove1 (t, c) held)) + {#c#}"
      using mset_map_remove1 [OF map_of_SomeD [OF c], of snd] by simp
    then show ?thesis using Cons.IH [OF r] by (simp add: idle_release)
  qed
qed simp

lemma run_exclusive:
  assumes "pool_run acquire release ops (p, []) = Some (p', held)" and "distinct (idle p)"
  shows "distinct (map snd held) \<and> set (map snd held) \<inter> set (idle p') = {}
    \<and> length held + length (idle p') = length (idle p)"
proof -
  have m: "mset (idle p' @ map snd held) = mset (idle p)" using run_conserves [OF assms(1)] by simp
  then have "distinct (idle p' @ map snd held)" using assms(2) mset_eq_imp_distinct_iff by blast
  moreover have "length (idle p' @ map snd held) = length (idle p)" using m by (rule mset_eq_length)
  ultimately show ?thesis by auto
qed

text \<open>After as many \<open>Get\<close>s as there are connections, every thread that wants another one waits.\<close>

lemma run_gets:
  "length ts = length (idle p) \<Longrightarrow>
   \<exists>p'. pool_run acquire release (map Get ts) (p, held) = Some (p', zip (rev ts) (rev (idle p)) @ held)
     \<and> idle p' = []"
proof (induction ts arbitrary: p held)
  case (Cons t ts)
  then obtain c p' where a: "acquire p = Some (c, p')"
    using acquire_none [of p] by (cases "acquire p") auto
  then have i: "idle p = c # idle p'" by (rule acquire_some)
  have "zip (rev (t # ts)) (rev (idle p)) = zip (rev ts) (rev (idle p')) @ [(t, c)]"
    using Cons.prems i by simp
  then show ?case
    using Cons.IH [of p' "(t, c) # held"] Cons.prems a i by auto
qed simp

lemma run_blocked: "idle p = [] \<Longrightarrow> pool_run acquire release (Get t # ops) (p, held) = None"
  using acquire_none [of p] by simp

end

interpretation db: connection_pool m_connections db_getConnection db_release
  by unfold_locales (auto simp: db_getConnection_def db_release_def split: list.splits)

interpretation redis: connection_pool r_connections redis_getConnection redis_release
  by unfold_locales (auto simp: redis_getConnection_def redis_release_def split: list.splits)

section \<open>Start-up\<close>

text \<open>\<open>initDB\<close> and \<open>initRedis\<close> of the server; the environment variables are arguments.\<close>

definition initDB :: "(nat \<Rightarrow> 'c option) \<Rightarrow> ('c \<Rightarrow> bool) \<Rightarrow> 'c db_pool \<Rightarrow> bool \<times> 'c db_pool" where
  "initDB mysql_init connect p =
     db_init mysql_init connect
       (db_configure ''192.168.56.101'' ''root_1'' ''123456Zxj!'' ''chat_system'' 0 20 p)"

text \<open>\<open>std::atoi\<close> on values in the range of \<open>int\<close>: white space, a sign, then digits.\<close>

definition is_space :: "char \<Rightarrow> bool" where
  "is_space c \<longleftrightarrow> c \<in> {CHR '' '', CHR 0x09, CHR 0x0A, CHR 0x0B, CHR 0x0C, CHR 0x0D}"

fun atoi_digits :: "int \<Rightarrow> string \<Rightarrow> int" where
  "atoi_digits acc [] = acc"
| "atoi_digits acc (c # cs) =
     (if isdigit c then atoi_digits (10 * acc + (of_char c - 48)) cs else acc)"

definition atoi :: "string \<Rightarrow> int" where
  "atoi s =
     (case dropWhile is_space s of
        [] \<Rightarrow> 0
      | c # cs \<Rightarrow> if c = CHR ''-'' then - atoi_digits 0 cs
                 else if c = CHR ''+'' then atoi_digits 0 cs else atoi_digits 0 (c # cs))"

definition initRedis :: "string option \<Rightarrow> string option \<Rightarrow> string option
    \<Rightarrow> (nat \<Rightarrow> 'c option) \<Rightarrow> ('c \<Rightarrow> bool) \<Rightarrow> 'c redis_pool \<Rightarrow> bool \<times> 'c redis_pool" where
  "initRedis redisHost redisPort redisPoolSize redisConnect err p =
     (let host = (case redisHost of Some h \<Rightarrow> h | None \<Rightarrow> ''127.0.0.1'');
          port = (case redisPort of Some s \<Rightarrow> atoi s | None \<Rightarrow> 6379);
          poolSize = (case redisPoolSize of Some s \<Rightarrow> atoi s | None \<Rightarrow> 16);
          poolSize = (if poolSize \<le> 0 then 16 else poolSize)
      in redis_init redisConnect err (redis_configure host port poolSize p))"

lemma close_loop_append: "close_loop cs closed = closed @ cs"
  by (induction cs arbitrary: closed) auto

text \<open>The handles that the library gave out in the calls \<open>i\<close> to \<open>i + n - 1\<close>.\<close>

definition opened :: "(nat \<Rightarrow> 'c option) \<Rightarrow> nat \<Rightarrow> nat \<Rightarrow> 'c list" where
  "opened open_conn i n = map (\<lambda>j. the (open_conn j)) [i..<i + n]"

lemma opened_Suc: "opened f i (Suc n) = the (f i) # opened f (Suc i) n"
  by (simp add: opened_def upt_conv_Cons del: upt_Suc)

lemma db_init_loop_ok:
  "(\<forall>j \<in> {i..<i + n}. \<exists>c. mysql_init j = Some c \<and> connect c) \<Longrightarrow>
   db_init_loop mysql_init connect i n p =
     (True, p\<lparr>m_connections := m_connections p @ opened mysql_init i n\<rparr>)"
proof (induction n arbitrary: i p)
  case (Suc n)
  obtain c where c: "mysql_init i = Some c" "connect c" using Suc.prems by force
  have "\<forall>j \<in> {Suc i..<Suc i + n}. \<exists>c. mysql_init j = Some c \<and> connect c" using Suc.prems by simp
  from Suc.IH [OF this] show ?case using c by (simp add: opened_Suc)
qed (simp add: opened_def)

lemma db_init_loop_fails:
  assumes "db_init_loop mysql_init connect i n p = (False, p')"
  shows "m_connections p' = []
    \<and> (\<exists>k < n. m_closed p' = m_closed p @ (case mysql_init (i + k) of None \<Rightarrow> [] | Some c \<Rightarrow> [c])
         @ m_connections p @ opened mysql_init i k
       \<and> (\<forall>c. mysql_init (i + k) = Some c \<longrightarrow> \<not> connect c))"
  using assms
proof (induction n arbitrary: i p)
  case (Suc n)
  show ?case
  proof (cases "\<exists>c. mysql_init i = Some c \<and> connect c")
    case True
    then obtain c where c: "mysql_init i = Some c" "connect c" by blast
    let ?p = "p\<lparr>m_connections := m_connections p @ [c]\<rparr>"
    have "db_init_loop mysql_init connect (Suc i) n ?p = (False, p')" using Suc.prems c by simp
    from Suc.IH [OF this] obtain k where k: "m_connections p' = []" "k < n"
        "m_closed p' = m_closed p @ (case mysql_init (Suc i + k) of None \<Rightarrow> [] | Some c \<Rightarrow> [c])
          @ (m_connections p @ [c]) @ opened mysql_init (Suc i) k"
        "\<forall>c. mysql_init (Suc i + k) = Some c \<longrightarrow> \<not> connect c" by auto
    have "opened mysql_init i (Suc k) = c # opened mysql_init (Suc i) k" using c by (simp add: opened_Suc)
    with k show ?thesis by (intro conjI exI [of _ "Suc k"]) (simp_all only: Suc_less_eq add_Suc_right add_Suc append_assoc append_Cons append_Nil)
  next
    case False
    with Suc.prems show ?thesis
      by (intro conjI exI [of _ 0])
        (auto simp: db_closeAll_def close_loop_append opened_def split: option.splits if_splits)
  qed
qed simp

lemma redis_init_loop_size:
  "redis_init_loop redisConnect err i n p = (True, p') \<Longrightarrow>
   length (r_connections p') = length (r_connections p) + n"
  by (induction n arbitrary: i p) (auto split: option.splits if_splits)

section \<open>Properties\<close>

text \<open>
  A failed start of the database pool leaks nothing: if \<open>init\<close> of an empty pool returns false,
  the pool is empty again and every handle that the library gave out, the last one that could not
  be connected included, has been closed exactly once.
\<close>

theorem db_init_failure_closes_all:
  assumes "db_init mysql_init connect p = (False, p')" and "m_connections p = []" and "m_closed p = []"
  shows "m_connections p' = []
    \<and> (\<exists>k < nat (m_poolSize p). mset (m_closed p') =
         mset (opened mysql_init 0 k) + (case mysql_init k of None \<Rightarrow> {#} | Some c \<Rightarrow> {#c#}))"
  using db_init_loop_fails [OF assms(1) [unfolded db_init_def]] assms(2,3)
  by (auto split: option.splits simp: ac_simps)

definition empty_db :: "nat db_pool" where
  "empty_db = \<lparr>m_host = '''', m_user = '''', m_password = '''', m_dbname = '''', m_port = 0,
     m_poolSize = 3, m_connections = [], m_closed = []\<rparr>"

theorem db_init_failure_closes_all_witness:
  "\<exists>p'. db_init Some (\<lambda>c. c < 2) empty_db = (False, p') \<and> m_connections p' = []"
proof -
  obtain b p' where r: "db_init Some (\<lambda>c. c < 2) empty_db = (b, p')"
    by (cases "db_init Some (\<lambda>c. c < 2) empty_db")
  then have "b = False" by (simp add: db_init_def empty_db_def numeral_3_eq_3)
  with r db_init_failure_closes_all [of Some "\<lambda>c. c < 2" empty_db p'] show ?thesis
    by (simp add: empty_db_def)
qed

text \<open>
  (C22) A connection is never in two hands: in every schedule of threads that take connections from
  the database pool and give them back, starting from a pool of distinct connections, the held
  connections are distinct and not in the pool, and none gets lost.
\<close>

theorem connections_exclusive:
  assumes "pool_run db_getConnection db_release ops (p, []) = Some (p', held)"
    and "distinct (m_connections p)"
  shows "distinct (map snd held) \<and> set (map snd held) \<inter> set (m_connections p') = {}
    \<and> length held + length (m_connections p') = length (m_connections p)"
  using assms by (rule db.run_exclusive)

theorem connections_exclusive_witness:
  "\<exists>p' held. pool_run db_getConnection db_release [Get 1, Get 2, Put 1, Get 3]
      (empty_db\<lparr>m_connections := [10, 11]\<rparr>, []) = Some (p', held) \<and> distinct (map snd held)"
proof -
  let ?r = "pool_run db_getConnection db_release [Get 1, Get 2, Put 1, Get 3] (empty_db\<lparr>m_connections := [10, 11]\<rparr>, [])"
  have "?r \<noteq> None" by (simp add: db_getConnection_def db_release_def empty_db_def)
  then obtain p' held where r: "?r = Some (p', held)" by auto
  from connections_exclusive [OF this] show ?thesis using r by auto
qed

text \<open>
  Nested use deadlocks: when as many threads as the Redis pool has connections hold one each
  and want a second one, as \<open>dispatchDueMessagesForUser\<close> does when it calls \<open>setPendingAttempt\<close> with
  its own connection in hand, every one of them waits and none can ever give one back.
\<close>

theorem nested_use_deadlocks:
  assumes "redis_init redisConnect err p = (True, p1)" and "r_connections p = []"
    and "length ts = nat (r_poolSize p)"
  shows "\<exists>p2 held. pool_run redis_getConnection redis_release (map Get ts) (p1, []) = Some (p2, held)
    \<and> (\<forall>t ops. pool_run redis_getConnection redis_release (Get t # ops) (p2, held) = None)"
proof -
  have "length ts = length (r_connections p1)"
    using redis_init_loop_size [OF assms(1) [unfolded redis_init_def]] assms(2,3) by simp
  then show ?thesis using redis.run_gets [of ts p1 "[]"] redis.run_blocked by blast
qed

theorem nested_use_deadlocks_witness:
  "\<exists>p1 p2 held. initRedis None None (Some ''2'') Some (\<lambda>c. False)
      \<lparr>r_host = '''', r_port = 0, r_poolSize = 0, r_connections = [], r_freed = []\<rparr> = (True, p1)
    \<and> pool_run redis_getConnection redis_release (map Get [1, 2]) (p1, []) = Some (p2, held)
    \<and> (\<forall>t ops. pool_run redis_getConnection redis_release (Get t # ops) (p2, held) = None)"
proof -
  let ?p = "redis_configure ''127.0.0.1'' 6379 2
      \<lparr>r_host = '''', r_port = 0, r_poolSize = 0, r_connections = [], r_freed = []\<rparr> :: nat redis_pool"
  have a: "atoi ''2'' = 2" by (simp add: atoi_def is_space_def isdigit_def)
  obtain p1 where r: "redis_init Some (\<lambda>c. False) ?p = (True, p1)"
    by (simp add: redis_init_def redis_configure_def numeral_2_eq_2)
  moreover have "\<exists>p2 held. pool_run redis_getConnection redis_release (map Get [1, 2]) (p1, []) = Some (p2, held)
      \<and> (\<forall>t ops. pool_run redis_getConnection redis_release (Get t # ops) (p2, held) = None)"
    by (rule nested_use_deadlocks [OF r]) (simp_all add: redis_configure_def)
  ultimately show ?thesis by (auto simp: initRedis_def Let_def a)
qed

end
