(* ===== verification/ChatLog.thy ===== *)
theory ChatLog
  imports Prelude
begin

text \<open>
  The chat log of the server (\<open>EpollChatServer.cpp\<close>): \<open>enqueueChatLog\<close> appends to an active queue
  under a mutex; the flush thread swaps the queues and writes the entries in batches of 128 rows,
  each with the session identifier of the two names (\<open>buildSessionId\<close>). The MD5 function and the
  answers of the MySQL library are arguments.
\<close>

unbundle bit_operations_syntax

section \<open>Session identifiers\<close>

text \<open>The order of \<open>std::string\<close>: lexicographic on unsigned bytes.\<close>

fun str_less :: "string \<Rightarrow> string \<Rightarrow> bool" where
  "str_less _ [] = False"
| "str_less [] (_ # _) = True"
| "str_less (a # as) (b # bs) =
     ((of_char a :: nat) < of_char b \<or> a = b \<and> str_less as bs)"

definition hex :: string where "hex = ''0123456789abcdef''"

definition hex_byte :: "byte \<Rightarrow> string" where
  "hex_byte b = [hex ! unat (drop_bit 4 (byte_of b) AND 0xF), hex ! unat (byte_of b AND 0xF)]"

definition session_seed :: "string \<Rightarrow> string \<Rightarrow> string" where
  "session_seed sender target =
     (let (a, b) = (if str_less target sender then (target, sender) else (sender, target))
      in a @ ''#'' @ b)"

definition buildSessionId :: "(string \<Rightarrow> byte list) \<Rightarrow> string \<Rightarrow> string \<Rightarrow> string" where
  "buildSessionId md5 sender target =
     (if sender = '''' \<or> target = '''' then ''''
      else concat (map hex_byte (take 16 (md5 (session_seed sender target)))))"

section \<open>The queues\<close>

record pending_log =
  pl_msgId :: u64
  pl_sender :: string
  pl_target :: string
  pl_content :: string

definition kChatLogBatchSize :: nat where "kChatLogBatchSize = 128"
definition kChatLogQueueLimit :: nat where "kChatLogQueueLimit = 200000"

record chat_log =
  cl_active :: "pending_log list"
  cl_flush :: "pending_log list"
  cl_depth :: size_t
  cl_stop :: bool
  cl_drop :: int

definition chat_log_init :: chat_log where
  "chat_log_init = \<lparr>cl_active = [], cl_flush = [], cl_depth = 0, cl_stop = False, cl_drop = 0\<rparr>"

definition enqueueChatLog :: "string \<Rightarrow> string \<Rightarrow> string \<Rightarrow> chat_log \<Rightarrow> chat_log" where
  "enqueueChatLog sender target content cl =
     (if length (cl_active cl) + length (cl_flush cl) \<ge> kChatLogQueueLimit
      then cl\<lparr>cl_drop := cl_drop cl + 1\<rparr>
      else cl\<lparr>cl_active := cl_active cl @
                [\<lparr>pl_msgId = 0, pl_sender = sender, pl_target = target, pl_content = content\<rparr>],
              cl_depth := cl_depth cl + 1\<rparr>)"

text \<open>The critical section at the head of the flush loop, and the one of the final loop.\<close>

definition cl_swap :: "chat_log \<Rightarrow> chat_log" where
  "cl_swap cl = (if cl_active cl \<noteq> [] then cl\<lparr>cl_active := cl_flush cl, cl_flush := cl_active cl\<rparr> else cl)"

definition cl_final_swap :: "chat_log \<Rightarrow> chat_log" where
  "cl_final_swap cl =
     (if cl_flush cl = [] \<and> cl_active cl \<noteq> [] then cl\<lparr>cl_active := cl_flush cl, cl_flush := cl_active cl\<rparr>
      else cl)"

text \<open>One batch: up to 128 entries from the front of the flush queue.\<close>

definition take_batch :: "chat_log \<Rightarrow> pending_log list \<times> chat_log" where
  "take_batch cl =
     (let n = min kChatLogBatchSize (length (cl_flush cl))
      in (take n (cl_flush cl), cl\<lparr>cl_flush := drop n (cl_flush cl), cl_depth := cl_depth cl - of_nat n\<rparr>))"

section \<open>Writing a batch\<close>

text \<open>
  The statement text, and the values bound to its parameters: four per entry. The answers of the
  library (no connection, no statement, failed preparation, failed binding) decide whether the
  statement is executed; the result is the statement with its values, or \<open>None\<close>.
\<close>

record db_answers =
  ans_conn :: bool
  ans_stmt :: bool
  ans_prepare :: bool
  ans_bind :: bool

fun placeholders :: "nat \<Rightarrow> string" where
  "placeholders 0 = ''''"
| "placeholders (Suc 0) = ''(?,?,?,?)''"
| "placeholders (Suc (Suc n)) = placeholders (Suc n) @ '',(?,?,?,?)''"

definition insert_sql :: "nat \<Rightarrow> string" where
  "insert_sql n = ''INSERT INTO all_messages_log (session_id, sender, target, content) VALUES '' @ placeholders n"

definition log_row :: "(string \<Rightarrow> byte list) \<Rightarrow> pending_log \<Rightarrow> string list" where
  "log_row md5 e = [buildSessionId md5 (pl_sender e) (pl_target e), pl_sender e, pl_target e, pl_content e]"

definition flushChatLogsBatch :: "(string \<Rightarrow> byte list) \<Rightarrow> db_answers \<Rightarrow> pending_log list
    \<Rightarrow> (string \<times> string list) option" where
  "flushChatLogsBatch md5 ans batch =
     (if batch = [] then None
      else if \<not> ans_conn ans then None
      else let sql = insert_sql (length batch) in
        if \<not> ans_stmt ans then None
        else if \<not> ans_prepare ans then None
        else if ans_bind ans then Some (sql, concat (map (log_row md5) batch))
        else None)"

section \<open>The flush thread\<close>

text \<open>
  The inner loop: batches until the flush queue is empty. The batches that were handed to
  \<open>flushChatLogsBatch\<close> are collected.
\<close>

function flush_all :: "chat_log \<Rightarrow> pending_log list list \<times> chat_log" where
  "flush_all cl =
     (if cl_flush cl = [] then ([], cl)
      else case take_batch cl of
        (batch, cl') \<Rightarrow> (case flush_all cl' of (batches, cl'') \<Rightarrow> (batch # batches, cl'')))"
  by pat_completeness auto

termination flush_all
  by (relation "measure (\<lambda>cl. length (cl_flush cl))")
    (auto simp: take_batch_def Let_def kChatLogBatchSize_def)

declare flush_all.simps [simp del]

text \<open>
  One round of the main loop: \<open>None\<close> when the thread leaves it. The loop after it runs until both
  queues are found empty; with no producers left, two rounds do.
\<close>

definition flush_round :: "chat_log \<Rightarrow> (pending_log list list \<times> chat_log) option" where
  "flush_round cl = (if cl_stop cl \<and> cl_active cl = [] then None else Some (flush_all (cl_swap cl)))"

function final_flush :: "chat_log \<Rightarrow> pending_log list list \<times> chat_log" where
  "final_flush cl =
     (let cl = cl_final_swap cl in
      if cl_flush cl = [] then ([], cl)
      else case flush_all cl of
        (batches, cl') \<Rightarrow> (case final_flush cl' of (bs, cl'') \<Rightarrow> (batches @ bs, cl'')))"
  by pat_completeness auto

lemma flush_all_ok:
  "flush_all cl = (batches, cl') \<Longrightarrow> concat batches = cl_flush cl \<and> cl_flush cl' = []
     \<and> cl_active cl' = cl_active cl \<and> cl_depth cl' = cl_depth cl - of_nat (length (cl_flush cl))
     \<and> (\<forall>b \<in> set batches. b \<noteq> [] \<and> length b \<le> kChatLogBatchSize)"
proof (induction cl arbitrary: batches cl' rule: flush_all.induct)
  case (1 cl)
  show ?case
  proof (cases "cl_flush cl = []")
    case True
    then show ?thesis using "1.prems" by (simp add: flush_all.simps)
  next
    case False
    obtain b cl1 where t: "take_batch cl = (b, cl1)" by (cases "take_batch cl")
    obtain bs cl2 where r: "flush_all cl1 = (bs, cl2)" by (cases "flush_all cl1")
    have res: "batches = b # bs" "cl' = cl2"
      using "1.prems" False t r by (simp_all add: flush_all.simps [of cl])
    let ?n = "min kChatLogBatchSize (length (cl_flush cl))"
    have b: "b = take ?n (cl_flush cl)" "cl_flush cl1 = drop ?n (cl_flush cl)" "cl_active cl1 = cl_active cl"
        "cl_depth cl1 = cl_depth cl - of_nat ?n"
      using t by (auto simp: take_batch_def Let_def)
    have IH: "concat bs = cl_flush cl1 \<and> cl_flush cl2 = [] \<and> cl_active cl2 = cl_active cl1
        \<and> cl_depth cl2 = cl_depth cl1 - of_nat (length (cl_flush cl1))
        \<and> (\<forall>b \<in> set bs. b \<noteq> [] \<and> length b \<le> kChatLogBatchSize)"
      using "1.IH" False t r by metis
    have "of_nat (length (cl_flush cl)) = (of_nat ?n :: size_t) + of_nat (length (cl_flush cl) - ?n)"
      by (simp flip: of_nat_add)
    then show ?thesis
      using IH b res False by (auto simp: kChatLogBatchSize_def)
  qed
qed

termination final_flush
proof (relation "measure (\<lambda>cl. length (cl_active cl) + length (cl_flush cl))")
  fix cl x batches cl'
  assume a: "x = cl_final_swap cl" "cl_flush x \<noteq> []" "(batches, cl') = flush_all x"
  then have "cl_flush cl' = []" "cl_active cl' = cl_active x" using flush_all_ok [OF a(3) [symmetric]] by simp_all
  then show "(cl', cl) \<in> measure (\<lambda>cl. length (cl_active cl) + length (cl_flush cl))"
    using a by (auto simp: cl_final_swap_def split: if_splits)
qed simp

declare final_flush.simps [simp del]

lemma final_flush_ok:
  "final_flush cl = (batches, cl') \<Longrightarrow>
   concat batches = cl_flush cl @ cl_active cl \<and> cl_flush cl' = [] \<and> cl_active cl' = []
     \<and> (\<forall>b \<in> set batches. b \<noteq> [] \<and> length b \<le> kChatLogBatchSize)"
proof (induction cl arbitrary: batches cl' rule: final_flush.induct)
  case (1 cl)
  let ?x = "cl_final_swap cl"
  show ?case
  proof (cases "cl_flush ?x = []")
    case True
    then show ?thesis
      using "1.prems" by (auto simp: final_flush.simps [of cl] Let_def cl_final_swap_def split: if_splits)
  next
    case False
    obtain b1 cl1 where f: "flush_all ?x = (b1, cl1)" by (cases "flush_all ?x")
    obtain b2 cl2 where r: "final_flush cl1 = (b2, cl2)" by (cases "final_flush cl1")
    have res: "batches = b1 @ b2" "cl' = cl2"
      using "1.prems" False f r by (simp_all add: final_flush.simps [of cl] Let_def)
    note IH = "1.IH" [OF refl False f [symmetric] r]
    show ?thesis
      using IH flush_all_ok [OF f] res by (auto simp: cl_final_swap_def split: if_splits)
  qed
qed

section \<open>Producers and the flush thread\<close>

text \<open>
  The interleaving of producers with the flush thread; \<open>accepted\<close> records the entries taken in and
  \<open>handed\<close> those given to \<open>flushChatLogsBatch\<close>.
\<close>

record log_run =
  lr_log :: chat_log
  lr_accepted :: "pending_log list"
  lr_handed :: "pending_log list"

inductive log_step :: "log_run \<Rightarrow> log_run \<Rightarrow> bool" where
  produce: "enqueueChatLog s t c (lr_log r) = cl' \<Longrightarrow>
     log_step r (r\<lparr>lr_log := cl', lr_accepted := lr_accepted r @
       (if cl_drop cl' = cl_drop (lr_log r)
        then [\<lparr>pl_msgId = 0, pl_sender = s, pl_target = t, pl_content = c\<rparr>] else [])\<rparr>)"
| swap: "cl_flush (lr_log r) = [] \<Longrightarrow> log_step r (r\<lparr>lr_log := cl_swap (lr_log r)\<rparr>)"
| batch: "cl_flush (lr_log r) \<noteq> [] \<Longrightarrow> take_batch (lr_log r) = (b, cl') \<Longrightarrow>
     log_step r (r\<lparr>lr_log := cl', lr_handed := lr_handed r @ b\<rparr>)"
| stop: "log_step r (r\<lparr>lr_log := lr_log r\<lparr>cl_stop := True\<rparr>\<rparr>)"

definition log_inv :: "log_run \<Rightarrow> bool" where
  "log_inv r \<longleftrightarrow> lr_handed r @ cl_flush (lr_log r) @ cl_active (lr_log r) = lr_accepted r
     \<and> length (cl_flush (lr_log r)) + length (cl_active (lr_log r)) \<le> kChatLogQueueLimit
     \<and> cl_depth (lr_log r) = of_nat (length (cl_flush (lr_log r)) + length (cl_active (lr_log r)))"

lemma take_drop_append: "take n xs @ drop n xs @ ys = xs @ ys"
  by (metis append_assoc append_take_drop_id)

lemma log_step_inv:
  assumes "log_step r r'" and "log_inv r"
  shows "log_inv r'"
  using assms(1)
proof cases
  case (produce s t c cl')
  then show ?thesis
    using assms(2) by (auto simp: log_inv_def enqueueChatLog_def split: if_splits)
next
  case swap
  then show ?thesis using assms(2) by (auto simp: log_inv_def cl_swap_def)
next
  case (batch b cl')
  let ?n = "min kChatLogBatchSize (length (cl_flush (lr_log r)))"
  have "of_nat (length (cl_flush (lr_log r))) = (of_nat ?n :: size_t) + of_nat (length (cl_flush (lr_log r)) - ?n)"
    by (simp flip: of_nat_add)
  then show ?thesis
    using assms(2) batch by (auto simp: log_inv_def take_batch_def Let_def take_drop_append)
next
  case stop
  then show ?thesis using assms(2) by (simp add: log_inv_def)
qed

definition log_start :: log_run where
  "log_start = \<lparr>lr_log = chat_log_init, lr_accepted = [], lr_handed = []\<rparr>"

lemma log_start_inv: "log_inv log_start"
  by (simp add: log_inv_def log_start_def chat_log_init_def)

lemma log_reach_inv: "log_step\<^sup>*\<^sup>* r r' \<Longrightarrow> log_inv r \<Longrightarrow> log_inv r'"
  by (induction rule: rtranclp_induct) (auto intro: log_step_inv)

section \<open>Statement text\<close>

lemma count_placeholders: "count_list (placeholders n) CHR ''?'' = 4 * n"
  by (induction n rule: placeholders.induct) (simp_all add: count_list_append)

lemma count_insert_sql: "count_list (insert_sql n) CHR ''?'' = 4 * n"
  by (simp add: insert_sql_def count_placeholders)

section \<open>Session identifiers name pairs\<close>

lemma str_less_irrefl [simp]: "\<not> str_less s s"
  by (induction s) auto

lemma str_less_asym: "str_less s t \<Longrightarrow> \<not> str_less t s"
  by (induction s t rule: str_less.induct) auto

lemma str_less_total: "s = t \<or> str_less s t \<or> str_less t s"
proof (induction s t rule: str_less.induct)
  case (3 a as b bs)
  have "(of_char a :: nat) = of_char b \<longleftrightarrow> a = b" by simp
  with 3 show ?case by (metis linorder_neqE_nat str_less.simps(3))
next
  case (1 s)
  show ?case by (cases s) auto
qed simp

lemma session_seed_sym: "session_seed s t = session_seed t s"
  using str_less_total [of s t] str_less_asym by (auto simp: session_seed_def)

lemma split_at_hash:
  "CHR ''#'' \<notin> set a \<Longrightarrow> CHR ''#'' \<notin> set a' \<Longrightarrow> a @ ''#'' @ b = a' @ ''#'' @ b' \<Longrightarrow> a = a' \<and> b = b'"
proof (induction a arbitrary: a')
  case Nil
  then show ?case by (cases a') auto
next
  case (Cons c a)
  then show ?case by (cases a') auto
qed

lemma session_seed_pair:
  assumes "session_seed s t = session_seed s' t'"
    and "CHR ''#'' \<notin> set s \<union> set t \<union> set s' \<union> set t'"
  shows "{s, t} = {s', t'}"
proof -
  define p where "p s t = (if str_less t s then (t, s) else (s, t))" for s t
  have p: "{fst (p s t), snd (p s t)} = {s, t}" "session_seed s t = fst (p s t) @ ''#'' @ snd (p s t)" for s t
    by (auto simp: p_def session_seed_def)
  have "fst (p s t) \<in> {s, t}" "fst (p s' t') \<in> {s', t'}" using p(1) by blast+
  then have "fst (p s t) = fst (p s' t') \<and> snd (p s t) = snd (p s' t')"
    using assms p(2) by (intro split_at_hash) auto
  then show ?thesis using p(1) by metis
qed

lemma hex_nth_inj: "i < 16 \<Longrightarrow> j < 16 \<Longrightarrow> hex ! i = hex ! j \<longleftrightarrow> i = j"
proof -
  have "distinct hex" "length hex = 16" by (simp_all add: hex_def)
  then show "i < 16 \<Longrightarrow> j < 16 \<Longrightarrow> ?thesis" by (metis nth_eq_iff_index_eq)
qed

lemma nibbles: "unat (drop_bit 4 (x :: u8) AND 0xF) = unat x div 16" "unat (x AND 0xF) = unat x mod 16"
proof -
  have "drop_bit 4 x AND 0xF = take_bit 4 (drop_bit 4 x)" "x AND 0xF = take_bit 4 x"
    by (simp_all add: take_bit_eq_mask mask_eq_exp_minus_1)
  moreover have "unat x < 256" using unsigned_less [of x, where 'a = nat] by simp
  ultimately show "unat (drop_bit 4 x AND 0xF) = unat x div 16" "unat (x AND 0xF) = unat x mod 16"
    by (simp_all add: take_bit_eq_mod drop_bit_eq_div unat_div unat_mod)
qed

lemma hex_byte_alt: "hex_byte b = [hex ! (unat (byte_of b) div 16), hex ! (unat (byte_of b) mod 16)]"
  unfolding hex_byte_def unfolding nibbles(1) unfolding nibbles(2) by (rule refl)

lemma hex_byte_inj: "hex_byte a = hex_byte b \<longleftrightarrow> a = b"
proof
  assume eq: "hex_byte a = hex_byte b"
  let ?a = "unat (byte_of a)" and ?b = "unat (byte_of b)"
  have lt: "unat (byte_of x) < 256" for x using unsigned_less [of "byte_of x", where 'a = nat] by simp
  have "?a div 16 = ?b div 16" "?a mod 16 = ?b mod 16"
    using eq lt [of a] lt [of b] by (simp_all add: hex_byte_alt hex_nth_inj)
  then have "?a = ?b" by (metis div_mult_mod_eq)
  then have "(of_char a :: nat) = of_char b"
    by (simp add: byte_of_def unat_of_nat take_bit_eq_mod)
  then show "a = b" by simp
qed simp

lemma concat_hex_inj: "concat (map hex_byte xs) = concat (map hex_byte ys) \<Longrightarrow> xs = ys"
proof (induction xs arbitrary: ys)
  case Nil
  then show ?case by (cases ys) (auto simp: hex_byte_def)
next
  case (Cons x xs)
  then obtain y ys' where ys: "ys = y # ys'" by (cases ys) (auto simp: hex_byte_def)
  have len: "length (hex_byte x) = length (hex_byte y)" by (simp add: hex_byte_def)
  then have "hex_byte x = hex_byte y" "concat (map hex_byte xs) = concat (map hex_byte ys')"
    using Cons.prems by (simp_all add: ys)
  then show ?case using Cons.IH by (simp add: ys hex_byte_inj)
qed

section \<open>Properties\<close>

text \<open>
  A session identifier is 32 hexadecimal digits that stand for the unordered pair of the two
  names: whoever is the sender, and for no other pair, provided names contain no \<open>#\<close> and MD5 does
  not collide on the two seeds.
\<close>

theorem session_id_names_pair:
  assumes "\<forall>x. length (md5 x) = 16"
    and "md5 (session_seed s t) = md5 (session_seed s' t') \<longrightarrow> session_seed s t = session_seed s' t'"
    and "s \<noteq> ''''" "t \<noteq> ''''" "s' \<noteq> ''''" "t' \<noteq> ''''"
    and "CHR ''#'' \<notin> set s \<union> set t \<union> set s' \<union> set t'"
  shows "length (buildSessionId md5 s t) = 32 \<and> set (buildSessionId md5 s t) \<subseteq> set hex
    \<and> (buildSessionId md5 s t = buildSessionId md5 s' t' \<longleftrightarrow> {s, t} = {s', t'})"
proof -
  have id: "buildSessionId md5 a b = concat (map hex_byte (md5 (session_seed a b)))"
    if "a \<noteq> ''''" "b \<noteq> ''''" for a b
    using that assms(1) by (simp add: buildSessionId_def)
  have hx: "length (hex_byte b) = 2" "set (hex_byte b) \<subseteq> set hex" for b
  proof -
    have "unat (byte_of b) < 256" using unsigned_less [of "byte_of b", where 'a = nat] by simp
    then have "unat (byte_of b) div 16 < length hex" "unat (byte_of b) mod 16 < length hex"
      by (auto simp: hex_def)
    then show "set (hex_byte b) \<subseteq> set hex" by (simp add: hex_byte_alt)
  qed (simp add: hex_byte_def)
  have "length (concat (map hex_byte xs)) = 2 * length xs" for xs
    by (induction xs) (simp_all add: hx(1))
  then have "length (buildSessionId md5 s t) = 32" using assms by (simp add: id)
  moreover have "set (buildSessionId md5 s t) \<subseteq> set hex" using assms(3,4) hx(2) by (auto simp: id)
  moreover have "buildSessionId md5 s t = buildSessionId md5 s' t' \<longleftrightarrow> {s, t} = {s', t'}"
  proof
    assume "buildSessionId md5 s t = buildSessionId md5 s' t'"
    then have "concat (map hex_byte (md5 (session_seed s t))) = concat (map hex_byte (md5 (session_seed s' t')))"
      using assms(3-6) by (simp add: id)
    then have "md5 (session_seed s t) = md5 (session_seed s' t')" by (rule concat_hex_inj)
    then have "session_seed s t = session_seed s' t'" using assms(2) by blast
    then show "{s, t} = {s', t'}" using assms(7) by (rule session_seed_pair)
  next
    assume "{s, t} = {s', t'}"
    then have "session_seed s t = session_seed s' t'"
      using session_seed_sym [of s t] by (auto simp: doubleton_eq_iff)
    then show "buildSessionId md5 s t = buildSessionId md5 s' t'" using assms(3-6) by (simp add: id)
  qed
  ultimately show ?thesis by blast
qed

theorem session_id_names_pair_witness:
  "let md5 = (\<lambda>x. take 16 (x @ replicate 16 CHR 0x00)) in
   buildSessionId md5 ''bob'' ''alice'' = buildSessionId md5 ''alice'' ''bob''
   \<and> buildSessionId md5 ''bob'' ''alice'' \<noteq> buildSessionId md5 ''bob'' ''carol''"
proof -
  let ?m = "\<lambda>x. take 16 (x @ replicate 16 CHR 0x00)"
  have seeds: "session_seed ''bob'' ''alice'' = ''alice#bob''" "session_seed ''alice'' ''bob'' = ''alice#bob''"
    "session_seed ''bob'' ''carol'' = ''bob#carol''"
    by code_simp+
  have len: "\<forall>x. length (?m x) = 16" by (simp add: min_def)
  have "buildSessionId ?m ''bob'' ''alice'' = buildSessionId ?m ''alice'' ''bob''"
    using session_id_names_pair [OF len, of "''bob''" "''alice''" "''alice''" "''bob''"] seeds by (simp add: insert_commute)
  moreover have "buildSessionId ?m ''bob'' ''alice'' \<noteq> buildSessionId ?m ''bob'' ''carol''"
    using session_id_names_pair [OF len, of "''bob''" "''alice''" "''bob''" "''carol''"] seeds
    by (simp add: doubleton_eq_iff)
  ultimately show ?thesis by (simp add: Let_def)
qed

text \<open>
  With \<open>#\<close> in names, two different pairs of users share one session, whatever MD5 computes:
  the history of \<open>a\<close> and \<open>b#c\<close> is also the history of \<open>a#b\<close> and \<open>c\<close>.
\<close>

theorem session_id_hash_collision:
  "buildSessionId md5 ''a#b'' ''c'' = buildSessionId md5 ''a'' ''b#c''
   \<and> {''a#b'', ''c''} \<noteq> {''a'', ''b#c''}"
proof -
  have "session_seed ''a#b'' ''c'' = session_seed ''a'' ''b#c''" by code_simp
  then show ?thesis by (simp add: buildSessionId_def doubleton_eq_iff)
qed

text \<open>
  (C23) The chat log loses and reorders nothing that it accepts: in every interleaving of producers
  with the flush thread, the entries handed to the database writer, then the flush queue, then the
  active queue, are the accepted entries in order; the queues stay within the limit of 200000
  entries and the depth counter is exact.
\<close>

theorem chat_log_in_order:
  assumes "log_step\<^sup>*\<^sup>* log_start r"
  shows "lr_handed r @ cl_flush (lr_log r) @ cl_active (lr_log r) = lr_accepted r
    \<and> length (cl_flush (lr_log r)) + length (cl_active (lr_log r)) \<le> kChatLogQueueLimit
    \<and> cl_depth (lr_log r) = of_nat (length (cl_flush (lr_log r)) + length (cl_active (lr_log r)))"
  using log_reach_inv [OF assms log_start_inv] by (simp add: log_inv_def)

theorem chat_log_in_order_witness:
  "\<exists>r. log_step\<^sup>*\<^sup>* log_start r \<and> length (lr_accepted r) = 1
     \<and> lr_handed r @ cl_flush (lr_log r) @ cl_active (lr_log r) = lr_accepted r"
proof -
  let ?cl = "enqueueChatLog ''a'' ''b'' ''hi'' (lr_log log_start)"
  let ?r = "log_start\<lparr>lr_log := ?cl, lr_accepted := lr_accepted log_start @
       (if cl_drop ?cl = cl_drop (lr_log log_start)
        then [\<lparr>pl_msgId = 0, pl_sender = ''a'', pl_target = ''b'', pl_content = ''hi''\<rparr>] else [])\<rparr>"
  have r: "log_step\<^sup>*\<^sup>* log_start ?r" by (rule r_into_rtranclp, rule produce, rule refl)
  have "length (lr_accepted ?r) = 1"
    by (simp add: log_start_def chat_log_init_def enqueueChatLog_def kChatLogQueueLimit_def)
  with r chat_log_in_order [OF r] show ?thesis by blast
qed

text \<open>
  (C24) The flush thread leaves nothing behind when it is told to stop: its last loop ends, with both
  queues empty, after handing over exactly the remaining entries in order, in batches of one to
  128; and an executed batch is one statement with exactly as many placeholders as bound values.
\<close>

theorem chat_log_final_flush:
  "(case final_flush cl of (batches, cl') \<Rightarrow>
     concat batches = cl_flush cl @ cl_active cl \<and> cl_flush cl' = [] \<and> cl_active cl' = []
     \<and> list_all (\<lambda>b. b \<noteq> [] \<and> length b \<le> kChatLogBatchSize) batches)
   \<and> (case flushChatLogsBatch md5 ans batch of None \<Rightarrow> True
      | Some (sql, params) \<Rightarrow> count_list sql CHR ''?'' = length params
          \<and> params = concat (map (log_row md5) batch))"
proof -
  have "length (concat (map (log_row md5) batch)) = 4 * length batch"
    by (induction batch) (simp_all add: log_row_def)
  then show ?thesis
    using final_flush_ok [of cl]
    by (auto simp: flushChatLogsBatch_def Let_def count_insert_sql list_all_iff split: prod.splits)
qed


end
