(* ===== verification/Server.thy ===== *)
theory Server
  imports Registry TaskPool Snowflake ChatLog
begin

text \<open>
  The server object and its I/O handlers (\<open>EpollChatServer.cpp\<close>): accepting, reading, sending,
  writing and closing connections, dispatching events, and handing work to the thread pools. The
  kernel is part of the state as far as the handlers change it (interest sets, closed descriptors,
  bytes handed over) and an argument where it answers (\<open>accept4\<close>, \<open>recv\<close>, \<open>send\<close>). The hash of
  names and the memory pool's allocator are arguments, too. Handlers that can fault have a result
  \<open>fault + server\<close>.
\<close>

section \<open>State\<close>

text \<open>The closures that the handlers enqueue, with the values they capture.\<close>

datatype biz_task = ProcessPacket "ctx_ptr option" u16 string

datatype db_task =
    Login "ctx_ptr option" int string string
  | History "ctx_ptr option" int string string string
  | AddFriend "ctx_ptr option" int string string

datatype redis_task =
    Deliver "ctx_ptr option" int string "ctx_ptr option" string string u64
  | Ack string "u64 list"
  | Invalidate string string
  | FriendList "ctx_ptr option" int string

datatype epoll_flag = EPOLLIN | EPOLLOUT | EPOLLET

record counters =
  g_acceptCount :: int
  g_readCount :: int
  g_loginIn :: int
  g_loginDB :: int
  g_loginOk :: int
  g_loginFail :: int
  g_sendCalled :: int
  g_backpressureDrop :: int
  g_dbTaskEnqueue :: int
  g_dbTaskDone :: int
  g_dbTaskTimeout :: int
  g_redisTaskEnqueue :: int
  g_redisTaskDone :: int
  g_workerQueueDepth :: int
  g_privateGetOnlineNs :: int
  g_privateSendNs :: int
  g_privateMsgCount :: int

record server =
  s_ctxs :: "ctx_ptr \<Rightarrow> client_ctx"
  s_nextCtx :: ctx_ptr
  s_reg :: registry
  s_epoll :: "int \<Rightarrow> int \<Rightarrow> epoll_flag set option"
  s_closed :: "int list"
  s_net :: "int \<Rightarrow> byte list"
  s_subReactors :: "int list"
  s_nextSubReactor :: size_t
  s_pool :: "biz_task thread_pool"
  s_dbPool :: "db_task thread_pool"
  s_redisPool :: "redis_task thread_pool"
  s_dbDepth :: size_t
  s_redisDepth :: size_t
  s_chatLog :: chat_log
  s_ids :: snowflake
  s_count :: counters

definition count_up :: "(counters \<Rightarrow> counters) \<Rightarrow> server \<Rightarrow> server" where
  "count_up f s = s\<lparr>s_count := f (s_count s)\<rparr>"

definition set_ctx :: "ctx_ptr \<Rightarrow> client_ctx \<Rightarrow> server \<Rightarrow> server" where
  "set_ctx p c s = s\<lparr>s_ctxs := (s_ctxs s)(p := c)\<rparr>"

text \<open>\<open>epoll_ctl\<close>: adding, changing and removing an interest; changing one that is not there fails.\<close>

definition epoll_add :: "int \<Rightarrow> int \<Rightarrow> epoll_flag set \<Rightarrow> server \<Rightarrow> server" where
  "epoll_add epfd fd ev s = s\<lparr>s_epoll := (s_epoll s)(epfd := (s_epoll s epfd)(fd \<mapsto> ev))\<rparr>"

definition epoll_mod :: "int \<Rightarrow> int \<Rightarrow> epoll_flag set \<Rightarrow> server \<Rightarrow> server" where
  "epoll_mod epfd fd ev s =
     (if s_epoll s epfd fd = None then s
      else s\<lparr>s_epoll := (s_epoll s)(epfd := (s_epoll s epfd)(fd \<mapsto> ev))\<rparr>)"

definition epoll_del :: "int \<Rightarrow> int \<Rightarrow> server \<Rightarrow> server" where
  "epoll_del epfd fd s = s\<lparr>s_epoll := (s_epoll s)(epfd := (s_epoll s epfd)(fd := None))\<rparr>"

section \<open>Closing, sending and writing\<close>

definition handleDisconnect :: "(string \<Rightarrow> size_t) \<Rightarrow> int \<Rightarrow> server \<Rightarrow> server" where
  "handleDisconnect hash fd s =
     (case getClientCtxByFd (s_reg s) fd of
        None \<Rightarrow> s
      | Some p \<Rightarrow>
          let ctx = s_ctxs s p;
              s = (if c_accountID ctx \<noteq> '''' then s\<lparr>s_reg := removeOnlineUser hash (c_accountID ctx) (s_reg s)\<rparr> else s);
              s = s\<lparr>s_reg := removeClientCtx fd (s_reg s)\<rparr>;
              s = (if c_reactorEpollFd ctx \<noteq> - 1 then epoll_del (c_reactorEpollFd ctx) fd s else s)
          in s\<lparr>s_closed := s_closed s @ [fd]\<rparr>)"

definition sendPacket :: "(string \<Rightarrow> size_t) \<Rightarrow> allocator \<Rightarrow> ctx_ptr option \<Rightarrow> u16 \<Rightarrow> string \<Rightarrow> server \<Rightarrow> fault + server" where
  "sendPacket hash alloc ctx type data s =
     (case ctx of
        None \<Rightarrow> Inr s
      | Some p \<Rightarrow>
          let s = count_up (\<lambda>g. g\<lparr>g_sendCalled := g_sendCalled g + 1\<rparr>) s;
              fd = c_fd (s_ctxs s p)
          in bindE (sp_enqueue alloc type data (s_ctxs s p)) (\<lambda>(c, needEnableWrite, fatalError).
            let s = set_ctx p c s in
            if fatalError then
              Inr (handleDisconnect hash fd (count_up (\<lambda>g. g\<lparr>g_backpressureDrop := g_backpressureDrop g + 1\<rparr>) s))
            else if needEnableWrite \<and> c_reactorEpollFd c \<noteq> - 1 then
              Inr (epoll_mod (c_reactorEpollFd c) fd {EPOLLIN, EPOLLOUT, EPOLLET} s)
            else Inr s))"

definition sendPacketFd :: "(string \<Rightarrow> size_t) \<Rightarrow> allocator \<Rightarrow> int \<Rightarrow> u16 \<Rightarrow> string \<Rightarrow> server \<Rightarrow> fault + server" where
  "sendPacketFd hash alloc fd type data s =
     (case getClientCtxByFd (s_reg s) fd of
        None \<Rightarrow> Inr s
      | Some p \<Rightarrow> sendPacket hash alloc (Some p) type data s)"

definition handleWrite :: "(string \<Rightarrow> size_t) \<Rightarrow> send_answer list \<Rightarrow> ctx_ptr option \<Rightarrow> server \<Rightarrow> fault + server" where
  "handleWrite hash answers ctx s =
     (case ctx of
        None \<Rightarrow> Inr s
      | Some p \<Rightarrow>
          let fd = c_fd (s_ctxs s p) in
          bindE (hw_loop answers 0 (s_ctxs s p) []) (\<lambda>(result, c, out).
            let s = set_ctx p c s;
                s = s\<lparr>s_net := (s_net s)(fd := s_net s fd @ out)\<rparr>
            in case result of
                 Blocked \<Rightarrow> Inr s
               | FatalError \<Rightarrow> Inr (handleDisconnect hash fd s)
               | LoopDone \<Rightarrow>
                   (case hw_finish c of
                      (c, disableWrite) \<Rightarrow>
                        let s = set_ctx p c s in
                        if disableWrite \<and> c_reactorEpollFd c \<noteq> - 1
                        then Inr (epoll_mod (c_reactorEpollFd c) fd {EPOLLIN, EPOLLET} s)
                        else Inr s)))"

section \<open>Reading\<close>

text \<open>The answers of \<open>recv\<close>; an exhausted list means that no more data is there.\<close>

datatype recv_answer = Received "byte list" | EndOfStream | NoData | RecvFailed

text \<open>The first loop: it returns \<open>shouldDisconnect\<close>, the buffer and the number of successful reads.\<close>

fun recv_loop :: "recv_answer list \<Rightarrow> recv_buffer \<Rightarrow> fault + bool \<times> recv_buffer \<times> int" where
  "recv_loop [] rb = Inr (False, rb, 0)"
| "recv_loop (Received bytes # answers) rb =
     bindE (rb_append rb bytes) (\<lambda>rb.
     bindE (recv_loop answers rb) (\<lambda>(dis, rb, n). Inr (dis, rb, n + 1)))"
| "recv_loop (NoData # answers) rb = Inr (False, rb, 0)"
| "recv_loop (EndOfStream # answers) rb = Inr (True, rb, 0)"
| "recv_loop (RecvFailed # answers) rb = Inr (True, rb, 0)"

definition server_busy :: string where
  \<open>server_busy = ''{"result":"fail","message":"server_busy"}''\<close>

fun dispatch_packets :: "(string \<Rightarrow> size_t) \<Rightarrow> allocator \<Rightarrow> ctx_ptr \<Rightarrow> (u16 \<times> string) list \<Rightarrow> server \<Rightarrow> fault + server" where
  "dispatch_packets hash alloc p [] s = Inr s"
| "dispatch_packets hash alloc p ((msgType, body) # packets) s =
     bindE
      (if msgType = 2 then sendPacket hash alloc (Some p) 2 '''' s
       else case tp_try_enqueue (ProcessPacket (Some p) msgType body) (s_pool s) of
              (True, pool) \<Rightarrow> Inr (s\<lparr>s_pool := pool\<rparr>)
            | (False, pool) \<Rightarrow> sendPacket hash alloc (Some p) 13 server_busy s)
      (dispatch_packets hash alloc p packets)"

definition handleRead :: "(string \<Rightarrow> size_t) \<Rightarrow> allocator \<Rightarrow> recv_answer list \<Rightarrow> ctx_ptr option \<Rightarrow> server \<Rightarrow> fault + server" where
  "handleRead hash alloc answers ctx s =
     (case ctx of
        None \<Rightarrow> Inr s
      | Some p \<Rightarrow>
          let fd = c_fd (s_ctxs s p) in
          bindE (recv_loop answers (c_buffer (s_ctxs s p))) (\<lambda>(shouldDisconnect, rb, n).
            let s = count_up (\<lambda>g. g\<lparr>g_readCount := g_readCount g + n\<rparr>) s;
                s = set_ctx p ((s_ctxs s p)\<lparr>c_buffer := rb\<rparr>) s
            in
            if shouldDisconnect then Inr (handleDisconnect hash fd s)
            else bindE (splitPackets rb) (\<lambda>(shouldDisconnect, rb, pendingPackets).
              let s = set_ctx p ((s_ctxs s p)\<lparr>c_buffer := rb\<rparr>) s in
              if shouldDisconnect then Inr (handleDisconnect hash fd s)
              else dispatch_packets hash alloc p pendingPackets s)))"

section \<open>Accepting\<close>

datatype accept_answer = NewConnection int string | NoConnection

definition addFd :: "int \<Rightarrow> ctx_ptr \<Rightarrow> server \<Rightarrow> server" where
  "addFd epfd p s =
     (let s = set_ctx p ((s_ctxs s p)\<lparr>c_reactorEpollFd := epfd\<rparr>) s
      in epoll_add epfd (c_fd (s_ctxs s p)) {EPOLLIN, EPOLLET} s)"

fun handleAccept :: "allocator \<Rightarrow> accept_answer list \<Rightarrow> server \<Rightarrow> fault + server" where
  "handleAccept alloc [] s = Inr s"
| "handleAccept alloc (NoConnection # answers) s = Inr s"
| "handleAccept alloc (NewConnection clientFd ip # answers) s =
     bindE (ClientContext alloc clientFd ip) (\<lambda>c.
       let p = s_nextCtx s;
           s = set_ctx p c (s\<lparr>s_nextCtx := p + 1\<rparr>);
           s = s\<lparr>s_reg := addClientCtx (s_ctxs s) (Some p) (s_reg s)\<rparr>
       in
       if s_subReactors s \<noteq> [] then
         let index = unat (s_nextSubReactor s) mod length (s_subReactors s);
             s = s\<lparr>s_nextSubReactor := s_nextSubReactor s + 1\<rparr>;
             s = addFd (s_subReactors s ! index) p s
         in handleAccept alloc answers (count_up (\<lambda>g. g\<lparr>g_acceptCount := g_acceptCount g + 1\<rparr>) s)
       else
         handleAccept alloc answers
           (s\<lparr>s_reg := removeClientCtx clientFd (s_reg s), s_closed := s_closed s @ [clientFd]\<rparr>))"

section \<open>Events of a sub-reactor\<close>

record event =
  ev_fd :: int
  ev_in :: "recv_answer list option"
  ev_out :: "send_answer list option"
  ev_err :: bool

definition handleEvent :: "(string \<Rightarrow> size_t) \<Rightarrow> allocator \<Rightarrow> event \<Rightarrow> server \<Rightarrow> fault + server" where
  "handleEvent hash alloc e s =
     (if ev_fd e \<le> 0 then Inr s
      else case getClientCtxByFd (s_reg s) (ev_fd e) of
        None \<Rightarrow> Inr s
      | Some p \<Rightarrow>
          bindE (case ev_in e of Some answers \<Rightarrow> handleRead hash alloc answers (Some p) s | None \<Rightarrow> Inr s) (\<lambda>s.
          bindE (case ev_out e of Some answers \<Rightarrow> handleWrite hash answers (Some p) s | None \<Rightarrow> Inr s) (\<lambda>s.
          Inr (if ev_err e then handleDisconnect hash (ev_fd e) s else s))))"

section \<open>Work for the database and Redis threads\<close>

definition kWorkerQueueLimit :: size_t where "kWorkerQueueLimit = 20000"

definition enqueueDbTask :: "db_task \<Rightarrow> server \<Rightarrow> bool \<times> server" where
  "enqueueDbTask task s =
     (let depth = s_dbDepth s + 1;
          s = s\<lparr>s_dbDepth := depth\<rparr>;
          s = count_up (\<lambda>g. g\<lparr>g_workerQueueDepth := sint depth\<rparr>) s
      in
      if depth > kWorkerQueueLimit then
        (False, count_up (\<lambda>g. g\<lparr>g_dbTaskTimeout := g_dbTaskTimeout g + 1\<rparr>) (s\<lparr>s_dbDepth := depth - 1\<rparr>))
      else
        (True, (count_up (\<lambda>g. g\<lparr>g_dbTaskEnqueue := g_dbTaskEnqueue g + 1\<rparr>) s)\<lparr>s_dbPool := tp_enqueue task (s_dbPool s)\<rparr>))"

definition enqueueRedisTask :: "redis_task \<Rightarrow> server \<Rightarrow> bool \<times> server" where
  "enqueueRedisTask task s =
     (let depth = s_redisDepth s + 1;
          s = s\<lparr>s_redisDepth := depth\<rparr>;
          s = count_up (\<lambda>g. g\<lparr>g_workerQueueDepth := sint (max depth (s_dbDepth s))\<rparr>) s
      in
      if depth > kWorkerQueueLimit then
        (False, count_up (\<lambda>g. g\<lparr>g_dbTaskTimeout := g_dbTaskTimeout g + 1\<rparr>) (s\<lparr>s_redisDepth := depth - 1\<rparr>))
      else
        (True, (count_up (\<lambda>g. g\<lparr>g_redisTaskEnqueue := g_redisTaskEnqueue g + 1\<rparr>) s)
           \<lparr>s_redisPool := tp_enqueue task (s_redisPool s)\<rparr>))"

text \<open>What the enqueued closures do after the task itself.\<close>

definition dbTaskDone :: "server \<Rightarrow> server" where
  "dbTaskDone s =
     (let s = count_up (\<lambda>g. g\<lparr>g_dbTaskDone := g_dbTaskDone g + 1\<rparr>) s;
          newDepth = s_dbDepth s - 1
      in count_up (\<lambda>g. g\<lparr>g_workerQueueDepth := sint newDepth\<rparr>) (s\<lparr>s_dbDepth := newDepth\<rparr>))"

definition redisTaskDone :: "server \<Rightarrow> server" where
  "redisTaskDone s =
     (let s = count_up (\<lambda>g. g\<lparr>g_redisTaskDone := g_redisTaskDone g + 1\<rparr>) s;
          newDepth = s_redisDepth s - 1
      in count_up (\<lambda>g. g\<lparr>g_workerQueueDepth := sint (max newDepth (s_dbDepth s))\<rparr>) (s\<lparr>s_redisDepth := newDepth\<rparr>))"

definition isCurrentSessionValid :: "server \<Rightarrow> ctx_ptr option \<Rightarrow> int \<Rightarrow> bool" where
  "isCurrentSessionValid s ctx expectedFd =
     (case ctx of None \<Rightarrow> False | Some p \<Rightarrow> c_fd (s_ctxs s p) = expectedFd)"

section \<open>Invariant\<close>

text \<open>
  Every registered descriptor leads to a context with that descriptor whose receive buffer is
  well-formed and holds less than a packet of maximal size; the send side of every context that
  was ever made is well-formed.
\<close>

definition recv_ok :: "client_ctx \<Rightarrow> bool" where
  "recv_ok c \<longleftrightarrow> rb_inv (c_buffer c) \<and> length (rb_bytes (c_buffer c)) \<le> 1024 * 1024"

definition srv_inv :: "(string \<Rightarrow> size_t) \<Rightarrow> server \<Rightarrow> bool" where
  "srv_inv hash s \<longleftrightarrow> reg_inv hash (s_reg s)
     \<and> (\<forall>fd p. getClientCtxByFd (s_reg s) fd = Some p \<longrightarrow>
          p < s_nextCtx s \<and> c_fd (s_ctxs s p) = fd \<and> recv_ok (s_ctxs s p))
     \<and> (\<forall>p < s_nextCtx s. ctx_inv (s_ctxs s p))"

lemma srv_invD:
  assumes "srv_inv hash s"
  shows "reg_inv hash (s_reg s)" "p < s_nextCtx s \<Longrightarrow> ctx_inv (s_ctxs s p)"
    "getClientCtxByFd (s_reg s) fd = Some p \<Longrightarrow> p < s_nextCtx s \<and> c_fd (s_ctxs s p) = fd \<and> recv_ok (s_ctxs s p)"
  using assms by (auto simp: srv_inv_def)

text \<open>State that the invariant does not depend on.\<close>

lemma srv_inv_frame:
  assumes "srv_inv hash s" and "s_reg s' = s_reg s" and "s_ctxs s' = s_ctxs s" and "s_nextCtx s' = s_nextCtx s"
  shows "srv_inv hash s'"
  using assms by (simp add: srv_inv_def)

lemma count_up_fields [simp]:
  "s_reg (count_up f s) = s_reg s" "s_ctxs (count_up f s) = s_ctxs s" "s_nextCtx (count_up f s) = s_nextCtx s"
  "s_pool (count_up f s) = s_pool s" "s_net (count_up f s) = s_net s" "s_closed (count_up f s) = s_closed s"
  "s_epoll (count_up f s) = s_epoll s" "s_subReactors (count_up f s) = s_subReactors s"
  "s_nextSubReactor (count_up f s) = s_nextSubReactor s"
  by (simp_all add: count_up_def)

lemma epoll_fields [simp]:
  "s_reg (epoll_mod e fd ev s) = s_reg s" "s_ctxs (epoll_mod e fd ev s) = s_ctxs s"
  "s_nextCtx (epoll_mod e fd ev s) = s_nextCtx s" "s_pool (epoll_mod e fd ev s) = s_pool s"
  "s_net (epoll_mod e fd ev s) = s_net s" "s_closed (epoll_mod e fd ev s) = s_closed s"
  "s_reg (epoll_del e fd s) = s_reg s" "s_ctxs (epoll_del e fd s) = s_ctxs s"
  "s_nextCtx (epoll_del e fd s) = s_nextCtx s" "s_pool (epoll_del e fd s) = s_pool s"
  "s_net (epoll_del e fd s) = s_net s" "s_closed (epoll_del e fd s) = s_closed s"
  "s_reg (epoll_add e fd ev s) = s_reg s" "s_ctxs (epoll_add e fd ev s) = s_ctxs s"
  "s_nextCtx (epoll_add e fd ev s) = s_nextCtx s" "s_pool (epoll_add e fd ev s) = s_pool s"
  "s_subReactors (epoll_add e fd ev s) = s_subReactors s"
  "s_nextSubReactor (epoll_add e fd ev s) = s_nextSubReactor s"
  by (simp_all add: epoll_mod_def epoll_del_def epoll_add_def)

lemma set_ctx_fields [simp]:
  "s_reg (set_ctx p c s) = s_reg s" "s_ctxs (set_ctx p c s) = (s_ctxs s)(p := c)"
  "s_nextCtx (set_ctx p c s) = s_nextCtx s" "s_pool (set_ctx p c s) = s_pool s"
  "s_net (set_ctx p c s) = s_net s" "s_closed (set_ctx p c s) = s_closed s"
  "s_subReactors (set_ctx p c s) = s_subReactors s" "s_nextSubReactor (set_ctx p c s) = s_nextSubReactor s"
  by (simp_all add: set_ctx_def)

lemma set_ctx_inv:
  assumes "srv_inv hash s" and "ctx_inv c" and "c_fd c = c_fd (s_ctxs s p)"
    and "recv_ok (s_ctxs s p) \<longrightarrow> recv_ok c"
  shows "srv_inv hash (set_ctx p c s)"
  using assms by (auto simp: srv_inv_def)

lemma handleDisconnect_fields [simp]:
  "s_ctxs (handleDisconnect hash fd s) = s_ctxs s" "s_nextCtx (handleDisconnect hash fd s) = s_nextCtx s"
  "s_pool (handleDisconnect hash fd s) = s_pool s" "s_net (handleDisconnect hash fd s) = s_net s"
  by (auto simp: handleDisconnect_def Let_def split: option.splits)

lemma handleDisconnect_reg:
  "s_reg (handleDisconnect hash fd s) =
     (case getClientCtxByFd (s_reg s) fd of None \<Rightarrow> s_reg s
      | Some p \<Rightarrow> removeClientCtx fd (removeOnlineUser hash (c_accountID (s_ctxs s p)) (s_reg s)))"
  by (auto simp: handleDisconnect_def Let_def removeOnlineUser_def split: option.splits)

lemma handleDisconnect_lookup:
  assumes "reg_inv hash (s_reg s)"
  shows "reg_inv hash (s_reg (handleDisconnect hash fd s))"
    and "getClientCtxByFd (s_reg (handleDisconnect hash fd s)) fd' =
      (if fd' = fd then None else getClientCtxByFd (s_reg s) fd')"
    and "getOnlineCtx hash alive (s_reg (handleDisconnect hash fd s)) a =
      (case getClientCtxByFd (s_reg s) fd of None \<Rightarrow> getOnlineCtx hash alive (s_reg s) a
       | Some p \<Rightarrow> if a = c_accountID (s_ctxs s p) then None else getOnlineCtx hash alive (s_reg s) a)"
  using assms
  by (auto simp: handleDisconnect_reg registry_ops_inv client_lookup [where hash = hash] online_lookup
      split: option.splits)

lemma handleDisconnect_inv:
  assumes "srv_inv hash s"
  shows "srv_inv hash (handleDisconnect hash fd s)"
  using assms handleDisconnect_lookup [OF srv_invD(1) [OF assms]]
  unfolding srv_inv_def by (auto split: if_splits)

section \<open>Handlers keep the invariant\<close>

lemma sp_enqueue_keeps:
  assumes "ctx_inv c" and "length (encodeJsonToProto t data) + 6 < 2 ^ 32"
  shows "\<exists>c' need fatal. sp_enqueue (block_of junk) t data c = Inr (c', need, fatal) \<and> ctx_inv c'
    \<and> c_fd c' = c_fd c \<and> c_buffer c' = c_buffer c \<and> c_accountID c' = c_accountID c
    \<and> c_reactorEpollFd c' = c_reactorEpollFd c
    \<and> (fatal \<longleftrightarrow> length (unsent c) + 6 + length (encodeJsonToProto t data) > 16777216)
    \<and> (\<not> fatal \<longrightarrow> unsent c' = unsent c @ packet t (encodeJsonToProto t data))"
proof (cases "length (unsent c) + 6 + length (encodeJsonToProto t data) \<le> 16777216")
  case True
  from sp_enqueue_ok [OF assms refl True, of junk] True show ?thesis
    by (auto simp: unsent_def)
next
  case False
  with sp_enqueue_backlog [OF assms, of "block_of junk"] assms(1) show ?thesis by auto
qed

lemma sendPacket_ok:
  assumes inv: "srv_inv hash s" and p: "p < s_nextCtx s"
    and len: "length (encodeJsonToProto t data) + 6 < 2 ^ 32"
  shows "\<exists>s'. sendPacket hash (block_of junk) (Some p) t data s = Inr s' \<and> srv_inv hash s'
    \<and> s_pool s' = s_pool s \<and> s_nextCtx s' = s_nextCtx s \<and> s_net s' = s_net s
    \<and> (length (unsent (s_ctxs s p)) + 6 + length (encodeJsonToProto t data) \<le> 16777216 \<longrightarrow>
         s_reg s' = s_reg s \<and> unsent (s_ctxs s' p) = unsent (s_ctxs s p) @ packet t (encodeJsonToProto t data)
         \<and> c_buffer (s_ctxs s' p) = c_buffer (s_ctxs s p))"
proof -
  obtain c need fatal where e: "sp_enqueue (block_of junk) t data (s_ctxs s p) = Inr (c, need, fatal)"
      "ctx_inv c" "c_fd c = c_fd (s_ctxs s p)" "c_buffer c = c_buffer (s_ctxs s p)"
      "fatal \<longleftrightarrow> length (unsent (s_ctxs s p)) + 6 + length (encodeJsonToProto t data) > 16777216"
      "\<not> fatal \<longrightarrow> unsent c = unsent (s_ctxs s p) @ packet t (encodeJsonToProto t data)"
    using sp_enqueue_keeps [OF srv_invD(2) [OF inv p] len, of junk] by blast
  let ?s = "set_ctx p c (count_up (\<lambda>g. g\<lparr>g_sendCalled := g_sendCalled g + 1\<rparr>) s)"
  have i: "srv_inv hash ?s"
    by (intro set_ctx_inv srv_inv_frame [OF inv]) (simp_all add: e recv_ok_def)
  show ?thesis
  proof (cases fatal)
    case True
    then show ?thesis
      using e i by (auto simp: sendPacket_def Let_def intro!: handleDisconnect_inv intro: srv_inv_frame [OF i])
  next
    case False
    then show ?thesis
      using e i by (auto simp: sendPacket_def Let_def intro: srv_inv_frame [OF i])
  qed
qed

lemma short_replies:
  "length (encodeJsonToProto 13 server_busy) + 6 < 2 ^ 32" "length (encodeJsonToProto 2 '''') + 6 < 2 ^ 32"
proof -
  have "length (encodeJsonToProto 13 server_busy) = 19" by code_simp
  then show "length (encodeJsonToProto 13 server_busy) + 6 < 2 ^ 32" by simp
qed simp

lemma dispatch_ok:
  assumes "srv_inv hash s" and "p < s_nextCtx s"
  shows "\<exists>s'. dispatch_packets hash (block_of junk) p packets s = Inr s' \<and> srv_inv hash s'
    \<and> s_nextCtx s' = s_nextCtx s"
  using assms
proof (induction packets arbitrary: s)
  case (Cons pk packets)
  obtain t b where pk: "pk = (t, b)" by (cases pk)
  let ?one = "if t = 2 then sendPacket hash (block_of junk) (Some p) 2 '''' s
       else case tp_try_enqueue (ProcessPacket (Some p) t b) (s_pool s) of
              (True, pool) \<Rightarrow> Inr (s\<lparr>s_pool := pool\<rparr>)
            | (False, pool) \<Rightarrow> sendPacket hash (block_of junk) (Some p) 13 server_busy s"
  have "\<exists>s1. ?one = Inr s1 \<and> srv_inv hash s1 \<and> s_nextCtx s1 = s_nextCtx s"
    using sendPacket_ok [OF Cons.prems short_replies(1), of junk] sendPacket_ok [OF Cons.prems short_replies(2), of junk]
    by (cases "tp_try_enqueue (ProcessPacket (Some p) t b) (s_pool s)" rule: prod.exhaust)
      (auto split: bool.splits intro: srv_inv_frame [OF Cons.prems(1)])
  then obtain s1 where "?one = Inr s1" "srv_inv hash s1" "s_nextCtx s1 = s_nextCtx s" by blast
  then show ?case using Cons.IH [of s1] Cons.prems(2) by (simp add: pk)
qed simp

text \<open>The number of bytes that a list of answers of \<open>recv\<close> delivers.\<close>

fun received :: "recv_answer list \<Rightarrow> byte list" where
  "received (Received bytes # answers) = bytes @ received answers"
| "received _ = []"

fun recv_closes :: "recv_answer list \<Rightarrow> bool" where
  "recv_closes (Received bytes # answers) = recv_closes answers"
| "recv_closes (a # answers) = (a \<noteq> NoData)"
| "recv_closes [] = False"

lemma recv_loop_ok:
  "rb_inv rb \<Longrightarrow> length (rb_bytes rb) + length (received answers) \<le> 2 ^ 62 \<Longrightarrow>
   \<exists>rb' n. recv_loop answers rb = Inr (recv_closes answers, rb', n) \<and> rb_inv rb'
     \<and> rb_bytes rb' = rb_bytes rb @ received answers"
proof (induction answers arbitrary: rb)
  case (Cons a answers)
  show ?case
  proof (cases a)
    case (Received bytes)
    then obtain rb1 where rb1: "rb_append rb bytes = Inr rb1" "rb_inv rb1" "rb_bytes rb1 = rb_bytes rb @ bytes"
      using rbuf.append_ok [OF Cons.prems(1), of bytes] Cons.prems(2) by auto
    have "length (rb_bytes rb1) + length (received answers) \<le> 2 ^ 62"
      using Cons.prems(2) rb1(3) Received by simp
    from Cons.IH [OF rb1(2) this] show ?thesis using rb1 Received by auto
  qed (use Cons.prems in auto)
qed simp

lemma frames_rest_small:
  assumes "frames a = (ps, False, r)"
  shows "length r \<le> 1024 * 1024"
proof (rule ccontr)
  assume big: "\<not> length r \<le> 1024 * 1024"
  have "frames r = ([], False, r)" using frames_rest [OF assms] by simp
  then show False
    using big by (subst (asm) frames.simps) (auto simp: Let_def split: if_splits prod.splits)
qed

lemma handleRead_ok:
  assumes inv: "srv_inv hash s" and p: "getClientCtxByFd (s_reg s) fd = Some p"
    and len: "length (received answers) \<le> 2 ^ 61"
  shows "handleRead hash (block_of junk) answers (Some p) s = Inl Diverges
    \<or> (\<exists>s'. handleRead hash (block_of junk) answers (Some p) s = Inr s' \<and> srv_inv hash s'
          \<and> s_nextCtx s' = s_nextCtx s)"
proof -
  let ?c = "s_ctxs s p"
  have reg: "p < s_nextCtx s" "c_fd ?c = fd" "rb_inv (c_buffer ?c)" "length (rb_bytes (c_buffer ?c)) \<le> 1024 * 1024"
    using srv_invD(3) [OF inv p] by (auto simp: recv_ok_def)
  have ctx: "ctx_inv ?c" using srv_invD(2) [OF inv reg(1)] .
  have "length (rb_bytes (c_buffer ?c)) + length (received answers) \<le> 2 ^ 62" using reg(4) len by simp
  from recv_loop_ok [OF reg(3) this] obtain rb n where r: "recv_loop answers (c_buffer ?c) = Inr (recv_closes answers, rb, n)"
      "rb_inv rb" "rb_bytes rb = rb_bytes (c_buffer ?c) @ received answers" by blast
  have upd: "ctx_inv (?c\<lparr>c_buffer := b\<rparr>)" for b using ctx by (simp add: ctx_inv_def unsent_def)
  have only: "getClientCtxByFd (s_reg s) fd' = Some p \<Longrightarrow> fd' = fd" for fd'
    using srv_invD(3) [OF inv, of fd' p] reg(2) by simp
  have gone: "srv_inv hash (handleDisconnect hash fd s')"
    if "s_reg s' = s_reg s" "s_nextCtx s' = s_nextCtx s" "s_ctxs s' = (s_ctxs s)(p := ?c\<lparr>c_buffer := b\<rparr>)" for s' b
    unfolding srv_inv_def
    using that inv upd handleDisconnect_lookup [where hash = hash and s = s' and fd = fd]
    by (auto simp: srv_inv_def split: if_splits dest: only)
  show ?thesis
  proof (cases "recv_closes answers")
    case True
    let ?s = "set_ctx p (?c\<lparr>c_buffer := rb\<rparr>) (count_up (\<lambda>g. g\<lparr>g_readCount := g_readCount g + n\<rparr>) s)"
    have "srv_inv hash (handleDisconnect hash fd ?s)" by (rule gone [where b = rb]) simp_all
    then show ?thesis using True r(1) reg(2) by (simp add: handleRead_def Let_def)
  next
    case False
    obtain ps bad rest where fr: "frames (rb_bytes rb) = (ps, bad, rest)" by (cases "frames (rb_bytes rb)")
    note sp = splitPackets_frames [OF r(2) fr]
    show ?thesis
    proof (cases "decode_all ps")
      case None
      then show ?thesis using False r(1) sp by (simp add: handleRead_def Let_def)
    next
      case (Some qs)
      then obtain rb' where rb': "splitPackets rb = Inr (bad, rb', qs)" "rb_inv rb'" "rb_bytes rb' = rest"
        using sp by auto
      let ?s = "set_ctx p (?c\<lparr>c_buffer := rb\<rparr>) (count_up (\<lambda>g. g\<lparr>g_readCount := g_readCount g + n\<rparr>) s)"
      let ?s2 = "set_ctx p ((s_ctxs ?s p)\<lparr>c_buffer := rb'\<rparr>) ?s"
      show ?thesis
      proof (cases bad)
        case True
        have "srv_inv hash (handleDisconnect hash fd ?s2)" by (rule gone [where b = rb']) simp_all
        then show ?thesis using True False r(1) rb'(1) reg(2) by (simp add: handleRead_def Let_def)
      next
        case good: False
        have "length (rb_bytes rb') \<le> 1024 * 1024"
          using frames_rest_small [of "rb_bytes rb" ps rest] fr good rb'(3) by simp
        then have "srv_inv hash ?s2"
          using inv upd rb'(2) by (auto simp: srv_inv_def recv_ok_def)
        from dispatch_ok [OF this, of p junk qs] show ?thesis
          using False good r(1) rb'(1) reg(1) by (auto simp: handleRead_def Let_def)
      qed
    qed
  qed
qed

lemma hw_pick_keeps: "hw_pick flushed c = (c1, m) \<Longrightarrow> c_fd c1 = c_fd c \<and> c_buffer c1 = c_buffer c"
  by (auto simp: hw_pick_def Let_def sb_swap_def split: if_splits)

lemma hw_loop_keeps:
  "hw_loop answers flushed c out = Inr (r, c', out') \<Longrightarrow> c_fd c' = c_fd c \<and> c_buffer c' = c_buffer c"
proof (induction answers arbitrary: flushed c out)
  case Nil
  then show ?case
    by (subst (asm) hw_loop.simps)
      (auto simp: bindE_eq_Inr dest: hw_pick_keeps split: if_splits option.splits prod.splits)
next
  case (Cons a answers)
  obtain c1 m where p: "hw_pick flushed c = (c1, m)" by (cases "hw_pick flushed c")
  have sent: "c_fd (hw_sent k c1) = c_fd c \<and> c_buffer (hw_sent k c1) = c_buffer c" for k
    using hw_pick_keeps [OF p] by (simp add: hw_sent_def)
  show ?case
    using Cons.prems Cons.IH p hw_pick_keeps [OF p] sent
    by (subst (asm) hw_loop.simps)
      (cases a; auto simp: bindE_eq_Inr Let_def split: if_splits option.splits)
qed

lemma handleWrite_ok:
  assumes inv: "srv_inv hash s" and p: "p < s_nextCtx s"
  shows "\<exists>s'. handleWrite hash answers (Some p) s = Inr s' \<and> srv_inv hash s' \<and> s_nextCtx s' = s_nextCtx s"
proof -
  let ?c = "s_ctxs s p"
  note ctx = srv_invD(2) [OF inv p]
  obtain r c out where l: "hw_loop answers 0 ?c [] = Inr (r, c, out)" "ctx_inv c"
    using hw_loop_ok [OF ctx, of 0 answers "[]"] by auto
  have keep: "c_fd c = c_fd ?c \<and> c_buffer c = c_buffer ?c"
    using hw_loop_keeps [OF l(1)] .
  let ?s = "(set_ctx p c s)\<lparr>s_net := (s_net (set_ctx p c s))(c_fd ?c := s_net (set_ctx p c s) (c_fd ?c) @ out)\<rparr>"
  have i: "srv_inv hash ?s"
    by (intro srv_inv_frame [OF set_ctx_inv [OF inv l(2)]]) (use keep in \<open>auto simp: recv_ok_def\<close>)
  obtain c2 off where f: "hw_finish c = (c2, off)" by (cases "hw_finish c")
  have c2: "ctx_inv c2" "c_fd c2 = c_fd c" "c_buffer c2 = c_buffer c"
    using hw_finish_ok [OF l(2)] f by (auto split: if_splits)
  have "srv_inv hash (set_ctx p c2 ?s)"
    using c2 by (intro set_ctx_inv [OF i]) (auto simp: recv_ok_def)
  then have i2: "srv_inv hash s'" if "s_reg s' = s_reg s" "s_ctxs s' = (s_ctxs s)(p := c2)" "s_nextCtx s' = s_nextCtx s" for s'
    by (rule srv_inv_frame) (use that in auto)
  show ?thesis
    using l(1) i f handleDisconnect_inv [OF i]
    by (cases r) (auto simp: handleWrite_def Let_def intro!: i2)
qed

lemma handleEvent_ok:
  assumes inv: "srv_inv hash s"
    and len: "case ev_in e of Some answers \<Rightarrow> length (received answers) \<le> 2 ^ 61 | None \<Rightarrow> True"
  shows "handleEvent hash (block_of junk) e s = Inl Diverges
    \<or> (\<exists>s'. handleEvent hash (block_of junk) e s = Inr s' \<and> srv_inv hash s')"
proof (cases "ev_fd e \<le> 0 \<or> getClientCtxByFd (s_reg s) (ev_fd e) = None")
  case True
  then show ?thesis using inv by (auto simp: handleEvent_def)
next
  case False
  then obtain p where p: "getClientCtxByFd (s_reg s) (ev_fd e) = Some p" by auto
  have lt: "p < s_nextCtx s" using srv_invD(3) [OF inv p] by simp
  let ?r = "case ev_in e of Some answers \<Rightarrow> handleRead hash (block_of junk) answers (Some p) s | None \<Rightarrow> Inr s"
  consider "?r = Inl Diverges" | s1 where "?r = Inr s1" "srv_inv hash s1" "s_nextCtx s1 = s_nextCtx s"
    using handleRead_ok [OF inv p] len inv by (cases "ev_in e") force+
  then show ?thesis
  proof cases
    case 1
    then show ?thesis using False p by (simp add: handleEvent_def)
  next
    case (2 s1)
    let ?w = "case ev_out e of Some answers \<Rightarrow> handleWrite hash answers (Some p) s1 | None \<Rightarrow> Inr s1"
    obtain s2 where "?w = Inr s2" "srv_inv hash s2"
      using handleWrite_ok [OF 2(2), of p] 2 lt by (cases "ev_out e") auto
    then show ?thesis
      using False p 2(1) handleDisconnect_inv by (auto simp: handleEvent_def)
  qed
qed

lemma handleAccept_ok:
  "srv_inv hash s \<Longrightarrow> \<exists>s'. handleAccept (block_of junk) answers s = Inr s' \<and> srv_inv hash s'"
proof (induction answers arbitrary: s)
  case (Cons a answers)
  show ?case
  proof (cases a)
    case (NewConnection fd ip)
    obtain c where c: "ClientContext (block_of junk) fd ip = Inr c" "ctx_inv c" "rb_inv (c_buffer c)"
        "rb_bytes (c_buffer c) = []" "c_fd c = fd"
      using ClientContext_ok [of junk fd ip] by blast
    let ?p = "s_nextCtx s"
    let ?s = "set_ctx ?p c (s\<lparr>s_nextCtx := ?p + 1\<rparr>)"
    have look: "getClientCtxByFd (addClientCtx (s_ctxs ?s) (Some ?p) (s_reg ?s)) fd' =
        (if fd' = fd then Some ?p else getClientCtxByFd (s_reg s) fd')" for fd'
      using client_lookup(1) [OF srv_invD(1) [OF Cons.prems]] c(5) by simp
    have base: "srv_inv hash s'" if "s_reg s' = addClientCtx (s_ctxs ?s) (Some ?p) (s_reg ?s)"
        "s_nextCtx s' = ?p + 1" "s_ctxs s' = (s_ctxs s)(?p := c\<lparr>c_reactorEpollFd := e\<rparr>)" for s' e
    proof -
      have "ctx_inv (c\<lparr>c_reactorEpollFd := e\<rparr>)" "recv_ok (c\<lparr>c_reactorEpollFd := e\<rparr>)"
        using c by (auto simp: ctx_inv_def unsent_def recv_ok_def)
      then show ?thesis
        using Cons.prems c(5) look that registry_ops_inv(1) [OF srv_invD(1) [OF Cons.prems]]
        by (auto simp: srv_inv_def less_Suc_eq split: if_splits)
    qed
    have gone: "srv_inv hash s'" if "s_reg s' = removeClientCtx fd (addClientCtx (s_ctxs ?s) (Some ?p) (s_reg ?s))"
        "s_nextCtx s' = ?p + 1" "s_ctxs s' = (s_ctxs s)(?p := c)" for s'
    proof -
      have r: "reg_inv hash (addClientCtx (s_ctxs ?s) (Some ?p) (s_reg ?s))"
        using registry_ops_inv(1) [OF srv_invD(1) [OF Cons.prems]] by simp
      then show ?thesis
        using Cons.prems c(2) look that client_lookup(2) [OF r] registry_ops_inv(2) [OF r]
        by (auto simp: srv_inv_def less_Suc_eq split: if_splits)
    qed
    show ?thesis
    proof (cases "s_subReactors s = []")
      case True
      let ?s2 = "?s\<lparr>s_reg := removeClientCtx fd (addClientCtx (s_ctxs ?s) (Some ?p) (s_reg ?s)), s_closed := s_closed ?s @ [fd]\<rparr>"
      have "srv_inv hash ?s2" by (rule gone) simp_all
      from Cons.IH [OF this] show ?thesis
        using True c(1) NewConnection by (simp add: Let_def set_ctx_def)
    next
      case False
      have step: "\<exists>s2. handleAccept (block_of junk) (a # answers) s = handleAccept (block_of junk) answers s2
          \<and> s_reg s2 = addClientCtx (s_ctxs ?s) (Some ?p) (s_reg ?s) \<and> s_nextCtx s2 = ?p + 1
          \<and> (\<exists>e. s_ctxs s2 = (s_ctxs s)(?p := c\<lparr>c_reactorEpollFd := e\<rparr>))"
        using False c(1) NewConnection
        by (simp add: Let_def addFd_def) (rule exI, rule conjI, rule refl, auto)
      then show ?thesis using Cons.IH base by metis
    qed
  qed (use Cons.prems in simp)
qed simp

section \<open>What reading delivers\<close>

text \<open>The tasks and the replies that a list of packets gives rise to when the queue has room.\<close>

definition tasks_of :: "ctx_ptr \<Rightarrow> (u16 \<times> string) list \<Rightarrow> biz_task list" where
  "tasks_of p qs = map (\<lambda>(t, b). ProcessPacket (Some p) t b) (filter (\<lambda>(t, b). t \<noteq> 2) qs)"

definition heartbeats :: "(u16 \<times> string) list \<Rightarrow> byte list" where
  "heartbeats qs = concat (map (\<lambda>_. packet 2 '''') (filter (\<lambda>(t, b). t = 2) qs))"

definition pool_room :: "nat \<Rightarrow> 'a thread_pool \<Rightarrow> bool" where
  "pool_room n p \<longleftrightarrow> \<not> tp_stop p
     \<and> (tp_max_queue_size p = 0 \<or> length (tp_tasks p) + n \<le> unat (tp_max_queue_size p))"

lemma pool_room_enqueue:
  assumes "pool_room (Suc n) pool"
  shows "tp_try_enqueue task pool = (True, tp_enqueue task pool)" "pool_room n (tp_enqueue task pool)"
proof -
  have "tp_max_queue_size pool = 0 \<or>
      unat (of_nat (length (tp_tasks pool)) :: size_t) < unat (tp_max_queue_size pool)"
  proof (cases "tp_max_queue_size pool = 0")
    case False
    then have lt: "length (tp_tasks pool) < unat (tp_max_queue_size pool)"
      using assms by (simp add: pool_room_def)
    then have "length (tp_tasks pool) < 2 ^ 64"
      using unat_lt_64 [of "tp_max_queue_size pool"] by (rule less_trans)
    then show ?thesis using lt by (simp add: unat_of_nat_64)
  qed simp
  then show "tp_try_enqueue task pool = (True, tp_enqueue task pool)"
    using assms by (auto simp: tp_try_enqueue_def pool_room_def word_le_nat_alt not_le)
  show "pool_room n (tp_enqueue task pool)"
    using assms by (auto simp: pool_room_def tp_enqueue_def)
qed

lemma dispatch_delivers:
  assumes "srv_inv hash s" and "p < s_nextCtx s" and "pool_room (length packets) (s_pool s)"
    and "length (unsent (s_ctxs s p)) + length (heartbeats packets) \<le> 16777216"
  shows "\<exists>s'. dispatch_packets hash (block_of junk) p packets s = Inr s'
    \<and> tp_tasks (s_pool s') = tp_tasks (s_pool s) @ tasks_of p packets
    \<and> unsent (s_ctxs s' p) = unsent (s_ctxs s p) @ heartbeats packets
    \<and> c_buffer (s_ctxs s' p) = c_buffer (s_ctxs s p) \<and> s_reg s' = s_reg s"
  using assms
proof (induction packets arbitrary: s)
  case Nil
  then show ?case by (simp add: tasks_of_def heartbeats_def)
next
  case (Cons pk packets)
  obtain t b where pk: "pk = (t, b)" by (cases pk)
  show ?case
  proof (cases "t = 2")
    case True
    have hb: "heartbeats (pk # packets) = packet 2 '''' @ heartbeats packets"
      using True by (simp add: heartbeats_def pk)
    have room: "length (unsent (s_ctxs s p)) + 6 + length (encodeJsonToProto 2 '''') \<le> 16777216"
      using Cons.prems(4) hb by simp
    obtain s1 where s1: "sendPacket hash (block_of junk) (Some p) 2 '''' s = Inr s1" "srv_inv hash s1"
        "s_pool s1 = s_pool s" "s_nextCtx s1 = s_nextCtx s" "s_reg s1 = s_reg s"
        "unsent (s_ctxs s1 p) = unsent (s_ctxs s p) @ packet 2 ''''"
        "c_buffer (s_ctxs s1 p) = c_buffer (s_ctxs s p)"
      using sendPacket_ok [OF Cons.prems(1,2) short_replies(2), of junk] room by auto
    have "pool_room (length packets) (s_pool s1)"
      using Cons.prems(3) s1(3) by (auto simp: pool_room_def)
    moreover have "length (unsent (s_ctxs s1 p)) + length (heartbeats packets) \<le> 16777216"
      using Cons.prems(4) s1(6) hb by simp
    ultimately obtain s' where "dispatch_packets hash (block_of junk) p packets s1 = Inr s'"
        "tp_tasks (s_pool s') = tp_tasks (s_pool s1) @ tasks_of p packets"
        "unsent (s_ctxs s' p) = unsent (s_ctxs s1 p) @ heartbeats packets"
        "c_buffer (s_ctxs s' p) = c_buffer (s_ctxs s1 p)" "s_reg s' = s_reg s1"
      using Cons.IH [OF s1(2)] s1(4) Cons.prems(2) by auto
    then show ?thesis
      using True s1 hb by (simp add: pk tasks_of_def)
  next
    case False
    let ?task = "ProcessPacket (Some p) t b"
    let ?s1 = "s\<lparr>s_pool := tp_enqueue ?task (s_pool s)\<rparr>"
    note en = pool_room_enqueue [of "length packets" "s_pool s" ?task]
    have i: "srv_inv hash ?s1" by (rule srv_inv_frame [OF Cons.prems(1)]) simp_all
    have hb: "heartbeats (pk # packets) = heartbeats packets" using False by (simp add: heartbeats_def pk)
    obtain s' where "dispatch_packets hash (block_of junk) p packets ?s1 = Inr s'"
        "tp_tasks (s_pool s') = tp_tasks (s_pool ?s1) @ tasks_of p packets"
        "unsent (s_ctxs s' p) = unsent (s_ctxs ?s1 p) @ heartbeats packets"
        "c_buffer (s_ctxs s' p) = c_buffer (s_ctxs ?s1 p)" "s_reg s' = s_reg ?s1"
      using Cons.IH [OF i] Cons.prems en hb by auto
    then show ?thesis
      using False en Cons.prems(3) hb by (simp add: pk tasks_of_def tp_enqueue_def)
  qed
qed

section \<open>Properties\<close>

text \<open>
  The server state is well-formed at all times: accepting connections and handling any event of
  a sub-reactor (reading any bytes, writing with any answers of the kernel, errors) keeps the
  invariant that links registries, contexts and buffers, and no handler reads or writes outside a
  buffer or follows a null pointer. The one way out is a body whose decoding does not end.
\<close>

theorem server_stays_wellformed:
  assumes "srv_inv hash s"
    and "case ev_in e of Some answers \<Rightarrow> length (received answers) \<le> 2 ^ 61 | None \<Rightarrow> True"
  shows "(\<exists>s'. handleAccept (block_of junk) conns s = Inr s' \<and> srv_inv hash s')
    \<and> (handleEvent hash (block_of junk) e s = Inl Diverges
       \<or> (\<exists>s'. handleEvent hash (block_of junk) e s = Inr s' \<and> srv_inv hash s'))"
  using handleAccept_ok [OF assms(1)] handleEvent_ok [OF assms] by blast

definition empty_server :: server where
  "empty_server = \<lparr>s_ctxs = (\<lambda>_. \<lparr>c_fd = 0, c_reactorEpollFd = - 1, c_ip = '''',
       c_buffer = \<lparr>rb_buf = [], rb_read = 0, rb_size = 0\<rparr>, c_accountID = '''',
       c_pendingSendBuffer = \<lparr>sb_capacity = 0, sb_size = 0, sb_offset = 0, sb_data = None\<rparr>,
       c_activeSendBuffer = \<lparr>sb_capacity = 0, sb_size = 0, sb_offset = 0, sb_data = None\<rparr>,
       c_writeArmed = False, c_pendingBytes = 0\<rparr>),
     s_nextCtx = 0, s_reg = empty_registry, s_epoll = (\<lambda>_ _. None), s_closed = [], s_net = (\<lambda>_. []),
     s_subReactors = [5], s_nextSubReactor = 0, s_pool = ThreadPool 12 50000,
     s_dbPool = ThreadPool 20 0, s_redisPool = ThreadPool 16 0, s_dbDepth = 0, s_redisDepth = 0,
     s_chatLog = chat_log_init, s_ids = SnowflakeIdGenerator 1,
     s_count = \<lparr>g_acceptCount = 0, g_readCount = 0, g_loginIn = 0, g_loginDB = 0, g_loginOk = 0,
       g_loginFail = 0, g_sendCalled = 0, g_backpressureDrop = 0, g_dbTaskEnqueue = 0, g_dbTaskDone = 0,
       g_dbTaskTimeout = 0, g_redisTaskEnqueue = 0, g_redisTaskDone = 0, g_workerQueueDepth = 0,
       g_privateGetOnlineNs = 0, g_privateSendNs = 0, g_privateMsgCount = 0\<rparr>\<rparr>"

lemma empty_server_lookup: "getClientCtxByFd (s_reg empty_server) fd = None"
  using client_shards.idx_less [of fd]
  by (simp add: empty_server_def empty_registry_def getClientCtxByFd_def sh_find_def)

lemma empty_server_inv: "srv_inv hash empty_server"
  unfolding srv_inv_def empty_server_lookup
  by (simp add: empty_server_def empty_registry_inv)

text \<open>A server with one connection, for the witnesses.\<close>

lemma accepted_server:
  "\<exists>s. handleAccept (block_of junk) [NewConnection 7 ''10.0.0.1''] empty_server = Inr s \<and> srv_inv hash s
     \<and> getClientCtxByFd (s_reg s) 7 = Some 0 \<and> rb_bytes (c_buffer (s_ctxs s 0)) = []
     \<and> unsent (s_ctxs s 0) = [] \<and> s_pool s = ThreadPool 12 50000 \<and> c_accountID (s_ctxs s 0) = ''''"
proof -
  obtain c where c: "ClientContext (block_of junk) 7 ''10.0.0.1'' = Inr c" "unsent c = []"
      "rb_bytes (c_buffer c) = []" "c_fd c = 7" "c_accountID c = ''''"
    using ClientContext_ok [of junk 7 "''10.0.0.1''"] by blast
  obtain s where s: "handleAccept (block_of junk) [NewConnection 7 ''10.0.0.1''] empty_server = Inr s" "srv_inv hash s"
    using handleAccept_ok [OF empty_server_inv] by blast
  have "getClientCtxByFd (s_reg s) 7 = Some 0 \<and> s_ctxs s 0 = c\<lparr>c_reactorEpollFd := 5\<rparr>
      \<and> s_pool s = ThreadPool 12 50000"
    using s(1) c(1,4) client_lookup(1) [OF empty_registry_inv [of hash]]
    by (auto simp: Let_def empty_server_def addFd_def)
  then show ?thesis using s c by (auto simp: unsent_def)
qed

theorem server_stays_wellformed_witness:
  "\<exists>s'. handleAccept (block_of (\<lambda>_. CHR 0x00)) [NewConnection 7 ''10.0.0.1''] empty_server = Inr s'
     \<and> srv_inv (\<lambda>_. 0) s'"
proof -
  let ?e = "\<lparr>ev_fd = 7, ev_in = None, ev_out = None, ev_err = False\<rparr>"
  have "case ev_in ?e of Some answers \<Rightarrow> length (received answers) \<le> 2 ^ 61 | None \<Rightarrow> True" by simp
  from server_stays_wellformed [OF empty_server_inv this] show ?thesis by blast
qed

text \<open>
  (C15) Reading delivers: when a connection's buffer together with the bytes just received holds the
  packets \<open>qs\<close> (decoded) and an incomplete rest, the handler enqueues one task per packet in the
  order of arrival, answers exactly the heartbeats, in order, and keeps the rest for the next call,
  provided the business queue and the send backlog have room.
\<close>

theorem read_delivers_packets:
  assumes "srv_inv hash s" and "getClientCtxByFd (s_reg s) fd = Some p"
    and "length (received answers) \<le> 2 ^ 61" and "\<not> recv_closes answers"
    and "frames (rb_bytes (c_buffer (s_ctxs s p)) @ received answers) = (ps, False, rest)"
    and "decode_all ps = Some qs"
    and "pool_room (length qs) (s_pool s)"
    and "length (unsent (s_ctxs s p)) + length (heartbeats qs) \<le> 16777216"
  shows "\<exists>s'. handleRead hash (block_of junk) answers (Some p) s = Inr s'
    \<and> tp_tasks (s_pool s') = tp_tasks (s_pool s) @ tasks_of p qs
    \<and> unsent (s_ctxs s' p) = unsent (s_ctxs s p) @ heartbeats qs
    \<and> rb_bytes (c_buffer (s_ctxs s' p)) = rest"
proof -
  let ?c = "s_ctxs s p"
  have reg: "p < s_nextCtx s" "rb_inv (c_buffer ?c)" "length (rb_bytes (c_buffer ?c)) \<le> 1024 * 1024"
    using srv_invD(3) [OF assms(1,2)] by (auto simp: recv_ok_def)
  have "length (rb_bytes (c_buffer ?c)) + length (received answers) \<le> 2 ^ 62" using reg(3) assms(3) by simp
  from recv_loop_ok [OF reg(2) this] assms(4) obtain rb n where
    r: "recv_loop answers (c_buffer ?c) = Inr (False, rb, n)" "rb_inv rb"
      "rb_bytes rb = rb_bytes (c_buffer ?c) @ received answers" by auto
  obtain rb' where rb': "splitPackets rb = Inr (False, rb', qs)" "rb_inv rb'" "rb_bytes rb' = rest"
    using splitPackets_frames [OF r(2), of ps False rest] assms(5,6) r(3) by auto
  let ?s = "set_ctx p (?c\<lparr>c_buffer := rb\<rparr>) (count_up (\<lambda>g. g\<lparr>g_readCount := g_readCount g + n\<rparr>) s)"
  let ?s2 = "set_ctx p ((s_ctxs ?s p)\<lparr>c_buffer := rb'\<rparr>) ?s"
  have "ctx_inv (?c\<lparr>c_buffer := rb'\<rparr>)"
    using srv_invD(2) [OF assms(1) reg(1)] by (simp add: ctx_inv_def unsent_def)
  moreover have "length (rb_bytes rb') \<le> 1024 * 1024"
    using frames_rest_small [of "rb_bytes rb" ps rest] assms(5) r(3) rb'(3) by simp
  ultimately have "srv_inv hash ?s2"
    using assms(1) rb'(2) by (auto simp: srv_inv_def recv_ok_def)
  from dispatch_delivers [OF this, of p qs junk] reg(1) assms(7,8)
  obtain s' where "dispatch_packets hash (block_of junk) p qs ?s2 = Inr s'"
    "tp_tasks (s_pool s') = tp_tasks (s_pool s) @ tasks_of p qs"
    "unsent (s_ctxs s' p) = unsent ?c @ heartbeats qs" "c_buffer (s_ctxs s' p) = rb'"
    by (auto simp: unsent_def)
  then show ?thesis using r(1) rb'(1,3) by (simp add: handleRead_def Let_def)
qed

theorem read_delivers_packets_witness:
  "\<exists>s s'. srv_inv (\<lambda>_. 0) s
     \<and> handleRead (\<lambda>_. 0) (block_of (\<lambda>_. CHR 0x00)) [Received (packet 2 ''''), NoData] (Some 0) s = Inr s'
     \<and> unsent (s_ctxs s' 0) = packet 2 ''''"
proof -
  let ?j = "\<lambda>_. CHR 0x00"
  obtain s where s: "srv_inv (\<lambda>_. 0) s" "getClientCtxByFd (s_reg s) 7 = Some 0"
      "rb_bytes (c_buffer (s_ctxs s 0)) = []" "unsent (s_ctxs s 0) = []" "s_pool s = ThreadPool 12 50000"
    using accepted_server [of ?j "\<lambda>_. 0"] by blast
  have "frames (packet 2 '''' @ []) = ([(2, '''')], False, [])"
    by (subst frames_packet) (simp_all add: frames.simps [of "[]"])
  then have "\<exists>s'. handleRead (\<lambda>_. 0) (block_of ?j) [Received (packet 2 ''''), NoData] (Some 0) s = Inr s'
    \<and> tp_tasks (s_pool s') = tp_tasks (s_pool s) @ tasks_of 0 [(2, '''')]
    \<and> unsent (s_ctxs s' 0) = unsent (s_ctxs s 0) @ heartbeats [(2, '''')]
    \<and> rb_bytes (c_buffer (s_ctxs s' 0)) = []"
    using s by (intro read_delivers_packets [OF s(1,2), of _ "[(2, '''')]"])
      (simp_all add: decodeProtoToJson_def pool_room_def ThreadPool_def heartbeats_def)
  then show ?thesis using s by (auto simp: heartbeats_def)
qed

text \<open>
  Packets that arrive together with the end of the stream are lost: when the peer closes the
  connection (or reading fails), the handler disconnects without looking at the bytes it has just
  read, and enqueues nothing, whatever complete packets they hold.
\<close>

theorem eof_drops_packets:
  assumes "srv_inv hash s" and "getClientCtxByFd (s_reg s) fd = Some p"
    and "length (received answers) \<le> 2 ^ 61" and "recv_closes answers"
  shows "\<exists>s'. handleRead hash alloc answers (Some p) s = Inr s'
    \<and> tp_tasks (s_pool s') = tp_tasks (s_pool s) \<and> getClientCtxByFd (s_reg s') fd = None"
proof -
  let ?c = "s_ctxs s p"
  have reg: "c_fd ?c = fd" "rb_inv (c_buffer ?c)" "length (rb_bytes (c_buffer ?c)) \<le> 1024 * 1024"
    using srv_invD(3) [OF assms(1,2)] by (auto simp: recv_ok_def)
  have "length (rb_bytes (c_buffer ?c)) + length (received answers) \<le> 2 ^ 62" using reg(3) assms(3) by simp
  from recv_loop_ok [OF reg(2) this] assms(4) obtain rb n where
    r: "recv_loop answers (c_buffer ?c) = Inr (True, rb, n)" by auto
  let ?s = "set_ctx p (?c\<lparr>c_buffer := rb\<rparr>) (count_up (\<lambda>g. g\<lparr>g_readCount := g_readCount g + n\<rparr>) s)"
  have "handleRead hash alloc answers (Some p) s = Inr (handleDisconnect hash fd ?s)"
    using r reg(1) by (simp add: handleRead_def Let_def)
  moreover have "getClientCtxByFd (s_reg (handleDisconnect hash fd ?s)) fd = None"
    using handleDisconnect_lookup(2) [of hash ?s fd fd] srv_invD(1) [OF assms(1)] by simp
  ultimately show ?thesis by simp
qed

theorem eof_drops_packets_witness:
  "\<exists>s s'. handleRead (\<lambda>_. 0) (block_of (\<lambda>_. CHR 0x00)) [Received (packet 3 ''x''), EndOfStream] (Some 0) s = Inr s'
     \<and> getClientCtxByFd (s_reg s) 7 = Some 0 \<and> tp_tasks (s_pool s') = tp_tasks (s_pool s)"
proof -
  let ?j = "\<lambda>_. CHR 0x00"
  obtain s where s: "srv_inv (\<lambda>_. 0) s" "getClientCtxByFd (s_reg s) 7 = Some 0"
    using accepted_server [of ?j "\<lambda>_. 0"] by blast
  have "\<exists>s'. handleRead (\<lambda>_. 0) (block_of ?j) [Received (packet 3 ''x''), EndOfStream] (Some 0) s = Inr s'
    \<and> tp_tasks (s_pool s') = tp_tasks (s_pool s) \<and> getClientCtxByFd (s_reg s') 7 = None"
    by (rule eof_drops_packets [OF s]) simp_all
  with s(2) show ?thesis by blast
qed

text \<open>
  (C32) Closing a connection cleans up: its descriptor is unregistered, unwatched and closed exactly
  once, its user is no longer online, all other connections and users stay as they are, and a
  second call changes nothing.
\<close>

theorem disconnect_cleans_up:
  assumes "srv_inv hash s" and "getClientCtxByFd (s_reg s) fd = Some p"
  shows "getClientCtxByFd (s_reg (handleDisconnect hash fd s)) fd' =
      (if fd' = fd then None else getClientCtxByFd (s_reg s) fd')
    \<and> getOnlineCtx hash alive (s_reg (handleDisconnect hash fd s)) a =
      (if a = c_accountID (s_ctxs s p) then None else getOnlineCtx hash alive (s_reg s) a)
    \<and> s_closed (handleDisconnect hash fd s) = s_closed s @ [fd]
    \<and> (if c_reactorEpollFd (s_ctxs s p) = - 1 then s_epoll (handleDisconnect hash fd s) = s_epoll s
       else s_epoll (handleDisconnect hash fd s) (c_reactorEpollFd (s_ctxs s p)) fd = None)
    \<and> handleDisconnect hash fd (handleDisconnect hash fd s) = handleDisconnect hash fd s"
proof -
  note l = handleDisconnect_lookup [OF srv_invD(1) [OF assms(1)]]
  have "handleDisconnect hash fd (handleDisconnect hash fd s) = handleDisconnect hash fd s"
    unfolding handleDisconnect_def [of hash fd "handleDisconnect hash fd s"] l(2) by simp
  moreover have "s_closed (handleDisconnect hash fd s) = s_closed s @ [fd]"
    using assms(2) by (simp add: handleDisconnect_def Let_def)
  moreover have "if c_reactorEpollFd (s_ctxs s p) = - 1 then s_epoll (handleDisconnect hash fd s) = s_epoll s
       else s_epoll (handleDisconnect hash fd s) (c_reactorEpollFd (s_ctxs s p)) fd = None"
    using assms(2) by (simp add: handleDisconnect_def Let_def epoll_del_def)
  ultimately show ?thesis
    using l(2,3) [where fd = fd] assms(2) by simp
qed

theorem disconnect_cleans_up_witness:
  "\<exists>s. getClientCtxByFd (s_reg s) 7 = Some 0 \<and> getClientCtxByFd (s_reg (handleDisconnect (\<lambda>_. 0) 7 s)) 7 = None
     \<and> s_closed (handleDisconnect (\<lambda>_. 0) 7 s) = s_closed s @ [7]"
proof -
  obtain s where s: "srv_inv (\<lambda>_. 0) s" "getClientCtxByFd (s_reg s) 7 = Some 0"
    using accepted_server [of "\<lambda>_. CHR 0x00" "\<lambda>_. 0"] by blast
  from disconnect_cleans_up [OF s, of 7 "\<lambda>_. True" "''''"] s(2) show ?thesis by auto
qed

text \<open>
  (C38) A stale connection takes its user offline: when a user has logged in again on a second
  connection and the first one is closed, the entry of the second login is removed, although that
  connection is still registered and alive.
\<close>

theorem stale_disconnect_takes_user_offline:
  assumes "srv_inv hash s" and "getClientCtxByFd (s_reg s) fd1 = Some p"
    and "getClientCtxByFd (s_reg s) fd2 = Some q" and "fd1 \<noteq> fd2"
    and "c_accountID (s_ctxs s p) = user" and "getOnlineCtx hash alive (s_reg s) user = Some q"
  shows "getOnlineCtx hash alive (s_reg (handleDisconnect hash fd1 s)) user = None
    \<and> getClientCtxByFd (s_reg (handleDisconnect hash fd1 s)) fd2 = Some q"
  using handleDisconnect_lookup(2,3) [OF srv_invD(1) [OF assms(1)], where fd = fd1] assms(2-6)
  by simp

lemma two_logins:
  "\<exists>s. srv_inv (\<lambda>_. 0) s \<and> getClientCtxByFd (s_reg s) 7 = Some 0 \<and> getClientCtxByFd (s_reg s) 8 = Some 1
     \<and> c_accountID (s_ctxs s 0) = ''alice'' \<and> getOnlineCtx (\<lambda>_. 0) (\<lambda>_. True) (s_reg s) ''alice'' = Some 1"
proof -
  let ?h = "\<lambda>_ :: string. 0 :: size_t" and ?j = "\<lambda>_ :: nat. CHR 0x00"
  let ?acc = "[NewConnection 7 ''10.0.0.1'', NewConnection 8 ''10.0.0.2'']"
  obtain c where c: "ClientContext (block_of ?j) 7 ''10.0.0.1'' = Inr c" "c_fd c = 7"
    using ClientContext_ok [of ?j 7 "''10.0.0.1''"] by blast
  obtain d where d: "ClientContext (block_of ?j) 8 ''10.0.0.2'' = Inr d" "c_fd d = 8"
    using ClientContext_ok [of ?j 8 "''10.0.0.2''"] by blast
  obtain s where s: "handleAccept (block_of ?j) ?acc empty_server = Inr s" "srv_inv ?h s"
    using handleAccept_ok [OF empty_server_inv] by blast
  have look: "getClientCtxByFd (s_reg s) 7 = Some 0" "getClientCtxByFd (s_reg s) 8 = Some 1"
    using s(1) c d client_lookup(1) [OF empty_registry_inv [of ?h]]
      client_lookup(1) [OF registry_ops_inv(1) [OF empty_registry_inv [of ?h]]]
    by (auto simp: Let_def empty_server_def addFd_def)
  have inv0: "ctx_inv (s_ctxs s 0)" using srv_invD(2) [OF s(2)] srv_invD(3) [OF s(2) look(1)] by blast
  let ?s1 = "set_ctx 0 ((s_ctxs s 0)\<lparr>c_accountID := ''alice''\<rparr>) s"
  have i1: "srv_inv ?h ?s1"
    using inv0 by (intro set_ctx_inv [OF s(2)]) (auto simp: ctx_inv_def unsent_def recv_ok_def)
  let ?s2 = "?s1\<lparr>s_reg := setOnlineUser ?h ''alice'' (Some 1) (s_reg ?s1)\<rparr>"
  note r = srv_invD(1) [OF i1]
  have "srv_inv ?h ?s2"
    using i1 client_lookup(3) [OF r] registry_ops_inv(3) [OF r] by (simp add: srv_inv_def)
  then show ?thesis
    using look client_lookup(3) [OF r] online_lookup(1) [OF r, of "''alice''"]
    by (intro exI [of _ ?s2]) simp
qed

theorem stale_disconnect_takes_user_offline_witness:
  "\<exists>s. getOnlineCtx (\<lambda>_. 0) (\<lambda>_. True) (s_reg s) ''alice'' = Some 1
     \<and> getOnlineCtx (\<lambda>_. 0) (\<lambda>_. True) (s_reg (handleDisconnect (\<lambda>_. 0) 7 s)) ''alice'' = None
     \<and> getClientCtxByFd (s_reg (handleDisconnect (\<lambda>_. 0) 7 s)) 8 = Some 1"
proof -
  obtain s where s: "srv_inv (\<lambda>_. 0) s" "getClientCtxByFd (s_reg s) 7 = Some 0" "getClientCtxByFd (s_reg s) 8 = Some 1"
      "c_accountID (s_ctxs s 0) = ''alice''" "getOnlineCtx (\<lambda>_. 0) (\<lambda>_. True) (s_reg s) ''alice'' = Some 1"
    using two_logins by blast
  from stale_disconnect_takes_user_offline [OF s(1-3) _ s(4,5)] s(5) show ?thesis by auto
qed

end
