(* ===== verification/Chain.thy ===== *)
theory Chain
  imports Prelude
begin

text \<open>
  Singly linked lists as the sources have them: nodes that carry the pointer to the next one,
  \<open>nullptr\<close> at the end. \<open>chain nxt h xs\<close> says that following \<open>nxt\<close> from \<open>h\<close> visits the nodes \<open>xs\<close> and
  ends. The free lists of spans and of memory blocks are both of this kind.
\<close>

primrec chain :: "('a \<Rightarrow> 'a option) \<Rightarrow> 'a option \<Rightarrow> 'a list \<Rightarrow> bool" where
  "chain nxt h [] \<longleftrightarrow> h = None"
| "chain nxt h (x # xs) \<longleftrightarrow> h = Some x \<and> chain nxt (nxt x) xs"

lemma chain_None [simp]: "chain nxt None xs \<longleftrightarrow> xs = []"
  by (cases xs) auto

lemma chain_Some: "chain nxt (Some x) xs \<longleftrightarrow> (\<exists>ys. xs = x # ys \<and> chain nxt (nxt x) ys)"
  by (cases xs) auto

lemma chain_unique: "chain nxt h xs \<Longrightarrow> chain nxt h ys \<Longrightarrow> xs = ys"
  by (induction xs arbitrary: h ys) (auto simp: chain_Some)

lemma chain_cong: "(\<And>x. x \<in> set xs \<Longrightarrow> nxt' x = nxt x) \<Longrightarrow> chain nxt' h xs \<longleftrightarrow> chain nxt h xs"
  by (induction xs arbitrary: h) auto

lemma chain_upd_other [simp]: "x \<notin> set xs \<Longrightarrow> chain (nxt(x := v)) h xs \<longleftrightarrow> chain nxt h xs"
  by (induction xs arbitrary: h) auto

lemma chain_suffix: "chain nxt h (xs @ y # ys) \<Longrightarrow> chain nxt (Some y) (y # ys)"
  by (induction xs arbitrary: h) auto

lemma chain_distinct: "chain nxt h xs \<Longrightarrow> distinct xs"
proof (induction xs arbitrary: h)
  case (Cons x xs)
  have "x \<notin> set xs"
  proof
    assume "x \<in> set xs"
    then obtain us vs where xs: "xs = us @ x # vs" by (auto simp: in_set_conv_decomp)
    have "chain nxt (Some x) (x # xs)" using Cons.prems by auto
    moreover have "chain nxt (Some x) (x # vs)"
      using Cons.prems chain_suffix [of nxt "nxt x" us x vs] by (simp add: xs)
    ultimately have "x # xs = x # vs" by (rule chain_unique)
    then show False by (simp add: xs)
  qed
  with Cons show ?case by auto
qed simp

text \<open>Unlinking a node from the middle, and hanging a list behind the last node of another.\<close>

lemma chain_unlink:
  assumes "chain nxt h (us @ x # y # ys)"
  shows "chain (nxt(x := nxt y)) h (us @ x # ys)"
  using assms chain_distinct [OF assms] by (induction us arbitrary: h) (auto simp del: fun_upd_apply; simp)+

lemma chain_link:
  assumes "chain nxt h (xs @ [x])" and "chain nxt h' ys" and "x \<notin> set ys"
  shows "chain (nxt(x := h')) h (xs @ x # ys)"
  using assms chain_distinct [OF assms(1)] by (induction xs arbitrary: h) (auto simp del: fun_upd_apply; simp)+

end
