(* ===== verification/PageCache.thy ===== *)
theory PageCache
  imports Chain KeyStore
begin

text \<open>
  The page cache of the memory pool (\<open>v2/include/PageCache.h\<close>, \<open>v2/src/PageCache.cpp\<close>): spans of
  whole pages, obtained from \<open>mmap\<close>, kept in free lists by length, split when too long and merged
  with the span behind them when they come back.

  \<open>Span\<close> objects live in a heap of their own, \<open>pc_spans\<close>; \<open>new Span\<close> takes the next unused
  pointer and \<open>delete\<close> removes the object. \<open>pc_mem\<close> is the memory the cache manages: the words that
  have been mapped, by address. Addresses and page counts are natural numbers; the one product
  that can exceed 64 bits is reduced. What \<open>mmap\<close> answers is an argument.
\<close>

section \<open>The class\<close>

type_synonym addr = nat
type_synonym span_ptr = nat

definition PAGE_SIZE :: nat where "PAGE_SIZE = 4096"

record span =
  sp_pageAddr :: addr
  sp_numPages :: nat
  sp_next :: "span_ptr option"

record page_cache =
  pc_freeSpans :: "span_ptr option std_map"
  pc_spanMap :: "addr \<rightharpoonup> span_ptr"
  pc_spans :: "span_ptr \<rightharpoonup> span"
  pc_newSpan :: span_ptr
  pc_mem :: "addr \<rightharpoonup> nat"

definition PageCache :: page_cache where
  "PageCache = \<lparr>pc_freeSpans = [], pc_spanMap = Map.empty, pc_spans = Map.empty, pc_newSpan = 0,
     pc_mem = Map.empty\<rparr>"

text \<open>Reading a \<open>Span\<close> through a pointer, and \<open>new Span\<close> with its three fields.\<close>

definition span_at :: "span_ptr option \<Rightarrow> page_cache \<Rightarrow> fault + span_ptr \<times> span" where
  "span_at p pc = bindE (deref p) (\<lambda>p.
     case pc_spans pc p of None \<Rightarrow> Inl DanglingPointer | Some s \<Rightarrow> Inr (p, s))"

definition new_span :: "span \<Rightarrow> page_cache \<Rightarrow> span_ptr \<times> page_cache" where
  "new_span s pc =
     (pc_newSpan pc, pc\<lparr>pc_spans := (pc_spans pc)(pc_newSpan pc \<mapsto> s), pc_newSpan := pc_newSpan pc + 1\<rparr>)"

text \<open>\<open>freeSpans_[n]\<close> as \<open>std::map\<close> defines it: a missing entry is created, with \<open>nullptr\<close>.\<close>

definition list_of :: "nat \<Rightarrow> page_cache \<Rightarrow> span_ptr option \<times> page_cache" where
  "list_of n pc =
     (case map_of (pc_freeSpans pc) n of
        Some l \<Rightarrow> (l, pc)
      | None \<Rightarrow> (None, pc\<lparr>pc_freeSpans := map_put n None (pc_freeSpans pc)\<rparr>))"

definition push_free :: "span_ptr \<Rightarrow> span \<Rightarrow> page_cache \<Rightarrow> page_cache" where
  "push_free p s pc =
     (let (list, pc) = list_of (sp_numPages s) pc
      in pc\<lparr>pc_spans := (pc_spans pc)(p \<mapsto> s\<lparr>sp_next := list\<rparr>),
            pc_freeSpans := map_put (sp_numPages s) (Some p) (pc_freeSpans pc)\<rparr>)"

definition systemAlloc :: "(nat \<Rightarrow> addr option) \<Rightarrow> nat \<Rightarrow> page_cache \<Rightarrow> addr option \<times> page_cache" where
  "systemAlloc mmap numPages pc =
     (let size = numPages * PAGE_SIZE mod 2 ^ 64 in
      case mmap size of
        None \<Rightarrow> (None, pc)
      | Some ptr \<Rightarrow> (Some ptr, pc\<lparr>pc_mem := (\<lambda>a. if ptr \<le> a \<and> a < ptr + size then Some 0 else pc_mem pc a)\<rparr>))"

definition allocateSpan :: "(nat \<Rightarrow> addr option) \<Rightarrow> nat \<Rightarrow> page_cache \<Rightarrow> fault + addr option \<times> page_cache" where
  "allocateSpan mmap numPages pc =
     (case lower_bound numPages (pc_freeSpans pc) of
        Some (k, it) \<Rightarrow>
          bindE (span_at it pc) (\<lambda>(p, span).
            let pc = (case sp_next span of
                        Some q \<Rightarrow> pc\<lparr>pc_freeSpans := map_put k (Some q) (pc_freeSpans pc)\<rparr>
                      | None \<Rightarrow> pc\<lparr>pc_freeSpans := map_erase k (pc_freeSpans pc)\<rparr>);
                pc = (if sp_numPages span > numPages then
                        let rest = \<lparr>sp_pageAddr = sp_pageAddr span + numPages * PAGE_SIZE,
                                    sp_numPages = sp_numPages span - numPages, sp_next = None\<rparr>;
                            (newSpan, pc) = new_span rest pc;
                            pc = push_free newSpan rest pc
                        in pc\<lparr>pc_spans := (pc_spans pc)(p \<mapsto> span\<lparr>sp_numPages := numPages\<rparr>)\<rparr>
                      else pc)
            in Inr (Some (sp_pageAddr span),
                    pc\<lparr>pc_spanMap := (pc_spanMap pc)(sp_pageAddr span \<mapsto> p)\<rparr>))
      | None \<Rightarrow>
          (case systemAlloc mmap numPages pc of
             (None, pc) \<Rightarrow> Inr (None, pc)
           | (Some memory, pc) \<Rightarrow>
               let (p, pc) = new_span \<lparr>sp_pageAddr = memory, sp_numPages = numPages, sp_next = None\<rparr> pc
               in Inr (Some memory, pc\<lparr>pc_spanMap := (pc_spanMap pc)(memory \<mapsto> p)\<rparr>)))"

text \<open>
  The loop of \<open>deallocateSpan\<close> that looks for a span behind the node \<open>prev\<close> of a free list and takes
  it out: whether it was found, and the heap. On a cyclic list it need not end.
\<close>

partial_function (option) unlink_loop ::
    "span_ptr \<Rightarrow> span_ptr \<Rightarrow> span \<Rightarrow> (span_ptr \<rightharpoonup> span) \<Rightarrow> (fault + bool \<times> (span_ptr \<rightharpoonup> span)) option" where
  "unlink_loop prev nextSpan next_s heap =
     (case heap prev of
        None \<Rightarrow> Some (Inl DanglingPointer)
      | Some s \<Rightarrow>
          (case sp_next s of
             None \<Rightarrow> Some (Inr (False, heap))
           | Some q \<Rightarrow>
               if q = nextSpan then Some (Inr (True, heap(prev \<mapsto> s\<lparr>sp_next := sp_next next_s\<rparr>)))
               else unlink_loop q nextSpan next_s heap))"

text \<open>Taking the following span out of its free list, if it is in there.\<close>

definition unlink_next :: "span_ptr \<Rightarrow> span \<Rightarrow> page_cache \<Rightarrow> fault + bool \<times> page_cache" where
  "unlink_next nextSpan next_s pc =
     (let (nextList, pc) = list_of (sp_numPages next_s) pc in
      if nextList = Some nextSpan then
        Inr (True, pc\<lparr>pc_freeSpans := map_put (sp_numPages next_s) (sp_next next_s) (pc_freeSpans pc)\<rparr>)
      else case nextList of
          None \<Rightarrow> Inr (False, pc)
        | Some prev \<Rightarrow>
            (case unlink_loop prev nextSpan next_s (pc_spans pc) of
               None \<Rightarrow> Inl Diverges
             | Some r \<Rightarrow> bindE r (\<lambda>(found, heap). Inr (found, pc\<lparr>pc_spans := heap\<rparr>))))"

definition deallocateSpan :: "addr \<Rightarrow> nat \<Rightarrow> page_cache \<Rightarrow> fault + page_cache" where
  "deallocateSpan ptr numPages pc =
     (case pc_spanMap pc ptr of
        None \<Rightarrow> Inr pc
      | Some span \<Rightarrow>
          let nextAddr = ptr + numPages * PAGE_SIZE in
          bindE (case pc_spanMap pc nextAddr of
              None \<Rightarrow> Inr pc
            | Some nextSpan \<Rightarrow>
                bindE (span_at (Some nextSpan) pc) (\<lambda>(_, next_s).
                bindE (unlink_next nextSpan next_s pc) (\<lambda>(found, pc).
                if found then
                  bindE (span_at (Some span) pc) (\<lambda>(_, s).
                  Inr (pc\<lparr>pc_spans := (pc_spans pc)(span \<mapsto> s\<lparr>sp_numPages := sp_numPages s + sp_numPages next_s\<rparr>,
                                                       nextSpan := None),
                          pc_spanMap := (pc_spanMap pc)(nextAddr := None)\<rparr>))
                else Inr pc)))
            (\<lambda>pc. bindE (span_at (Some span) pc) (\<lambda>(_, s). Inr (push_free span s pc))))"

section \<open>Free lists\<close>

text \<open>
  The links of the heap, the head of a free list (an entry with \<open>nullptr\<close> counts as no list), and
  the lists as sequences: \<open>lists_ok F\<close> says that the free list of length \<open>k\<close> visits exactly \<open>F k\<close>,
  whose spans are \<open>k\<close> pages long.
\<close>

definition nxt :: "(span_ptr \<rightharpoonup> span) \<Rightarrow> span_ptr \<Rightarrow> span_ptr option" where
  "nxt heap p = (case heap p of None \<Rightarrow> None | Some s \<Rightarrow> sp_next s)"

definition head :: "span_ptr option std_map \<Rightarrow> nat \<Rightarrow> span_ptr option" where
  "head fs k = (case map_of fs k of None \<Rightarrow> None | Some h \<Rightarrow> h)"

text \<open>Where the spans are: start address and number of pages.\<close>

definition geo :: "(span_ptr \<rightharpoonup> span) \<Rightarrow> span_ptr \<rightharpoonup> addr \<times> nat" where
  "geo heap p = map_option (\<lambda>s. (sp_pageAddr s, sp_numPages s)) (heap p)"

definition lists_ok :: "(nat \<Rightarrow> span_ptr list) \<Rightarrow> span_ptr option std_map \<Rightarrow> (span_ptr \<rightharpoonup> span) \<Rightarrow> bool" where
  "lists_ok F fs heap \<longleftrightarrow> map_inv fs \<and> (\<forall>k. chain (nxt heap) (head fs k) (F k))
     \<and> (\<forall>k. \<forall>p \<in> set (F k). \<exists>a. geo heap p = Some (a, k))"

lemma head_put: "map_inv fs \<Longrightarrow> head (map_put k h fs) = (head fs)(k := h)"
  by (auto simp: head_def map_of_put)

lemma head_erase: "head (map_erase k fs) = (head fs)(k := None)"
  by (auto simp: head_def map_of_erase)

lemma nxt_upd: "nxt (heap(p := x)) = (nxt heap)(p := (case x of None \<Rightarrow> None | Some s \<Rightarrow> sp_next s))"
  by (auto simp: nxt_def)

lemma geo_upd: "geo (heap(p := x)) = (geo heap)(p := map_option (\<lambda>s. (sp_pageAddr s, sp_numPages s)) x)"
  by (auto simp: geo_def)

lemma lists_ok_one: "lists_ok F fs heap \<Longrightarrow> p \<in> set (F k) \<Longrightarrow> p \<in> set (F j) \<Longrightarrow> j = k"
  unfolding lists_ok_def by (metis option.inject prod.inject)

definition touch :: "nat \<Rightarrow> span_ptr option std_map \<Rightarrow> span_ptr option std_map" where
  "touch k fs = (if map_of fs k = None then map_put k None fs else fs)"

lemma list_of_eq: "list_of k pc = (head (pc_freeSpans pc) k, pc\<lparr>pc_freeSpans := touch k (pc_freeSpans pc)\<rparr>)"
  by (cases "map_of (pc_freeSpans pc) k") (auto simp: list_of_def head_def touch_def)

lemma touch_inv: "map_inv fs \<Longrightarrow> map_inv (touch k fs)"
  by (simp add: touch_def map_put_inv)

lemma head_touch: "map_inv fs \<Longrightarrow> head (touch k fs) = head fs"
  by (auto simp: touch_def head_put head_def)

lemma lists_ok_heads: "lists_ok F fs heap \<Longrightarrow> map_inv fs' \<Longrightarrow> head fs' = head fs \<Longrightarrow> lists_ok F fs' heap"
  by (simp add: lists_ok_def)

lemma lists_ok_touch: "lists_ok F fs heap \<Longrightarrow> lists_ok F (touch k fs) heap"
  by (rule lists_ok_heads) (auto simp: lists_ok_def touch_inv head_touch)

lemma lists_ok_other:
  assumes "lists_ok F fs heap" and "\<And>k. p \<notin> set (F k)"
  shows "lists_ok F fs (heap(p := x))"
  using assms by (auto simp: lists_ok_def nxt_upd geo_upd simp del: fun_upd_apply) (metis fun_upd_other)

lemma lists_ok_pop:
  assumes "lists_ok F fs heap" and "F k = p # xs" and "map_inv fs'" and "head fs' = (head fs)(k := nxt heap p)"
  shows "lists_ok (F(k := xs)) fs' heap"
proof -
  have "chain (nxt heap) (head fs k) (p # xs)" using assms(1,2) unfolding lists_ok_def by metis
  then show ?thesis using assms unfolding lists_ok_def by (auto; metis list.set_intros(2))
qed

lemma lists_ok_union_remove:
  assumes lists: "lists_ok F fs heap" and y: "y \<in> set (F m)"
  shows "(\<Union>k. set ((F(m := remove1 y (F m))) k)) = (\<Union>k. set (F k)) - {y}"
proof (intro equalityI subsetI)
  fix x
  assume "x \<in> (\<Union>k. set (F k)) - {y}"
  then obtain k where "x \<in> set (F k)" "x \<noteq> y" by auto
  then show "x \<in> (\<Union>k. set ((F(m := remove1 y (F m))) k))" by (intro UN_I [of k]) auto
next
  have dist: "distinct (F m)" using lists unfolding lists_ok_def by (metis chain_distinct)
  fix x
  assume "x \<in> (\<Union>k. set ((F(m := remove1 y (F m))) k))"
  then obtain k where k: "x \<in> set ((F(m := remove1 y (F m))) k)" by auto
  then have "x \<in> set (F k)" using set_remove1_subset [of y "F m"] by (auto split: if_splits)
  moreover have "x \<noteq> y"
  proof (cases "k = m")
    case False
    then show ?thesis using lists_ok_one [OF lists y] \<open>x \<in> set (F k)\<close> by blast
  qed (use k dist in simp)
  ultimately show "x \<in> (\<Union>k. set (F k)) - {y}" by auto
qed

lemma lists_ok_union_pop:
  assumes "lists_ok F fs heap" and "F m = p # xs"
  shows "(\<Union>k. set ((F(m := xs)) k)) = (\<Union>k. set (F k)) - {p}"
  using lists_ok_union_remove [OF assms(1), of p m] assms(2) by simp

lemma union_push: "(\<Union>k. set ((F(j := p # F j)) k)) = insert p (\<Union>k. set (F k))"
  by (auto split: if_splits)

lemma lists_ok_push:
  assumes "lists_ok F fs heap" and "\<And>k. p \<notin> set (F k)" and "sp_numPages s = k"
  shows "lists_ok (F(k := p # F k)) (map_put k (Some p) fs) (heap(p \<mapsto> s\<lparr>sp_next := head fs k\<rparr>))"
  using assms
  by (auto simp: lists_ok_def nxt_upd geo_upd head_put map_put_inv)

lemma push_free_eq:
  "push_free p s pc = pc\<lparr>pc_spans := (pc_spans pc)(p \<mapsto> s\<lparr>sp_next := head (pc_freeSpans pc) (sp_numPages s)\<rparr>),
     pc_freeSpans := map_put (sp_numPages s) (Some p) (touch (sp_numPages s) (pc_freeSpans pc))\<rparr>"
  by (simp add: push_free_def list_of_eq)

lemma push_free_lists:
  assumes "lists_ok F (pc_freeSpans pc) (pc_spans pc)" and "\<And>k. p \<notin> set (F k)" and "sp_numPages s = k"
  shows "lists_ok (F(k := p # F k)) (pc_freeSpans (push_free p s pc)) (pc_spans (push_free p s pc))"
proof -
  have "map_inv (pc_freeSpans pc)" using assms(1) by (simp add: lists_ok_def)
  then have "head (pc_freeSpans pc) = head (touch k (pc_freeSpans pc))" by (simp add: head_touch)
  then show ?thesis
    using lists_ok_push [OF lists_ok_touch [OF assms(1)] assms(2,3), of k] assms(3) by (simp add: push_free_eq)
qed

lemma lists_ok_unlink:
  assumes "lists_ok F fs heap" and "F k = us @ x # y # ys" and "heap x = Some sx"
  shows "lists_ok (F(k := us @ x # ys)) fs (heap(x \<mapsto> sx\<lparr>sp_next := nxt heap y\<rparr>))"
  unfolding lists_ok_def
proof (intro conjI allI ballI)
  let ?heap = "heap(x \<mapsto> sx\<lparr>sp_next := nxt heap y\<rparr>)"
  show "map_inv fs" using assms(1) by (simp add: lists_ok_def)
  have g: "geo ?heap = geo heap" using assms(3) by (auto simp: geo_def)
  show "\<exists>a. geo ?heap p = Some (a, j)" if "p \<in> set ((F(k := us @ x # ys)) j)" for p j
    using assms(1,2) that unfolding g lists_ok_def by (cases "j = k") auto
  show "chain (nxt ?heap) (head fs j) ((F(k := us @ x # ys)) j)" for j
  proof (cases "j = k")
    case True
    have "chain (nxt heap) (head fs k) (us @ x # y # ys)" using assms(1,2) unfolding lists_ok_def by metis
    then show ?thesis using True by (simp add: nxt_upd chain_unlink fun_upd_same del: fun_upd_apply)
  next
    case False
    then have "x \<notin> set (F j)" using lists_ok_one [OF assms(1), of x k j] assms(2) by auto
    then show ?thesis using False assms(1) by (simp add: nxt_upd lists_ok_def fun_upd_other del: fun_upd_apply)
  qed
qed

lemma unlink_loop_absent:
  assumes "chain (nxt heap) (Some p) (p # xs)" and "\<And>x. x \<in> set (p # xs) \<Longrightarrow> heap x \<noteq> None" and "y \<notin> set xs"
  shows "unlink_loop p y sy heap = Some (Inr (False, heap))"
  using assms
proof (induction xs arbitrary: p)
  case Nil
  then obtain s where "heap p = Some s" by fastforce
  with Nil show ?case by (simp add: unlink_loop.simps [of p] nxt_def)
next
  case (Cons q xs)
  then obtain s where s: "heap p = Some s" by fastforce
  with Cons have q: "sp_next s = Some q" "q \<noteq> y" by (auto simp: nxt_def)
  have "unlink_loop q y sy heap = Some (Inr (False, heap))" using Cons by auto
  with q s show ?case by (simp add: unlink_loop.simps [of p])
qed

lemma unlink_loop_present:
  assumes "chain (nxt heap) (Some p) (us @ x # y # ys)" and "\<And>z. z \<in> set (us @ x # y # ys) \<Longrightarrow> heap z \<noteq> None"
    and "heap x = Some sx" and "y \<noteq> p"
  shows "unlink_loop p y sy heap = Some (Inr (True, heap(x \<mapsto> sx\<lparr>sp_next := sp_next sy\<rparr>)))"
  using assms
proof (induction us arbitrary: p)
  case Nil
  then have "p = x" and "sp_next sx = Some y" by (auto simp: nxt_def)
  then show ?case using Nil by (simp add: unlink_loop.simps [of x] fun_upd_def)
next
  case (Cons u us)
  have u: "u = p" using Cons.prems(1) by simp
  have d: "distinct (u # us @ x # y # ys)" using chain_distinct [OF Cons.prems(1)] by simp
  obtain q where q: "nxt heap p = Some q" "chain (nxt heap) (Some q) (us @ x # y # ys)"
    using Cons.prems(1) by (cases us) (auto simp: u)
  have "q \<noteq> y" using q(2) d by (cases us) auto
  moreover from this have "unlink_loop q y sy heap = Some (Inr (True, heap(x \<mapsto> sx\<lparr>sp_next := sp_next sy\<rparr>)))"
    using Cons.IH [OF q(2)] Cons.prems by auto
  moreover obtain s where "heap p = Some s" "sp_next s = Some q"
    using q(1) by (auto simp: nxt_def split: option.splits)
  ultimately show ?case by (simp add: unlink_loop.simps [of p] fun_upd_def)
qed

text \<open>
  \<open>unlink_next\<close> takes the span out of the list it is in, if it is in one; what it changes in the
  heap are links.
\<close>

lemma unlink_next_ok:
  assumes ok: "lists_ok F (pc_freeSpans pc) (pc_spans pc)" and y: "pc_spans pc y = Some sy"
    and k: "sp_numPages sy = k"
  shows "\<exists>fs heap. unlink_next y sy pc = Inr (y \<in> set (F k), pc\<lparr>pc_freeSpans := fs, pc_spans := heap\<rparr>)
    \<and> lists_ok (F(k := remove1 y (F k))) fs heap \<and> geo heap = geo (pc_spans pc)"
proof -
  let ?fs = "touch k (pc_freeSpans pc)" and ?heap = "pc_spans pc"
  have ok': "lists_ok F ?fs ?heap" using ok by (rule lists_ok_touch)
  have inv: "map_inv ?fs" and ch: "chain (nxt ?heap) (head ?fs k) (F k)"
    using ok' by (auto simp: lists_ok_def)
  have hd: "head (pc_freeSpans pc) = head ?fs" using ok by (simp add: lists_ok_def head_touch)
  have some: "?heap z \<noteq> None" if "z \<in> set (F k)" for z
    using ok that unfolding lists_ok_def geo_def by fastforce
  have next_y: "nxt ?heap y = sp_next sy" using y by (simp add: nxt_def)
  show ?thesis
  proof (cases "F k")
    case Nil
    with ch have "head ?fs k = None" by simp
    with Nil ok' hd k show ?thesis
      by (intro exI [of _ ?fs] exI [of _ ?heap]) (simp add: unlink_next_def list_of_eq fun_upd_idem)
  next
    case (Cons p xs)
    with ch have p: "head ?fs k = Some p" by simp
    show ?thesis
    proof (cases "p = y")
      case True
      have "lists_ok (F(k := xs)) (map_put k (sp_next sy) ?fs) ?heap"
        using lists_ok_pop [OF ok' Cons map_put_inv [OF inv]] True by (simp add: next_y head_put [OF inv])
      with True Cons p hd k show ?thesis
        by (intro exI [of _ "map_put k (sp_next sy) ?fs"] exI [of _ ?heap]) (simp add: unlink_next_def list_of_eq)
    next
      case False
      have ch': "chain (nxt ?heap) (Some p) (p # xs)" using ch Cons by simp
      show ?thesis
      proof (cases "y \<in> set xs")
        case True
        then obtain us' ys where xs: "xs = us' @ y # ys" "y \<notin> set us'" by (auto dest: split_list_first)
        obtain us x where px: "p # us' = us @ [x]" using append_butlast_last_id [of "p # us'"] by (metis list.distinct(1))
        then have F: "F k = us @ x # y # ys" using Cons xs by (metis append_Cons append_assoc append_Nil)
        have y_us: "y \<notin> set (us @ [x])" using xs(2) False by (metis px set_ConsD)
        obtain sx where sx: "?heap x = Some sx" using some F by fastforce
        have "chain (nxt ?heap) (Some p) (us @ x # y # ys)" using ch' Cons F by simp
        from unlink_loop_present [OF this _ sx, of sy] some F False
        have "unlink_loop p y sy ?heap = Some (Inr (True, ?heap(x \<mapsto> sx\<lparr>sp_next := sp_next sy\<rparr>)))"
          by auto
        moreover have "remove1 y (F k) = us @ x # ys" using F y_us by (auto simp: remove1_append)
        moreover have "geo (?heap(x \<mapsto> sx\<lparr>sp_next := sp_next sy\<rparr>)) = geo ?heap" using sx by (auto simp: geo_def)
        ultimately show ?thesis
          using lists_ok_unlink [OF ok' F sx] p hd k False F
          by (intro exI [of _ ?fs] exI [of _ "?heap(x \<mapsto> sx\<lparr>sp_next := sp_next sy\<rparr>)"])
            (simp add: unlink_next_def list_of_eq next_y)
      next
        case notin: False
        have "unlink_loop p y sy ?heap = Some (Inr (False, ?heap))"
          using unlink_loop_absent [OF ch' _ notin] some Cons by auto
        moreover have "remove1 y (F k) = F k" using Cons False notin by (simp add: remove1_idem)
        ultimately show ?thesis
          using ok' p hd k False Cons notin
          by (intro exI [of _ ?fs] exI [of _ ?heap]) (simp add: unlink_next_def list_of_eq fun_upd_idem)
      qed
    qed
  qed
qed

definition others :: "'k set \<Rightarrow> ('k \<rightharpoonup> 'v) \<Rightarrow> 'v set" where
  "others P G = {r. \<exists>q. q \<notin> P \<and> G q = Some r}"

lemma ran_others: "ran G = {r. \<exists>q \<in> P. G q = Some r} \<union> others P G"
  by (auto simp: ran_def others_def)

lemma others_upd: "others S (G(q \<mapsto> x)) = (if q \<in> S then {} else {x}) \<union> others (insert q S) G"
  by (auto simp: others_def; metis)

lemma others_None: "G q = None \<Longrightarrow> others (insert q S) G = others S G"
  by (auto simp: others_def) (metis option.distinct(1))

lemma others_insert: "G p = Some r \<Longrightarrow> (\<And>q. G q = Some r \<Longrightarrow> q = p) \<Longrightarrow> others (insert p S) G = others S G - {r}"
proof (intro equalityI subsetI)
  fix x
  assume p: "G p = Some r" and one: "\<And>q. G q = Some r \<Longrightarrow> q = p"
  {
    assume "x \<in> others S G - {r}"
    then obtain q where q: "q \<notin> S" "G q = Some x" "x \<noteq> r" by (auto simp: others_def)
    then have "q \<noteq> p" using p by auto
    with q show "x \<in> others (insert p S) G" by (auto simp: others_def)
  next
    assume "x \<in> others (insert p S) G"
    then obtain q where q: "q \<notin> S" "q \<noteq> p" "G q = Some x" by (auto simp: others_def)
    then have "x \<noteq> r" using one [of q] by blast
    with q show "x \<in> others S G - {r}" by (auto simp: others_def)
  }
qed

lemma others_Diff: "G p = Some r \<Longrightarrow> others (S - {p}) G = insert r (others (insert p S) G)"
  by (auto simp: others_def; metis option.inject)

section \<open>Invariant\<close>

definition area :: "addr \<times> nat \<Rightarrow> addr set" where
  "area r = {fst r ..< fst r + snd r * PAGE_SIZE}"

text \<open>
  The spans are page-aligned, do not overlap and together are the mapped memory; a span that is
  not free is found under its address.
\<close>

definition geo_ok :: "span_ptr set \<Rightarrow> (span_ptr \<rightharpoonup> addr \<times> nat) \<Rightarrow> (addr \<rightharpoonup> span_ptr) \<Rightarrow> span_ptr \<Rightarrow> (addr \<rightharpoonup> nat) \<Rightarrow> bool" where
  "geo_ok free G sm new mem \<longleftrightarrow>
     (\<forall>a p. sm a = Some p \<longrightarrow> (\<exists>n. G p = Some (a, n)))
     \<and> (\<forall>p a n. G p = Some (a, n) \<longrightarrow> 0 < a \<and> PAGE_SIZE dvd a \<and> 0 < n \<and> p < new)
     \<and> (\<forall>p a n. G p = Some (a, n) \<longrightarrow> p \<notin> free \<longrightarrow> sm a = Some p)
     \<and> (\<forall>p q r r'. p \<noteq> q \<longrightarrow> G p = Some r \<longrightarrow> G q = Some r' \<longrightarrow> area r \<inter> area r' = {})
     \<and> dom mem = \<Union> (area ` ran G)"

definition pc_ok :: "(nat \<Rightarrow> span_ptr list) \<Rightarrow> page_cache \<Rightarrow> bool" where
  "pc_ok F pc \<longleftrightarrow> lists_ok F (pc_freeSpans pc) (pc_spans pc)
     \<and> geo_ok (\<Union>k. set (F k)) (geo (pc_spans pc)) (pc_spanMap pc) (pc_newSpan pc) (pc_mem pc)"

definition pc_inv :: "page_cache \<Rightarrow> bool" where
  "pc_inv pc \<longleftrightarrow> (\<exists>F. pc_ok F pc)"

definition pc_free :: "page_cache \<Rightarrow> span_ptr set" where
  "pc_free pc = {p. \<exists>k xs. chain (nxt (pc_spans pc)) (head (pc_freeSpans pc) k) xs \<and> p \<in> set xs}"

text \<open>The spans that are handed out, as start and number of pages.\<close>

definition pc_used :: "page_cache \<Rightarrow> (addr \<times> nat) set" where
  "pc_used pc = {r. \<exists>p. geo (pc_spans pc) p = Some r \<and> p \<notin> pc_free pc}"

lemma pc_free_eq: "lists_ok F (pc_freeSpans pc) (pc_spans pc) \<Longrightarrow> pc_free pc = (\<Union>k. set (F k))"
  unfolding pc_free_def lists_ok_def by (auto dest: chain_unique)

lemma area_less: "0 < n \<Longrightarrow> a \<in> area (a, n)"
  by (simp add: area_def PAGE_SIZE_def)

lemma area_split: "n \<le> m \<Longrightarrow> area (a, m) = area (a, n) \<union> area (a + n * PAGE_SIZE, m - n)"
  by (auto simp: area_def PAGE_SIZE_def)

lemma geo_okI:
  assumes "\<And>a p. sm a = Some p \<Longrightarrow> \<exists>n. G p = Some (a, n)"
    and "\<And>p a n. G p = Some (a, n) \<Longrightarrow> 0 < a \<and> PAGE_SIZE dvd a \<and> 0 < n \<and> p < new"
    and "\<And>p a n. G p = Some (a, n) \<Longrightarrow> p \<notin> free \<Longrightarrow> sm a = Some p"
    and "\<And>p q r r'. p \<noteq> q \<Longrightarrow> G p = Some r \<Longrightarrow> G q = Some r' \<Longrightarrow> area r \<inter> area r' = {}"
    and "dom mem = \<Union> (area ` ran G)"
  shows "geo_ok free G sm new mem"
  unfolding geo_ok_def
proof (intro conjI)
  show "\<forall>a p. sm a = Some p \<longrightarrow> (\<exists>n. G p = Some (a, n))" using assms(1) by simp
  show "\<forall>p a n. G p = Some (a, n) \<longrightarrow> 0 < a \<and> PAGE_SIZE dvd a \<and> 0 < n \<and> p < new" using assms(2) by simp
  show "\<forall>p a n. G p = Some (a, n) \<longrightarrow> p \<notin> free \<longrightarrow> sm a = Some p" using assms(3) by simp
  show "\<forall>p q r r'. p \<noteq> q \<longrightarrow> G p = Some r \<longrightarrow> G q = Some r' \<longrightarrow> area r \<inter> area r' = {}"
    using assms(4) by (intro allI impI)
qed (rule assms(5))

lemma geo_okD:
  assumes "geo_ok free G sm new mem"
  shows geo_mapped: "sm a = Some p \<Longrightarrow> \<exists>n. G p = Some (a, n)"
    and geo_pos: "G p = Some (a, n) \<Longrightarrow> 0 < a \<and> PAGE_SIZE dvd a \<and> 0 < n \<and> p < new"
    and geo_found: "G p = Some (a, n) \<Longrightarrow> p \<notin> free \<Longrightarrow> sm a = Some p"
    and geo_disjoint: "p \<noteq> q \<Longrightarrow> G p = Some r \<Longrightarrow> G q = Some r' \<Longrightarrow> area r \<inter> area r' = {}"
    and geo_mem: "dom mem = \<Union> (area ` ran G)"
proof -
  note ok = assms [unfolded geo_ok_def]
  show "sm a = Some p \<Longrightarrow> \<exists>n. G p = Some (a, n)" by (rule ok [THEN conjunct1, rule_format])
  show "G p = Some (a, n) \<Longrightarrow> 0 < a \<and> PAGE_SIZE dvd a \<and> 0 < n \<and> p < new"
    using ok [THEN conjunct2, THEN conjunct1] by simp
  show "G p = Some (a, n) \<Longrightarrow> p \<notin> free \<Longrightarrow> sm a = Some p"
    using ok [THEN conjunct2, THEN conjunct2, THEN conjunct1] by simp
  show "p \<noteq> q \<Longrightarrow> G p = Some r \<Longrightarrow> G q = Some r' \<Longrightarrow> area r \<inter> area r' = {}"
    by (rule ok [THEN conjunct2, THEN conjunct2, THEN conjunct2, THEN conjunct1, rule_format])
  show "dom mem = \<Union> (area ` ran G)"
    by (rule ok [THEN conjunct2, THEN conjunct2, THEN conjunct2, THEN conjunct2])
qed

lemma geo_ok_words:
  assumes "dom mem' = dom mem"
  shows "geo_ok free G sm new mem' \<longleftrightarrow> geo_ok free G sm new mem"
  unfolding geo_ok_def assms ..

lemma geo_ok_unique:
  assumes "geo_ok free G sm new mem" and "G p = Some (a, n)" and "G q = Some (a, m)"
  shows "q = p"
  using geo_disjoint [OF assms(1) _ assms(2,3)] area_less [of n a] area_less [of m a]
    geo_pos [OF assms(1,2)] geo_pos [OF assms(1,3)] by auto

lemma geo_ok_mono:
  assumes ok: "geo_ok free G sm new mem" and sub: "free \<subseteq> free'"
  shows "geo_ok free' G sm new mem"
proof (rule geo_okI)
  show "sm a = Some p" if "G p = Some (a, n)" "p \<notin> free'" for p a n
    using geo_found [OF ok that(1)] that(2) sub by auto
qed (use geo_okD [OF ok] in auto)

lemma geo_ok_take:
  assumes ok: "geo_ok free G sm new mem" and p: "G p = Some (a, n)"
  shows "geo_ok (free - {p}) G (sm(a \<mapsto> p)) new mem"
proof (rule geo_okI)
  show "\<exists>m. G q = Some (b, m)" if "(sm(a \<mapsto> p)) b = Some q" for b q
    using that p geo_mapped [OF ok] by (auto split: if_splits)
  show "(sm(a \<mapsto> p)) b = Some q" if "G q = Some (b, m)" "q \<notin> free - {p}" for q b m
    using that p geo_found [OF ok that(1)] geo_ok_unique [OF ok p, of q m] by auto
qed (use geo_okD [OF ok] in auto)

lemma geo_ok_new:
  assumes ok: "geo_ok free G sm new mem" and a: "0 < a" "PAGE_SIZE dvd a" "0 < n" and fresh: "area (a, n) \<inter> dom mem = {}"
    and mem: "dom mem' = dom mem \<union> area (a, n)"
  shows "geo_ok free (G(new \<mapsto> (a, n))) (sm(a \<mapsto> new)) (new + 1) mem'"
proof (rule geo_okI)
  have out: "area (a, n) \<inter> area r = {}" if "G q = Some r" for q r
    using fresh geo_mem [OF ok] that by (force simp: ran_def)
  have new: "G new = None" using geo_pos [OF ok, of new] by (cases "G new") auto
  have noa: "b \<noteq> a" if "G q = Some (b, m)" for q b m
    using out [OF that] area_less [of n a] area_less [of m b] geo_pos [OF ok that] a(3) by auto
  show "\<exists>m. (G(new \<mapsto> (a, n))) p = Some (b, m)" if "(sm(a \<mapsto> new)) b = Some p" for b p
    using that geo_mapped [OF ok, of b p] new by (cases "b = a") auto
  show "area r \<inter> area r' = {}" if "p \<noteq> q" "(G(new \<mapsto> (a, n))) p = Some r" "(G(new \<mapsto> (a, n))) q = Some r'" for p q r r'
    using that geo_disjoint [OF ok, of p q r r'] out [of p r] out [of q r']
    by (cases "p = new"; cases "q = new") auto
  show "dom mem' = \<Union> (area ` ran (G(new \<mapsto> (a, n))))"
    using mem geo_mem [OF ok] new by auto
  show "0 < b \<and> PAGE_SIZE dvd b \<and> 0 < m \<and> p < new + 1" if "(G(new \<mapsto> (a, n))) p = Some (b, m)" for p b m
    using that geo_pos [OF ok, of p b m] a by (cases "p = new") auto
  show "(sm(a \<mapsto> new)) b = Some p" if "(G(new \<mapsto> (a, n))) p = Some (b, m)" "p \<notin> free" for p b m
    using that geo_found [OF ok, of p b m] noa [of p b m] by (cases "p = new") auto
qed

lemma geo_ok_split:
  assumes ok: "geo_ok free G sm new mem" and p: "G p = Some (a, m)" and n: "0 < n" "n < m"
  shows "geo_ok (insert new free) (G(new \<mapsto> (a + n * PAGE_SIZE, m - n), p \<mapsto> (a, n))) sm (new + 1) mem"
proof (rule geo_okI)
  let ?G = "G(new \<mapsto> (a + n * PAGE_SIZE, m - n), p \<mapsto> (a, n))"
  have new: "G new = None" using geo_pos [OF ok, of new] by (cases "G new") auto
  then have np: "p \<noteq> new" using p by auto
  have sp: "area (a, m) = area (a, n) \<union> area (a + n * PAGE_SIZE, m - n)" using n by (intro area_split) simp
  have parts: "area (a, n) \<inter> area (a + n * PAGE_SIZE, m - n) = {}" by (auto simp: area_def)
  have out: "area (a, m) \<inter> area r = {}" if "G q = Some r" "q \<noteq> p" for q r
    using geo_disjoint [OF ok _ p that(1)] that(2) by simp
  show "\<exists>k. ?G q = Some (b, k)" if "sm b = Some q" for b q
    using geo_mapped [OF ok that] p new np by (cases "q = p") auto
  show "0 < b \<and> PAGE_SIZE dvd b \<and> 0 < k \<and> q < new + 1" if "?G q = Some (b, k)" for q b k
    using that geo_pos [OF ok, of q b k] geo_pos [OF ok p] n by (cases "q = p"; cases "q = new") auto
  show "sm b = Some q" if "?G q = Some (b, k)" "q \<notin> insert new free" for q b k
    using that geo_found [OF ok, of q b k] geo_found [OF ok p] by (cases "q = p") auto
  have o: "area (a, n) \<inter> area r = {}" "area (a + n * PAGE_SIZE, m - n) \<inter> area r = {}"
      "area r \<inter> area (a, n) = {}" "area r \<inter> area (a + n * PAGE_SIZE, m - n) = {}"
    if "G q = Some r" "q \<noteq> p" for q r
    using out [OF that] unfolding sp by auto
  have c: "q = p \<and> r = (a, n) \<or> q = new \<and> r = (a + n * PAGE_SIZE, m - n) \<or> q \<noteq> p \<and> q \<noteq> new \<and> G q = Some r"
    if "?G q = Some r" for q r
    using that by (auto split: if_splits)
  show "area r \<inter> area r' = {}" if "q \<noteq> q'" "?G q = Some r" "?G q' = Some r'" for q q' r r'
  proof -
    have d: "area r \<inter> area r' = {}" if "G q = Some r" "G q' = Some r'"
      using \<open>q \<noteq> q'\<close> that by (rule geo_disjoint [OF ok])
    have parts': "area (a + n * PAGE_SIZE, m - n) \<inter> area (a, n) = {}" using parts by auto
    note c' = c [OF that(3)]
    from c [OF that(2)] show ?thesis
    proof (elim disjE conjE)
      assume "q = p" "r = (a, n)"
      with c' that(1) show ?thesis by (elim disjE conjE) (use o [of q' r'] parts in \<open>simp_all\<close>)
    next
      assume "q = new" "r = (a + n * PAGE_SIZE, m - n)"
      with c' that(1) show ?thesis by (elim disjE conjE) (use o [of q' r'] parts' in \<open>simp_all\<close>)
    next
      assume "q \<noteq> p" "q \<noteq> new" "G q = Some r"
      with c' show ?thesis by (elim disjE conjE) (use o [of q r] d in \<open>simp_all\<close>)
    qed
  qed
  have "ran ?G = {(a, n), (a + n * PAGE_SIZE, m - n)} \<union> others {p, new} ?G"
    using np by (subst ran_others [of _ "{p, new}"]) (auto split: if_splits)
  moreover have "others {p, new} ?G = others {p, new} G" by (auto simp: others_def)
  moreover have "ran G = {(a, m)} \<union> others {p, new} G"
    using p new by (subst ran_others [of _ "{p, new}"]) auto
  ultimately show "dom mem = \<Union> (area ` ran ?G)"
    using geo_mem [OF ok] sp by auto
qed

lemma geo_ok_merge:
  assumes ok: "geo_ok free G sm new mem" and p: "G p = Some (a, n)" and y: "G y = Some (a + n * PAGE_SIZE, m)"
  shows "geo_ok (free - {y}) (G(p \<mapsto> (a, n + m), y := None)) (sm(a + n * PAGE_SIZE := None)) new mem"
proof (rule geo_okI)
  let ?G = "G(p \<mapsto> (a, n + m), y := None)" and ?e = "a + n * PAGE_SIZE"
  have pos: "0 < n" using geo_pos [OF ok p] by simp
  then have py: "p \<noteq> y" using p y by (auto simp: PAGE_SIZE_def)
  have sp: "area (a, n + m) = area (a, n) \<union> area (?e, m)" using area_split [of n "n + m" a] by simp
  have noe: "b \<noteq> ?e" if "G q = Some (b, k)" "q \<noteq> y" for q b k
    using geo_ok_unique [OF ok y, of q k] that by auto
  show "\<exists>k. ?G q = Some (b, k)" if "(sm(?e := None)) b = Some q" for b q
    using that geo_mapped [OF ok, of b q] p y py by (cases "q = p"; cases "q = y") (auto split: if_splits)
  show "0 < b \<and> PAGE_SIZE dvd b \<and> 0 < k \<and> q < new" if "?G q = Some (b, k)" for q b k
    using that geo_pos [OF ok, of q b k] geo_pos [OF ok p] py by (cases "q = p") (auto split: if_splits)
  show "(sm(?e := None)) b = Some q" if "?G q = Some (b, k)" "q \<notin> free - {y}" for q b k
    using that geo_found [OF ok, of q b k] geo_found [OF ok p] noe [of q b k] noe [OF p py] py
    by (cases "q = p") (auto split: if_splits)
  show "area r \<inter> area r' = {}" if "q \<noteq> q'" "?G q = Some r" "?G q' = Some r'" for q q' r r'
    using that geo_disjoint [OF ok, of q q' r r'] geo_disjoint [OF ok _ p, of q r] geo_disjoint [OF ok _ p, of q' r']
      geo_disjoint [OF ok _ y, of q r] geo_disjoint [OF ok _ y, of q' r'] sp py
    by (cases "q = p"; cases "q' = p") (auto split: if_splits)
  have "ran ?G = {(a, n + m)} \<union> others {p, y} ?G"
    using py by (subst ran_others [of _ "{p, y}"]) (auto split: if_splits)
  moreover have "others {p, y} ?G = others {p, y} G" by (auto simp: others_def)
  moreover have "ran G = {(a, n), (?e, m)} \<union> others {p, y} G"
    using p y by (subst ran_others [of _ "{p, y}"]) auto
  ultimately show "dom mem = \<Union> (area ` ran ?G)"
    using geo_mem [OF ok] sp by auto
qed

section \<open>Allocation and release\<close>

text \<open>What \<open>mmap\<close> is documented to return: an aligned range that was not mapped before.\<close>

definition mmap_fresh :: "(nat \<Rightarrow> addr option) \<Rightarrow> nat \<Rightarrow> page_cache \<Rightarrow> bool" where
  "mmap_fresh mmap n pc \<longleftrightarrow> (\<forall>a. mmap (n * PAGE_SIZE) = Some a \<longrightarrow>
     0 < a \<and> PAGE_SIZE dvd a \<and> area (a, n) \<inter> dom (pc_mem pc) = {})"

lemma PageCache_inv: "pc_ok (\<lambda>_. []) PageCache"
  by (simp add: pc_ok_def PageCache_def lists_ok_def geo_ok_def geo_def map_inv_def head_def ran_def)

lemma pc_used_eq:
  assumes "lists_ok F (pc_freeSpans pc) (pc_spans pc)"
  shows "pc_used pc = others (\<Union>k. set (F k)) (geo (pc_spans pc))"
  by (auto simp: pc_used_def others_def pc_free_eq [OF assms])

lemma allocate_from_system:
  assumes ok: "pc_ok F pc" and lb: "lower_bound n (pc_freeSpans pc) = None" and n: "0 < n" "n * PAGE_SIZE < 2 ^ 64"
    and fresh: "mmap_fresh mmap n pc" and a: "mmap (n * PAGE_SIZE) = Some a"
  shows "\<exists>pc'. allocateSpan mmap n pc = Inr (Some a, pc') \<and> pc_ok F pc' \<and> pc_used pc' = insert (a, n) (pc_used pc)
    \<and> area (a, n) \<inter> dom (pc_mem pc) = {} \<and> pc_freeSpans pc' = pc_freeSpans pc
    \<and> pc_mem pc' = (\<lambda>x. if x \<in> area (a, n) then Some 0 else pc_mem pc x)"
proof -
  let ?s = "\<lparr>sp_pageAddr = a, sp_numPages = n, sp_next = None\<rparr>" and ?p = "pc_newSpan pc"
  let ?pc = "pc\<lparr>pc_mem := (\<lambda>x. if x \<in> area (a, n) then Some 0 else pc_mem pc x), pc_spans := (pc_spans pc)(?p \<mapsto> ?s),
      pc_newSpan := ?p + 1, pc_spanMap := (pc_spanMap pc)(a \<mapsto> ?p)\<rparr>"
  have f: "0 < a" "PAGE_SIZE dvd a" "area (a, n) \<inter> dom (pc_mem pc) = {}"
    using fresh a by (auto simp: mmap_fresh_def)
  have lists: "lists_ok F (pc_freeSpans pc) (pc_spans pc)"
    and geo: "geo_ok (\<Union>k. set (F k)) (geo (pc_spans pc)) (pc_spanMap pc) ?p (pc_mem pc)"
    using ok by (auto simp: pc_ok_def)
  have None: "geo (pc_spans pc) ?p = None" using geo_pos [OF geo, of ?p] by (cases "geo (pc_spans pc) ?p") auto
  then have new: "?p \<notin> set (F k)" for k using lists unfolding lists_ok_def by fastforce
  have lists': "lists_ok F (pc_freeSpans ?pc) (pc_spans ?pc)"
    using lists_ok_other [OF lists new] by simp
  have "allocateSpan mmap n pc = Inr (Some a, ?pc)"
    using lb a n by (simp add: allocateSpan_def systemAlloc_def new_span_def area_def)
  moreover have "geo (pc_spans ?pc) = (geo (pc_spans pc))(?p \<mapsto> (a, n))" by (simp add: geo_upd)
  moreover have "dom (pc_mem ?pc) = dom (pc_mem pc) \<union> area (a, n)" by (auto split: if_splits)
  then have "pc_ok F ?pc"
    using lists' geo_ok_new [OF geo f(1,2) n(1) f(3), of "pc_mem ?pc"] by (simp add: pc_ok_def geo_upd)
  moreover have "pc_used ?pc = insert (a, n) (pc_used pc)"
    using new None unfolding pc_used_eq [OF lists'] pc_used_eq [OF lists] by (simp add: geo_upd others_upd others_None)
  ultimately show ?thesis using f(3) by (intro exI [of _ ?pc]) simp
qed

text \<open>Taking a span off its free list, before it is split.\<close>

lemma allocate_pop:
  assumes lists: "lists_ok F (pc_freeSpans pc) (pc_spans pc)" and lb: "lower_bound n (pc_freeSpans pc) = Some (m, Some p)"
  shows "\<exists>s xs fs. pc_spans pc p = Some s \<and> sp_numPages s = m \<and> n \<le> m \<and> F m = p # xs
    \<and> (case sp_next s of Some q \<Rightarrow> pc\<lparr>pc_freeSpans := map_put m (Some q) (pc_freeSpans pc)\<rparr>
        | None \<Rightarrow> pc\<lparr>pc_freeSpans := map_erase m (pc_freeSpans pc)\<rparr>) = pc\<lparr>pc_freeSpans := fs\<rparr>
    \<and> lists_ok (F(m := xs)) fs (pc_spans pc)"
proof -
  have inv: "map_inv (pc_freeSpans pc)" using lists by (simp add: lists_ok_def)
  from lower_bound_SomeD [OF lb inv] have m: "n \<le> m" "head (pc_freeSpans pc) m = Some p" by (auto simp: head_def)
  then obtain xs where xs: "F m = p # xs" using lists by (metis chain_Some lists_ok_def)
  then obtain s where s: "pc_spans pc p = Some s" "sp_numPages s = m"
    using lists unfolding lists_ok_def geo_def by (metis (no_types, lifting) list.set_intros(1) map_option_eq_Some snd_conv)
  let ?fs = "case sp_next s of Some q \<Rightarrow> map_put m (Some q) (pc_freeSpans pc) | None \<Rightarrow> map_erase m (pc_freeSpans pc)"
  have "map_inv ?fs" "head ?fs = (head (pc_freeSpans pc))(m := nxt (pc_spans pc) p)"
    using s inv by (auto simp: nxt_def head_put head_erase map_put_inv map_erase_inv split: option.splits)
  from lists_ok_pop [OF lists xs this] m(1) xs s show ?thesis
    by (intro exI [of _ s] exI [of _ xs] exI [of _ ?fs]) (auto split: option.splits)
qed

lemma allocate_taken:
  assumes ok: "pc_ok F pc" and lb: "lower_bound n (pc_freeSpans pc) = Some (m, Some p)"
  shows "\<exists>s xs fs. pc_spans pc p = Some s \<and> sp_numPages s = m \<and> n \<le> m \<and> F m = p # xs
    \<and> (case sp_next s of Some q \<Rightarrow> pc\<lparr>pc_freeSpans := map_put m (Some q) (pc_freeSpans pc)\<rparr>
        | None \<Rightarrow> pc\<lparr>pc_freeSpans := map_erase m (pc_freeSpans pc)\<rparr>) = pc\<lparr>pc_freeSpans := fs\<rparr>
    \<and> lists_ok (F(m := xs)) fs (pc_spans pc) \<and> geo (pc_spans pc) p = Some (sp_pageAddr s, m) \<and> p \<in> (\<Union>k. set (F k))
    \<and> (\<forall>r \<in> pc_used pc. area r \<inter> area (sp_pageAddr s, n) = {})"
proof -
  have lists: "lists_ok F (pc_freeSpans pc) (pc_spans pc)"
    and geo: "geo_ok (\<Union>k. set (F k)) (geo (pc_spans pc)) (pc_spanMap pc) (pc_newSpan pc) (pc_mem pc)"
    using ok by (auto simp: pc_ok_def)
  obtain s xs fs where s: "pc_spans pc p = Some s" "sp_numPages s = m" "n \<le> m" "F m = p # xs"
    and pop: "(case sp_next s of Some q \<Rightarrow> pc\<lparr>pc_freeSpans := map_put m (Some q) (pc_freeSpans pc)\<rparr>
        | None \<Rightarrow> pc\<lparr>pc_freeSpans := map_erase m (pc_freeSpans pc)\<rparr>) = pc\<lparr>pc_freeSpans := fs\<rparr>"
      "lists_ok (F(m := xs)) fs (pc_spans pc)"
    using allocate_pop [OF lists lb] by blast
  have G: "geo (pc_spans pc) p = Some (sp_pageAddr s, m)" using s by (simp add: geo_def)
  have p_free: "p \<in> (\<Union>k. set (F k))" using s(4) by (metis UN_iff UNIV_I list.set_intros(1))
  have "area r \<inter> area (sp_pageAddr s, n) = {}" if used: "r \<in> pc_used pc" for r
  proof -
    obtain q where "geo (pc_spans pc) q = Some r" "q \<noteq> p"
      using used p_free unfolding pc_used_eq [OF lists] others_def by blast
    then have "area r \<inter> area (sp_pageAddr s, m) = {}" using geo_disjoint [OF geo _ _ G] by blast
    then show ?thesis using area_split [OF s(3), of "sp_pageAddr s"] by blast
  qed
  with s pop G p_free show ?thesis by blast
qed

text \<open>A span of exactly the requested size.\<close>

lemma allocate_exact:
  assumes ok: "pc_ok F pc" and lb: "lower_bound n (pc_freeSpans pc) = Some (n, Some p)"
  shows "\<exists>a pc' F'. allocateSpan mmap n pc = Inr (Some a, pc') \<and> pc_ok F' pc'
    \<and> pc_used pc' = insert (a, n) (pc_used pc) \<and> pc_mem pc' = pc_mem pc \<and> (\<forall>r \<in> pc_used pc. area r \<inter> area (a, n) = {})"
proof -
  have lists: "lists_ok F (pc_freeSpans pc) (pc_spans pc)"
    and geo: "geo_ok (\<Union>k. set (F k)) (geo (pc_spans pc)) (pc_spanMap pc) (pc_newSpan pc) (pc_mem pc)"
    using ok by (auto simp: pc_ok_def)
  obtain s xs fs where s: "pc_spans pc p = Some s" "sp_numPages s = n" "F n = p # xs"
    and pop: "(case sp_next s of Some q \<Rightarrow> pc\<lparr>pc_freeSpans := map_put n (Some q) (pc_freeSpans pc)\<rparr>
        | None \<Rightarrow> pc\<lparr>pc_freeSpans := map_erase n (pc_freeSpans pc)\<rparr>) = pc\<lparr>pc_freeSpans := fs\<rparr>"
    and lists1: "lists_ok (F(n := xs)) fs (pc_spans pc)" and G: "geo (pc_spans pc) p = Some (sp_pageAddr s, n)"
    and p_free: "p \<in> (\<Union>k. set (F k))" and out: "\<forall>r \<in> pc_used pc. area r \<inter> area (sp_pageAddr s, n) = {}"
    using allocate_taken [OF ok lb] by blast
  note F1 = lists_ok_union_pop [OF lists s(3)]
  let ?pc = "pc\<lparr>pc_freeSpans := fs, pc_spanMap := (pc_spanMap pc)(sp_pageAddr s \<mapsto> p)\<rparr>"
  have "allocateSpan mmap n pc = Inr (Some (sp_pageAddr s), ?pc)"
    using lb s pop by (simp add: allocateSpan_def span_at_def deref_def)
  moreover have "pc_ok (F(n := xs)) ?pc"
    unfolding pc_ok_def F1 using lists1 geo_ok_take [OF geo G] by simp
  moreover from this have "pc_used ?pc = insert (sp_pageAddr s, n) (pc_used pc)"
    using G p_free by (subst pc_used_eq [of "F(n := xs)"])
      (simp_all add: pc_ok_def F1 [unfolded fun_upd_def] pc_used_eq [OF lists] others_Diff insert_absorb del: UN_iff)
  ultimately show ?thesis using out by (intro exI [of _ "sp_pageAddr s"] exI [of _ ?pc] exI [of _ "F(n := xs)"]) simp
qed

text \<open>A larger span: the lists after the rest has become a span of its own.\<close>

lemma split_lists:
  fixes pc :: page_cache and rest :: span and F :: "nat \<Rightarrow> span_ptr list" and fs :: "span_ptr option std_map"
  defines "new \<equiv> pc_newSpan pc"
  defines "pc1 \<equiv> pc\<lparr>pc_freeSpans := fs, pc_spans := (pc_spans pc)(new \<mapsto> rest), pc_newSpan := new + 1\<rparr>"
  defines "F' \<equiv> F(sp_numPages rest := new # F (sp_numPages rest))"
  assumes "lists_ok F fs (pc_spans pc)" and "\<And>k. new \<notin> set (F k)" and "p \<noteq> new" and "\<And>k. p \<notin> set (F k)"
  shows "lists_ok F' (pc_freeSpans (push_free new rest pc1)) ((pc_spans (push_free new rest pc1))(p \<mapsto> s))
    \<and> (\<Union>k. set (F' k)) = insert new (\<Union>k. set (F k))"
proof -
  have "lists_ok F fs ((pc_spans pc)(new \<mapsto> rest))" by (rule lists_ok_other [OF assms(4)]) (rule assms(5))
  then have "lists_ok F (pc_freeSpans pc1) (pc_spans pc1)" by (simp add: pc1_def)
  then have lists2: "lists_ok F' (pc_freeSpans (push_free new rest pc1)) (pc_spans (push_free new rest pc1))"
    unfolding F'_def by (rule push_free_lists) (use assms(5) in \<open>simp_all add: pc1_def\<close>)
  have F2: "(\<Union>k. set (F' k)) = insert new (\<Union>k. set (F k))" unfolding F'_def by (rule union_push)
  have "p \<notin> (\<Union>k. set (F' k))" unfolding F2 using assms(6,7) by simp
  then have "p \<notin> set (F' k)" for k by blast
  from lists_ok_other [OF lists2 this] F2 show ?thesis by blast
qed

lemma allocate_split:
  assumes ok: "pc_ok F pc" and lb: "lower_bound n (pc_freeSpans pc) = Some (m, Some p)" and n: "0 < n" "n \<noteq> m"
  shows "\<exists>a pc' F'. allocateSpan mmap n pc = Inr (Some a, pc') \<and> pc_ok F' pc'
    \<and> pc_used pc' = insert (a, n) (pc_used pc) \<and> pc_mem pc' = pc_mem pc \<and> (\<forall>r \<in> pc_used pc. area r \<inter> area (a, n) = {})"
proof -
  have lists: "lists_ok F (pc_freeSpans pc) (pc_spans pc)"
    and geo: "geo_ok (\<Union>k. set (F k)) (geo (pc_spans pc)) (pc_spanMap pc) (pc_newSpan pc) (pc_mem pc)"
    using ok by (auto simp: pc_ok_def)
  obtain s xs fs where s: "pc_spans pc p = Some s" "sp_numPages s = m" "n \<le> m" "F m = p # xs"
    and pop: "(case sp_next s of Some q \<Rightarrow> pc\<lparr>pc_freeSpans := map_put m (Some q) (pc_freeSpans pc)\<rparr>
        | None \<Rightarrow> pc\<lparr>pc_freeSpans := map_erase m (pc_freeSpans pc)\<rparr>) = pc\<lparr>pc_freeSpans := fs\<rparr>"
    and lists1: "lists_ok (F(m := xs)) fs (pc_spans pc)" and G: "geo (pc_spans pc) p = Some (sp_pageAddr s, m)"
    and p_free: "p \<in> (\<Union>k. set (F k))" and out: "\<forall>r \<in> pc_used pc. area r \<inter> area (sp_pageAddr s, n) = {}"
    using allocate_taken [OF ok lb] by blast
  define FF where "FF = F(m := xs)"
  note F1 = lists_ok_union_pop [OF lists s(4), folded FF_def] and lists1 = lists1 [folded FF_def]
  let ?G = "geo (pc_spans pc)" and ?new = "pc_newSpan pc" and ?a = "sp_pageAddr s" and ?k = "m - n"
  let ?rest = "\<lparr>sp_pageAddr = ?a + n * PAGE_SIZE, sp_numPages = ?k, sp_next = None\<rparr>"
  let ?F' = "FF(?k := ?new # FF ?k)"
  let ?pc2 = "push_free ?new ?rest (pc\<lparr>pc_freeSpans := fs, pc_spans := (pc_spans pc)(?new \<mapsto> ?rest), pc_newSpan := ?new + 1\<rparr>)"
  let ?pc = "?pc2\<lparr>pc_spans := (pc_spans ?pc2)(p \<mapsto> s\<lparr>sp_numPages := n\<rparr>), pc_spanMap := (pc_spanMap pc)(?a \<mapsto> p)\<rparr>"
  have None: "?G ?new = None" using geo_pos [OF geo, of ?new] by (cases "?G ?new") auto
  then have new: "?new \<noteq> p" "?new \<notin> set (F k)" for k
    using G lists unfolding lists_ok_def by fastforce+
  have nin: "?new \<notin> set (FF k)" for k using new(2) [of k] new(2) [of m] s(4) by (auto simp: FF_def)
  have "p \<notin> (\<Union>k. set (FF k))" unfolding F1 by simp
  then have "p \<notin> set (FF k)" for k by blast
  note sl = split_lists [OF lists1 nin new(1) [symmetric] this, of ?rest "s\<lparr>sp_numPages := n\<rparr>"]
  have lists3: "lists_ok ?F' (pc_freeSpans ?pc) (pc_spans ?pc)" using sl by simp
  have F2: "(\<Union>k. set (?F' k)) = insert ?new ((\<Union>k. set (F k)) - {p})" using sl unfolding F1 [symmetric] by simp
  have G3: "geo (pc_spans ?pc) = ?G(?new \<mapsto> (?a + n * PAGE_SIZE, m - n), p \<mapsto> (?a, n))"
    by (simp add: geo_upd push_free_eq)
  have split: "geo_ok (insert ?new (\<Union>k. set (F k))) (geo (pc_spans ?pc)) (pc_spanMap pc) (?new + 1) (pc_mem pc)"
    unfolding G3 using geo_ok_split [OF geo G n(1)] s(3) n(2) by simp
  have "geo_ok (insert ?new ((\<Union>k. set (F k)) - {p})) (geo (pc_spans ?pc)) (pc_spanMap ?pc) (?new + 1) (pc_mem pc)"
    using geo_ok_take [OF split, of p ?a n] new(1) unfolding G3 by (simp add: insert_Diff_if)
  then have "pc_ok ?F' ?pc" unfolding pc_ok_def F2 using lists3 by (simp add: push_free_eq)
  moreover have "allocateSpan mmap n pc = Inr (Some ?a, ?pc)"
    using lb s pop n(2) by (simp add: allocateSpan_def span_at_def deref_def new_span_def push_free_eq)
  moreover have "pc_used ?pc = insert (?a, n) (pc_used pc)"
    unfolding pc_used_eq [OF lists3] F2 G3 pc_used_eq [OF lists] using p_free new None
    by (simp add: others_upd others_None insert_commute [of p] insert_absorb del: UN_iff)
  ultimately show ?thesis using out by (intro exI [of _ ?a] exI [of _ ?pc] exI [of _ ?F']) (simp add: push_free_eq)
qed

lemma allocate_from_list:
  assumes "pc_ok F pc" and "lower_bound n (pc_freeSpans pc) = Some (m, Some p)" and "0 < n"
  shows "\<exists>a pc' F'. allocateSpan mmap n pc = Inr (Some a, pc') \<and> pc_ok F' pc'
    \<and> pc_used pc' = insert (a, n) (pc_used pc) \<and> pc_mem pc' = pc_mem pc \<and> (\<forall>r \<in> pc_used pc. area r \<inter> area (a, n) = {})"
proof (cases "n = m")
  case True
  then show ?thesis using allocate_exact [OF assms(1)] assms(2) by blast
next
  case False
  then show ?thesis using allocate_split [OF assms] by blast
qed

lemma push_free_ok:
  assumes lists: "lists_ok F (pc_freeSpans pc) (pc_spans pc)"
    and geo: "geo_ok (\<Union>k. set (F k)) (geo (pc_spans pc)) (pc_spanMap pc) (pc_newSpan pc) (pc_mem pc)"
    and p: "pc_spans pc p = Some s" "p \<notin> (\<Union>k. set (F k))"
  shows "pc_ok (F(sp_numPages s := p # F (sp_numPages s))) (push_free p s pc)
    \<and> pc_used (push_free p s pc) = others (insert p (\<Union>k. set (F k))) (geo (pc_spans pc))
    \<and> pc_mem (push_free p s pc) = pc_mem pc"
proof -
  let ?F = "F(sp_numPages s := p # F (sp_numPages s))"
  have lists': "lists_ok ?F (pc_freeSpans (push_free p s pc)) (pc_spans (push_free p s pc))"
    using push_free_lists [OF lists _ refl] p(2) by auto
  have G: "geo (pc_spans (push_free p s pc)) = geo (pc_spans pc)" using p(1) by (auto simp: push_free_eq geo_def)
  show ?thesis
    using lists' geo_ok_mono [OF geo subset_insertI]
    unfolding pc_ok_def pc_used_eq [OF lists'] union_push G by (simp add: push_free_eq)
qed

lemma deallocateSpan_ok:
  assumes ok: "pc_ok F pc" and used: "(a, n) \<in> pc_used pc"
  shows "\<exists>pc' F'. deallocateSpan a n pc = Inr pc' \<and> pc_ok F' pc' \<and> pc_used pc' = pc_used pc - {(a, n)} \<and> pc_mem pc' = pc_mem pc"
proof -
  let ?G = "geo (pc_spans pc)" and ?free = "\<Union>k. set (F k)" and ?e = "a + n * PAGE_SIZE"
  have lists: "lists_ok F (pc_freeSpans pc) (pc_spans pc)"
    and geo: "geo_ok ?free ?G (pc_spanMap pc) (pc_newSpan pc) (pc_mem pc)"
    using ok by (auto simp: pc_ok_def)
  obtain p where p: "?G p = Some (a, n)" "p \<notin> ?free"
    using used unfolding pc_used_eq [OF lists] others_def by blast
  then obtain s where s: "pc_spans pc p = Some s" "sp_pageAddr s = a" "sp_numPages s = n" by (auto simp: geo_def)
  have sm: "pc_spanMap pc a = Some p" by (rule geo_found [OF geo p])
  have rest: "others (insert p ?free) ?G = pc_used pc - {(a, n)}"
    unfolding pc_used_eq [OF lists] using geo_ok_unique [OF geo p(1)] by (intro others_insert p(1))
  show ?thesis
  proof (cases "pc_spanMap pc ?e")
    case None
    then show ?thesis
      using push_free_ok [OF lists geo s(1) p(2)] sm s(1) rest
      by (auto simp: deallocateSpan_def span_at_def deref_def)
  next
    case (Some y)
    then obtain m where y: "?G y = Some (?e, m)" using geo_mapped [OF geo] by blast
    then obtain sy where sy: "pc_spans pc y = Some sy" "sp_numPages sy = m" by (auto simp: geo_def)
    obtain fs heap where un: "unlink_next y sy pc = Inr (y \<in> set (F m), pc\<lparr>pc_freeSpans := fs, pc_spans := heap\<rparr>)"
      and lists1: "lists_ok (F(m := remove1 y (F m))) fs heap" and G1: "geo heap = ?G"
      using unlink_next_ok [OF lists sy] by blast
    have "geo heap p = Some (a, n)" using p(1) G1 by simp
    then obtain s1 where s1: "heap p = Some s1" "sp_pageAddr s1 = a" "sp_numPages s1 = n" by (auto simp: geo_def)
    show ?thesis
    proof (cases "y \<in> set (F m)")
      case False
      then have "lists_ok F fs heap" using lists1 by (simp add: remove1_idem fun_upd_idem)
      then show ?thesis
        using push_free_ok [of F "pc\<lparr>pc_freeSpans := fs, pc_spans := heap\<rparr>" p s1] geo p(2) s1(1) sm Some False un sy rest
        by (auto simp: deallocateSpan_def span_at_def deref_def G1)
    next
      case True
      let ?F = "F(m := remove1 y (F m))"
      let ?heap = "heap(p \<mapsto> s1\<lparr>sp_numPages := n + m\<rparr>, y := None)"
      let ?pc = "pc\<lparr>pc_freeSpans := fs, pc_spans := ?heap, pc_spanMap := (pc_spanMap pc)(?e := None)\<rparr>"
      have py: "p \<noteq> y" using p(2) True by auto
      have F1: "(\<Union>k. set (?F k)) = ?free - {y}" by (rule lists_ok_union_remove [OF lists True])
      have nin: "p \<notin> set (?F k)" "y \<notin> set (?F k)" for k using F1 p(2) by blast+
      have lists2: "lists_ok ?F fs ?heap" by (intro lists_ok_other lists1 nin)
      have G2: "geo ?heap = ?G(p \<mapsto> (a, n + m), y := None)" by (simp add: geo_upd G1 s1)
      have geo2: "geo_ok (\<Union>k. set (?F k)) (geo ?heap) ((pc_spanMap pc)(?e := None)) (pc_newSpan pc) (pc_mem pc)"
        unfolding F1 G2 by (rule geo_ok_merge [OF geo p(1) y])
      have "deallocateSpan a n pc = Inr (push_free p (s1\<lparr>sp_numPages := n + m\<rparr>) ?pc)"
        using sm Some sy un True s1 py by (simp add: deallocateSpan_def span_at_def deref_def)
      moreover have "others (insert p (\<Union>k. set (?F k))) (geo ?heap) = pc_used pc - {(a, n)}"
        unfolding rest [symmetric] F1 G2 using True by (auto simp: others_def)
      ultimately show ?thesis
        using push_free_ok [of ?F ?pc p "s1\<lparr>sp_numPages := n + m\<rparr>"] lists2 geo2 nin(1) py by auto
    qed
  qed
qed

section \<open>The contract of a span provider\<close>

text \<open>
  What the caches above rely on: the spans handed out never overlap, and a span that is given back
  is the only one that leaves. The relations say which results the two operations can have.
\<close>

locale span_provider =
  fixes inv :: "'s \<Rightarrow> bool"
    and used :: "'s \<Rightarrow> (addr \<times> nat) set"
    and obtain_span :: "nat \<Rightarrow> addr \<Rightarrow> 's \<Rightarrow> 's \<Rightarrow> bool"
    and give_back :: "addr \<Rightarrow> nat \<Rightarrow> 's \<Rightarrow> 's \<Rightarrow> bool"
  assumes obtain_inv: "inv s \<Longrightarrow> obtain_span n a s s' \<Longrightarrow> inv s'"
    and obtain_used: "inv s \<Longrightarrow> obtain_span n a s s' \<Longrightarrow> used s' = insert (a, n) (used s)"
    and obtain_disjoint: "inv s \<Longrightarrow> obtain_span n a s s' \<Longrightarrow> r \<in> used s \<Longrightarrow> area r \<inter> area (a, n) = {}"
    and give_back_inv: "inv s \<Longrightarrow> (a, n) \<in> used s \<Longrightarrow> give_back a n s s' \<Longrightarrow> inv s'"
    and give_back_used: "inv s \<Longrightarrow> (a, n) \<in> used s \<Longrightarrow> give_back a n s s' \<Longrightarrow> used s' = used s - {(a, n)}"
begin

definition step :: "'s \<Rightarrow> 's \<Rightarrow> bool" where
  "step s s' \<longleftrightarrow> s' = s \<or> (\<exists>n a. obtain_span n a s s') \<or> (\<exists>a n. (a, n) \<in> used s \<and> give_back a n s s')"

definition apart :: "'s \<Rightarrow> bool" where
  "apart s \<longleftrightarrow> (\<forall>r \<in> used s. \<forall>r' \<in> used s. r \<noteq> r' \<longrightarrow> area r \<inter> area r' = {})"

lemma step_apart:
  assumes "step s s'" and "inv s" and "apart s"
  shows "inv s' \<and> apart s'"
  using assms(1) unfolding step_def
proof (elim disjE exE conjE)
  fix n a
  assume "obtain_span n a s s'"
  note obtained = obtain_inv [OF assms(2) this] obtain_used [OF assms(2) this] obtain_disjoint [OF assms(2) this]
  have "area r \<inter> area r' = {}" if "r \<in> used s'" "r' \<in> used s'" "r \<noteq> r'" for r r'
    using that assms(3) obtained(3) [of r] obtained(3) [of r'] unfolding apart_def obtained(2) by blast
  with obtained(1) show ?thesis unfolding apart_def by blast
next
  fix a n
  assume *: "(a, n) \<in> used s" "give_back a n s s'"
  show ?thesis
    using give_back_inv [OF assms(2) *] assms(3) unfolding apart_def give_back_used [OF assms(2) *] by simp
qed (use assms in auto)

lemma run_apart: "step\<^sup>*\<^sup>* s s' \<Longrightarrow> inv s \<Longrightarrow> apart s \<Longrightarrow> inv s' \<and> apart s'"
  by (induction rule: rtranclp_induct) (use step_apart in blast)+

end

definition pc_obtain :: "nat \<Rightarrow> addr \<Rightarrow> page_cache \<Rightarrow> page_cache \<Rightarrow> bool" where
  "pc_obtain n a pc pc' \<longleftrightarrow> 0 < n \<and> n * PAGE_SIZE < 2 ^ 64
     \<and> (\<exists>mmap. mmap_fresh mmap n pc \<and> allocateSpan mmap n pc = Inr (Some a, pc'))"

lemma pc_used_mem:
  assumes "pc_ok F pc" and "r \<in> pc_used pc"
  shows "area r \<subseteq> dom (pc_mem pc)"
proof -
  from assms(2) have "r \<in> ran (geo (pc_spans pc))" by (auto simp: pc_used_def ran_def simp del: split_paired_Ex)
  moreover have "dom (pc_mem pc) = \<Union> (area ` ran (geo (pc_spans pc)))"
    using assms(1) unfolding pc_ok_def by (elim conjE) (rule geo_mem)
  ultimately show ?thesis by blast
qed

lemma allocateSpan_cases:
  assumes ok: "pc_ok F pc" and n: "0 < n" "n * PAGE_SIZE < 2 ^ 64" and fresh: "mmap_fresh mmap n pc"
  obtains (null) k where "lower_bound n (pc_freeSpans pc) = Some (k, None)" "allocateSpan mmap n pc = Inl NullPointer"
  | (no_memory) "lower_bound n (pc_freeSpans pc) = None" "mmap (n * PAGE_SIZE) = None" "allocateSpan mmap n pc = Inr (None, pc)"
  | (span) a pc' F' where "\<forall>k. lower_bound n (pc_freeSpans pc) \<noteq> Some (k, None)" "allocateSpan mmap n pc = Inr (Some a, pc')"
      "pc_ok F' pc'" "pc_used pc' = insert (a, n) (pc_used pc)"
      "\<forall>r \<in> pc_used pc. area r \<inter> area (a, n) = {}"
proof (cases "lower_bound n (pc_freeSpans pc)")
  case None
  show thesis
  proof (cases "mmap (n * PAGE_SIZE)")
    case None
    with \<open>lower_bound n (pc_freeSpans pc) = None\<close> n show thesis
      by (intro no_memory) (simp_all add: allocateSpan_def systemAlloc_def)
  next
    case (Some a)
    obtain pc' where pc': "allocateSpan mmap n pc = Inr (Some a, pc')" "pc_ok F pc'"
      "pc_used pc' = insert (a, n) (pc_used pc)" "area (a, n) \<inter> dom (pc_mem pc) = {}"
      using allocate_from_system [OF ok \<open>lower_bound n (pc_freeSpans pc) = None\<close> n fresh Some] by blast
    have "\<forall>r \<in> pc_used pc. area r \<inter> area (a, n) = {}" using pc_used_mem [OF ok] pc'(4) by blast
    with pc' \<open>lower_bound n (pc_freeSpans pc) = None\<close> show thesis by (intro span) auto
  qed
next
  case (Some e)
  then obtain k h where e: "lower_bound n (pc_freeSpans pc) = Some (k, h)" by (cases e) auto
  show thesis
  proof (cases h)
    case None
    with e show thesis by (intro null) (simp_all add: allocateSpan_def span_at_def deref_def)
  next
    case (Some p)
    obtain a pc' F' where "allocateSpan mmap n pc = Inr (Some a, pc')" "pc_ok F' pc'"
      "pc_used pc' = insert (a, n) (pc_used pc)" "\<forall>r \<in> pc_used pc. area r \<inter> area (a, n) = {}"
      using allocate_from_list [OF ok e [unfolded Some] n(1), of mmap] by blast
    with e Some show thesis by (intro span) auto
  qed
qed

interpretation pages: span_provider pc_inv pc_used pc_obtain "\<lambda>a n pc pc'. deallocateSpan a n pc = Inr pc'"
proof
  fix s s' :: page_cache and n a r
  assume "pc_inv s" "pc_obtain n a s s'"
  then obtain F mmap where "pc_ok F s" "0 < n" "n * PAGE_SIZE < 2 ^ 64" "mmap_fresh mmap n s"
    and got: "allocateSpan mmap n s = Inr (Some a, s')" by (auto simp: pc_inv_def pc_obtain_def)
  then show "pc_inv s'" "pc_used s' = insert (a, n) (pc_used s)" "r \<in> pc_used s \<Longrightarrow> area r \<inter> area (a, n) = {}"
    by (cases rule: allocateSpan_cases [of F s n mmap]; auto simp: pc_inv_def)+
next
  fix s s' :: page_cache and a n
  assume "pc_inv s" "(a, n) \<in> pc_used s" "deallocateSpan a n s = Inr s'"
  then show "pc_inv s'" "pc_used s' = pc_used s - {(a, n)}"
    using deallocateSpan_ok unfolding pc_inv_def by (metis sum.inject(2))+
qed

section \<open>Properties\<close>

text \<open>
  The calls a client may make: any number of allocations, and the release of spans that are handed
  out, with their length.
\<close>

inductive pc_step :: "page_cache \<Rightarrow> page_cache \<Rightarrow> bool" where
  alloc: "0 < n \<Longrightarrow> n * PAGE_SIZE < 2 ^ 64 \<Longrightarrow> mmap_fresh mmap n pc \<Longrightarrow> allocateSpan mmap n pc = Inr (r, pc') \<Longrightarrow>
    pc_step pc pc'"
| dealloc: "(a, n) \<in> pc_used pc \<Longrightarrow> deallocateSpan a n pc = Inr pc' \<Longrightarrow> pc_step pc pc'"

lemma pc_step_provider:
  assumes "pc_step pc pc'" and "pc_inv pc"
  shows "pages.step pc pc'"
  using assms
proof cases
  case (alloc n mmap r)
  obtain F where F: "pc_ok F pc" using assms(2) by (auto simp: pc_inv_def)
  show ?thesis
  proof (cases r)
    case None
    have "pc' = pc" by (rule allocateSpan_cases [OF F alloc(1-3)]) (use alloc(4) None in auto)
    then show ?thesis by (simp add: pages.step_def)
  next
    case (Some a)
    then have "pc_obtain n a pc pc'" using alloc by (auto simp: pc_obtain_def)
    then show ?thesis unfolding pages.step_def by blast
  qed
next
  case (dealloc a n)
  then show ?thesis unfolding pages.step_def by blast
qed

lemma pc_steps_inv: "pc_step\<^sup>*\<^sup>* pc pc' \<Longrightarrow> pc_inv pc \<Longrightarrow> pages.apart pc \<Longrightarrow> pc_inv pc' \<and> pages.apart pc'"
  by (induction rule: rtranclp_induct) (use pc_step_provider pages.step_apart in blast)+

lemma PageCache_start: "pc_inv PageCache" "pages.apart PageCache"
  using PageCache_inv by (auto simp: pc_inv_def pages.apart_def pc_used_def PageCache_def geo_def)

text \<open>
  (C9) However spans are allocated, split, released and merged, the page cache never hands out
  the same memory twice: the spans that are in use are pairwise disjoint and lie in mapped memory.
  The only fault an allocation can run into is the null entry that a merge leaves behind, no
  pointer is ever dangling and no loop goes on forever; a release of a span that is in use always
  returns, and takes exactly that span away.
\<close>

theorem page_cache_disjoint:
  assumes "pc_step\<^sup>*\<^sup>* PageCache pc"
  shows "(\<forall>r \<in> pc_used pc. area r \<subseteq> dom (pc_mem pc) \<and> (\<forall>r' \<in> pc_used pc. r \<noteq> r' \<longrightarrow> area r \<inter> area r' = {}))
    \<and> (\<forall>mmap n. 0 < n \<longrightarrow> n * PAGE_SIZE < 2 ^ 64 \<longrightarrow> mmap_fresh mmap n pc \<longrightarrow>
         (if \<exists>k. lower_bound n (pc_freeSpans pc) = Some (k, None) then allocateSpan mmap n pc = Inl NullPointer
          else \<exists>r pc'. allocateSpan mmap n pc = Inr (r, pc')
            \<and> (case r of None \<Rightarrow> pc' = pc \<and> mmap (n * PAGE_SIZE) = None
               | Some a \<Rightarrow> pc_used pc' = insert (a, n) (pc_used pc) \<and> (a, n) \<notin> pc_used pc)))
    \<and> (\<forall>(a, n) \<in> pc_used pc. \<exists>pc'. deallocateSpan a n pc = Inr pc' \<and> pc_used pc' = pc_used pc - {(a, n)})"
proof (intro conjI)
  obtain F where F: "pc_ok F pc" and apart: "pages.apart pc"
    using pc_steps_inv [OF assms PageCache_start] by (auto simp: pc_inv_def)
  show "\<forall>r \<in> pc_used pc. area r \<subseteq> dom (pc_mem pc) \<and> (\<forall>r' \<in> pc_used pc. r \<noteq> r' \<longrightarrow> area r \<inter> area r' = {})"
    using apart pc_used_mem [OF F] unfolding pages.apart_def by blast
  show "\<forall>(a, n) \<in> pc_used pc. \<exists>pc'. deallocateSpan a n pc = Inr pc' \<and> pc_used pc' = pc_used pc - {(a, n)}"
    using deallocateSpan_ok [OF F] by fast
  show "\<forall>mmap n. 0 < n \<longrightarrow> n * PAGE_SIZE < 2 ^ 64 \<longrightarrow> mmap_fresh mmap n pc \<longrightarrow>
         (if \<exists>k. lower_bound n (pc_freeSpans pc) = Some (k, None) then allocateSpan mmap n pc = Inl NullPointer
          else \<exists>r pc'. allocateSpan mmap n pc = Inr (r, pc')
            \<and> (case r of None \<Rightarrow> pc' = pc \<and> mmap (n * PAGE_SIZE) = None
               | Some a \<Rightarrow> pc_used pc' = insert (a, n) (pc_used pc) \<and> (a, n) \<notin> pc_used pc))"
  proof (intro allI impI)
    fix mmap n
    assume n: "0 < n" "n * PAGE_SIZE < 2 ^ 64" and fresh: "mmap_fresh mmap n pc"
    have "(a, n) \<notin> pc_used pc" if "\<forall>r \<in> pc_used pc. area r \<inter> area (a, n) = {}" for a
      using that area_less [OF n(1), of a] by blast
    with F n fresh show "if \<exists>k. lower_bound n (pc_freeSpans pc) = Some (k, None) then allocateSpan mmap n pc = Inl NullPointer
      else \<exists>r pc'. allocateSpan mmap n pc = Inr (r, pc')
        \<and> (case r of None \<Rightarrow> pc' = pc \<and> mmap (n * PAGE_SIZE) = None
           | Some a \<Rightarrow> pc_used pc' = insert (a, n) (pc_used pc) \<and> (a, n) \<notin> pc_used pc)"
      by (cases rule: allocateSpan_cases) auto
  qed
qed

text \<open>Two spans of eight pages, the second behind the first, released from the back.\<close>

definition two_spans :: page_cache where
  "two_spans = \<lparr>pc_freeSpans = [], pc_spanMap = [4096 \<mapsto> 0, 36864 \<mapsto> 1],
     pc_spans = [0 \<mapsto> \<lparr>sp_pageAddr = 4096, sp_numPages = 8, sp_next = None\<rparr>,
                 1 \<mapsto> \<lparr>sp_pageAddr = 36864, sp_numPages = 8, sp_next = None\<rparr>],
     pc_newSpan = 2, pc_mem = (\<lambda>a. if 4096 \<le> a \<and> a < 69632 then Some 0 else None)\<rparr>"

lemma PAGE_SIZE_mult [simp]: "8 * PAGE_SIZE = 32768" "PAGE_SIZE dvd 4096" "PAGE_SIZE dvd 36864"
  by (simp_all add: PAGE_SIZE_def)

lemma two_spans_reached: "pc_step\<^sup>*\<^sup>* PageCache two_spans"
proof -
  let ?one = "\<lparr>pc_freeSpans = [], pc_spanMap = [4096 \<mapsto> 0],
     pc_spans = [0 \<mapsto> \<lparr>sp_pageAddr = 4096, sp_numPages = 8, sp_next = None\<rparr>],
     pc_newSpan = 1, pc_mem = (\<lambda>a. if 4096 \<le> a \<and> a < 36864 then Some 0 else None)\<rparr>"
  have "allocateSpan (\<lambda>_. Some 4096) 8 PageCache = Inr (Some 4096, ?one)"
    by (simp add: allocateSpan_def lower_bound_def PageCache_def systemAlloc_def new_span_def cong: if_cong)
  then have "pc_step PageCache ?one"
    by (intro pc_step.alloc [of 8 "\<lambda>_. Some 4096"]) (auto simp: mmap_fresh_def PageCache_def)
  moreover have "(\<lambda>a. if 36864 \<le> a \<and> a < 69632 then Some 0 else if 4096 \<le> a \<and> a < 36864 then Some 0 else None) =
      (\<lambda>a. if 4096 \<le> a \<and> a < (69632 :: nat) then Some (0 :: nat) else None)" by auto
  then have "allocateSpan (\<lambda>_. Some 36864) 8 ?one = Inr (Some 36864, two_spans)"
    by (simp add: allocateSpan_def lower_bound_def systemAlloc_def new_span_def two_spans_def cong: if_cong)
  then have "pc_step ?one two_spans"
    by (intro pc_step.alloc [of 8 "\<lambda>_. Some 36864"]) (auto simp: mmap_fresh_def area_def split: if_splits)
  ultimately show ?thesis by (meson converse_rtranclp_into_rtranclp rtranclp.rtrancl_refl)
qed

lemma two_spans_used: "(4096, 8) \<in> pc_used two_spans" "(36864, 8) \<in> pc_used two_spans"
  by (auto simp: pc_used_def two_spans_def geo_def pc_free_def head_def intro: exI [of _ "0 :: nat"] exI [of _ "1 :: nat"])

theorem page_cache_disjoint_witness:
  "area (4096, 8) \<inter> area (36864, 8) = {} \<and> area (4096, 8) \<subseteq> dom (pc_mem two_spans)
    \<and> (\<exists>pc'. deallocateSpan 4096 8 two_spans = Inr pc' \<and> pc_used pc' = pc_used two_spans - {(4096, 8)})"
proof -
  note * = page_cache_disjoint [OF two_spans_reached]
  from * [THEN conjunct1, rule_format, OF two_spans_used(1)]
  have "area (4096, 8) \<subseteq> dom (pc_mem two_spans)" "area (4096, 8) \<inter> area (36864, 8) = {}"
    using two_spans_used(2) by auto
  moreover from * [THEN conjunct2, THEN conjunct2]
  have "\<exists>pc'. deallocateSpan 4096 8 two_spans = Inr pc' \<and> pc_used pc' = pc_used two_spans - {(4096, 8)}"
    using two_spans_used(1) by auto
  ultimately show ?thesis by blast
qed

text \<open>
  (C35) The null entry does occur. After two neighbouring spans of eight pages have been released,
  the later one first, they are merged, and the free list of eight pages, whose only element has
  been taken out, stays in the map as \<open>nullptr\<close>: the next allocation of eight pages dereferences it.
\<close>

theorem page_cache_null_entry:
  "\<exists>pc. pc_step\<^sup>*\<^sup>* PageCache pc \<and> (\<exists>k h. map_of (pc_freeSpans pc) k = Some (Some h))
     \<and> (\<forall>mmap. allocateSpan mmap 8 pc = Inl NullPointer)"
proof -
  let ?s = "\<lambda>a n q. \<lparr>sp_pageAddr = a, sp_numPages = n, sp_next = q\<rparr>"
  let ?one = "two_spans\<lparr>pc_freeSpans := [(8, Some 1)]\<rparr>"
  let ?pc = "two_spans\<lparr>pc_freeSpans := [(8, None), (16, Some 0)], pc_spans := [0 \<mapsto> ?s 4096 16 None],
      pc_spanMap := [4096 \<mapsto> 0]\<rparr>"
  have "deallocateSpan 36864 8 two_spans = Inr ?one"
    by (simp add: deallocateSpan_def two_spans_def span_at_def deref_def push_free_def list_of_def fun_upd_idem)
  then have "pc_step two_spans ?one" by (rule pc_step.dealloc [OF two_spans_used(2)])
  moreover have "deallocateSpan 4096 8 ?one = Inr ?pc"
    by (simp add: deallocateSpan_def two_spans_def span_at_def deref_def push_free_def list_of_def unlink_next_def
      fun_upd_twist fun_eq_iff)
  moreover have "(4096, 8) \<in> pc_used ?one"
    by (auto simp: pc_used_def two_spans_def geo_def pc_free_def head_def nxt_def chain_Some split: if_splits intro: exI [of _ "0 :: nat"])
  ultimately have "pc_step\<^sup>*\<^sup>* PageCache ?pc"
    using two_spans_reached pc_step.dealloc by (meson rtranclp.rtrancl_into_rtrancl)
  moreover have "allocateSpan mmap 8 ?pc = Inl NullPointer" for mmap
    by (simp add: allocateSpan_def lower_bound_def span_at_def deref_def)
  ultimately show ?thesis by (intro exI [of _ ?pc]) (auto intro: exI [of _ 16])
qed

end
