(* ===== verification/CentralCache.thy ===== *)
theory CentralCache
  imports PageCache SizeClass
begin

text \<open>
  The central cache of the memory pool (\<open>v2/include/CentralCache.h\<close>, \<open>v2/src/CentralCache.cpp\<close>):
  one free list of blocks per size class, filled by cutting spans of the page cache into blocks,
  with a table of at most 1024 spans whose free blocks are counted.

  A free block holds the address of the next one in its first word; \<open>0\<close> is \<open>nullptr\<close>. Every
  operation runs under the spin lock of its class from its first to its last access and is one
  step here. The counters of the table are \<open>size_t\<close> and wrap around.
\<close>

section \<open>The class\<close>

record span_tracker =
  t_spanAddr :: addr
  t_numPages :: nat
  t_blockCount :: size_t
  t_freeCount :: size_t

record central_cache =
  cc_pages :: page_cache
  cc_freeList :: "nat \<Rightarrow> addr"
  cc_trackers :: "span_tracker list"
  cc_spanCount :: nat
  cc_delayCounts :: "nat \<Rightarrow> nat"
  cc_lastReturnTimes :: "nat \<Rightarrow> int"

definition SPAN_PAGES :: nat where "SPAN_PAGES = 8"
definition MAX_DELAY_COUNT :: nat where "MAX_DELAY_COUNT = 48"
definition DELAY_INTERVAL :: int where "DELAY_INTERVAL = 1000"

definition CentralCache :: "int \<Rightarrow> page_cache \<Rightarrow> central_cache" where
  "CentralCache now pages = \<lparr>cc_pages = pages, cc_freeList = (\<lambda>_. 0),
     cc_trackers = replicate 1024 \<lparr>t_spanAddr = 0, t_numPages = 0, t_blockCount = 0, t_freeCount = 0\<rparr>,
     cc_spanCount = 0, cc_delayCounts = (\<lambda>_. 0), cc_lastReturnTimes = (\<lambda>_. now)\<rparr>"

text \<open>The word at an address: \<open>*reinterpret_cast<void**>(p)\<close>, read and written.\<close>

definition load :: "addr \<Rightarrow> (addr \<rightharpoonup> nat) \<Rightarrow> fault + addr" where
  "load a mem = (if a = 0 then Inl NullPointer else case mem a of None \<Rightarrow> Inl OutOfBounds | Some v \<Rightarrow> Inr v)"

definition store :: "addr \<Rightarrow> nat \<Rightarrow> (addr \<rightharpoonup> nat) \<Rightarrow> fault + (addr \<rightharpoonup> nat)" where
  "store a v mem = (if a = 0 then Inl NullPointer else case mem a of None \<Rightarrow> Inl OutOfBounds | Some _ \<Rightarrow> Inr (mem(a \<mapsto> v)))"

definition cc_mem :: "central_cache \<Rightarrow> addr \<rightharpoonup> nat" where
  "cc_mem cc = pc_mem (cc_pages cc)"

definition set_mem :: "(addr \<rightharpoonup> nat) \<Rightarrow> central_cache \<Rightarrow> central_cache" where
  "set_mem mem cc = cc\<lparr>cc_pages := (cc_pages cc)\<lparr>pc_mem := mem\<rparr>\<rparr>"

definition set_head :: "nat \<Rightarrow> addr \<Rightarrow> central_cache \<Rightarrow> central_cache" where
  "set_head index p cc = cc\<lparr>cc_freeList := (cc_freeList cc)(index := p)\<rparr>"

definition getSpanTracker :: "addr \<Rightarrow> central_cache \<Rightarrow> nat option" where
  "getSpanTracker blockAddr cc =
     (let limit = (if cc_spanCount cc < length (cc_trackers cc) then cc_spanCount cc else length (cc_trackers cc))
      in find (\<lambda>i. let t = cc_trackers cc ! i in
           t_spanAddr t \<noteq> 0 \<and> t_numPages t \<noteq> 0 \<and> t_spanAddr t \<le> blockAddr
           \<and> blockAddr < t_spanAddr t + t_numPages t * PAGE_SIZE) [0..<limit])"

definition fetchFromPageCache :: "(nat \<Rightarrow> addr option) \<Rightarrow> nat \<Rightarrow> central_cache \<Rightarrow> fault + addr option \<times> central_cache" where
  "fetchFromPageCache mmap sz cc =
     (let numPages = (sz + PAGE_SIZE - 1) div PAGE_SIZE in
      bindE (allocateSpan mmap (if sz \<le> SPAN_PAGES * PAGE_SIZE then SPAN_PAGES else numPages) (cc_pages cc))
        (\<lambda>(r, pages). Inr (r, cc\<lparr>cc_pages := pages\<rparr>)))"

text \<open>The loop that chains the blocks \<open>i - 1\<close> and \<open>i\<close> of a new span, for \<open>i\<close> up to \<open>blockNum\<close>.\<close>

function link_blocks :: "addr \<Rightarrow> nat \<Rightarrow> nat \<Rightarrow> nat \<Rightarrow> (addr \<rightharpoonup> nat) \<Rightarrow> fault + (addr \<rightharpoonup> nat)" where
  "link_blocks start sz i blockNum mem =
     (if i < blockNum then
        bindE (store (start + (i - 1) * sz) (start + i * sz) mem) (link_blocks start sz (i + 1) blockNum)
      else Inr mem)"
  by pat_completeness auto
termination
  by (relation "measure (\<lambda>(start, sz, i, blockNum, mem). blockNum - i)") auto

declare link_blocks.simps [simp del]

definition record_span :: "addr \<Rightarrow> nat \<Rightarrow> nat \<Rightarrow> central_cache \<Rightarrow> central_cache" where
  "record_span start numPages blockNum cc =
     (let trackerIndex = cc_spanCount cc;
          cc = cc\<lparr>cc_spanCount := cc_spanCount cc + 1\<rparr>
      in if trackerIndex < length (cc_trackers cc) then
           cc\<lparr>cc_trackers := (cc_trackers cc)[trackerIndex :=
             \<lparr>t_spanAddr = start, t_numPages = numPages, t_blockCount = of_nat blockNum,
              t_freeCount = of_nat (blockNum - 1)\<rparr>]\<rparr>
         else cc)"

definition fetchRange :: "(nat \<Rightarrow> addr option) \<Rightarrow> nat \<Rightarrow> central_cache \<Rightarrow> fault + addr \<times> central_cache" where
  "fetchRange mmap index cc =
     (if index \<ge> unat FREE_LIST_SIZE then Inr (0, cc)
      else
        let result = cc_freeList cc index in
        if result = 0 then
          let sz = (index + 1) * unat ALIGNMENT in
          bindE (fetchFromPageCache mmap sz cc) (\<lambda>(r, cc).
          case r of
            None \<Rightarrow> Inr (0, cc)
          | Some start \<Rightarrow>
              let numPages = (if sz \<le> SPAN_PAGES * PAGE_SIZE then SPAN_PAGES
                              else (sz + PAGE_SIZE - 1) div PAGE_SIZE);
                  blockNum = numPages * PAGE_SIZE div sz
              in if blockNum > 1 then
                   bindE (link_blocks start sz 1 blockNum (cc_mem cc)) (\<lambda>mem.
                   bindE (store (start + (blockNum - 1) * sz) 0 mem) (\<lambda>mem.
                   bindE (load start mem) (\<lambda>next_block.
                   bindE (store start 0 mem) (\<lambda>mem.
                   Inr (start, record_span start numPages blockNum (set_head index next_block (set_mem mem cc)))))))
                 else Inr (start, cc))
        else
          bindE (load result (cc_mem cc)) (\<lambda>next_block.
          bindE (store result 0 (cc_mem cc)) (\<lambda>mem.
          let cc = set_head index next_block (set_mem mem cc) in
          case getSpanTracker result cc of
            None \<Rightarrow> Inr (result, cc)
          | Some i \<Rightarrow>
              Inr (result, cc\<lparr>cc_trackers := (cc_trackers cc)[i := (cc_trackers cc ! i)
                     \<lparr>t_freeCount := t_freeCount (cc_trackers cc ! i) - 1\<rparr>]\<rparr>))))"

section \<open>The way back\<close>

definition shouldPerformDelayedReturn :: "nat \<Rightarrow> nat \<Rightarrow> int \<Rightarrow> central_cache \<Rightarrow> bool" where
  "shouldPerformDelayedReturn index currentCount currentTime cc =
     (if currentCount \<ge> MAX_DELAY_COUNT then True
      else currentTime - cc_lastReturnTimes cc index \<ge> DELAY_INTERVAL)"

text \<open>
  The loop of \<open>updateSpanFreeCount\<close> that takes the blocks of a span out of the free list, with its
  variables \<open>prev\<close>, \<open>newHead\<close> and \<open>current\<close>, and the loop that counts the free blocks per span.
  Neither ends on a cyclic list.
\<close>

partial_function (option) sweep ::
    "addr \<Rightarrow> nat \<Rightarrow> addr \<Rightarrow> addr \<Rightarrow> addr \<Rightarrow> (addr \<rightharpoonup> nat) \<Rightarrow> (fault + addr \<times> (addr \<rightharpoonup> nat)) option" where
  "sweep spanAddr numPages prev newHead current mem =
     (if current = 0 then Some (Inr (newHead, mem))
      else case load current mem of
          Inl f \<Rightarrow> Some (Inl f)
        | Inr next_block \<Rightarrow>
            if spanAddr \<le> current \<and> current < spanAddr + numPages * PAGE_SIZE then
              if prev \<noteq> 0 then
                (case store prev next_block mem of
                   Inl f \<Rightarrow> Some (Inl f)
                 | Inr mem \<Rightarrow> sweep spanAddr numPages prev newHead next_block mem)
              else sweep spanAddr numPages prev next_block next_block mem
            else sweep spanAddr numPages current newHead next_block mem)"

partial_function (option) count_blocks ::
    "central_cache \<Rightarrow> addr \<Rightarrow> (nat \<Rightarrow> nat) \<Rightarrow> (fault + (nat \<Rightarrow> nat)) option" where
  "count_blocks cc currentBlock spanFreeCounts =
     (if currentBlock = 0 then Some (Inr spanFreeCounts)
      else
        let spanFreeCounts = (case getSpanTracker currentBlock cc of
              None \<Rightarrow> spanFreeCounts
            | Some i \<Rightarrow> spanFreeCounts(i := spanFreeCounts i + 1))
        in case load currentBlock (cc_mem cc) of
             Inl f \<Rightarrow> Some (Inl f)
           | Inr next_block \<Rightarrow> count_blocks cc next_block spanFreeCounts)"

definition updateSpanFreeCount :: "nat \<Rightarrow> nat \<Rightarrow> nat \<Rightarrow> central_cache \<Rightarrow> fault + central_cache" where
  "updateSpanFreeCount tracker newFreeBlocks index cc =
     (let t = cc_trackers cc ! tracker;
          newFreeCount = t_freeCount t + of_nat newFreeBlocks;
          cc = cc\<lparr>cc_trackers := (cc_trackers cc)[tracker := t\<lparr>t_freeCount := newFreeCount\<rparr>]\<rparr>
      in if newFreeCount = t_blockCount t then
           (case sweep (t_spanAddr t) (t_numPages t) 0 (cc_freeList cc index) (cc_freeList cc index) (cc_mem cc) of
              None \<Rightarrow> Inl Diverges
            | Some r \<Rightarrow> bindE r (\<lambda>(newHead, mem).
                let cc = set_head index newHead (set_mem mem cc) in
                bindE (deallocateSpan (t_spanAddr t) (t_numPages t) (cc_pages cc)) (\<lambda>pages.
                Inr (cc\<lparr>cc_pages := pages\<rparr>))))
         else Inr cc)"

fun update_all :: "nat list \<Rightarrow> (nat \<Rightarrow> nat) \<Rightarrow> nat \<Rightarrow> central_cache \<Rightarrow> fault + central_cache" where
  "update_all [] counts index cc = Inr cc"
| "update_all (i # is) counts index cc =
     bindE (updateSpanFreeCount i (counts i) index cc) (update_all is counts index)"

text \<open>
  The counts are kept in an \<open>unordered_map\<close>; \<open>order\<close> is the order in which it is gone through.
\<close>

definition performDelayedReturn :: "(nat list \<Rightarrow> nat list) \<Rightarrow> int \<Rightarrow> nat \<Rightarrow> central_cache \<Rightarrow> fault + central_cache" where
  "performDelayedReturn order now index cc =
     (let cc = cc\<lparr>cc_delayCounts := (cc_delayCounts cc)(index := 0),
                  cc_lastReturnTimes := (cc_lastReturnTimes cc)(index := now)\<rparr>
      in case count_blocks cc (cc_freeList cc index) (\<lambda>_. 0) of
           None \<Rightarrow> Inl Diverges
         | Some r \<Rightarrow> bindE r (\<lambda>counts.
             update_all (order (filter (\<lambda>i. counts i > 0) [0..<length (cc_trackers cc)])) counts index cc))"

text \<open>The loop that looks for the last of the returned blocks, \<open>n\<close> steps at most.\<close>

fun range_end :: "nat \<Rightarrow> addr \<Rightarrow> (addr \<rightharpoonup> nat) \<Rightarrow> fault + addr" where
  "range_end 0 e mem = Inr e"
| "range_end (Suc n) e mem =
     bindE (load e mem) (\<lambda>next_block. if next_block = 0 then Inr e else range_end n next_block mem)"

definition returnRange :: "(nat list \<Rightarrow> nat list) \<Rightarrow> int \<Rightarrow> int \<Rightarrow> addr \<Rightarrow> nat \<Rightarrow> nat \<Rightarrow> central_cache \<Rightarrow> fault + central_cache" where
  "returnRange order currentTime now start sz index cc =
     (if start = 0 \<or> index \<ge> unat FREE_LIST_SIZE then Inr cc
      else
        let blockSize = (index + 1) * unat ALIGNMENT;
            blockCount = sz div blockSize
        in bindE (range_end (blockCount - 1) start (cc_mem cc)) (\<lambda>e.
           bindE (store e (cc_freeList cc index) (cc_mem cc)) (\<lambda>mem.
           let cc = set_head index start (set_mem mem cc);
               currentCount = cc_delayCounts cc index + 1;
               cc = cc\<lparr>cc_delayCounts := (cc_delayCounts cc)(index := currentCount)\<rparr>
           in if shouldPerformDelayedReturn index currentCount currentTime cc
              then performDelayedReturn order now index cc
              else Inr cc)))"

section \<open>Who has which block\<close>

text \<open>
  A block of the pool is in a central free list, in the free list of a thread, or with a client.
  \<open>own\<close> records this for the start address of every block, with the size class.
\<close>

datatype owner = Central | Local nat | Live

type_synonym ledger = "addr \<rightharpoonup> owner \<times> nat"

definition block :: "addr \<Rightarrow> nat \<Rightarrow> addr set" where
  "block a i = {a ..< a + (i + 1) * 8}"

definition opt :: "addr \<Rightarrow> addr option" where
  "opt a = (if a = 0 then None else Some a)"

definition mnext :: "(addr \<rightharpoonup> nat) \<Rightarrow> addr \<Rightarrow> addr option" where
  "mnext mem a = (case mem a of None \<Rightarrow> None | Some v \<Rightarrow> opt v)"

text \<open>The free list with head \<open>h\<close> visits exactly the blocks of class \<open>i\<close> that \<open>w\<close> owns.\<close>

definition owned :: "ledger \<Rightarrow> owner \<Rightarrow> nat \<Rightarrow> addr set" where
  "owned own w i = {a. own a = Some (w, i)}"

definition flist :: "ledger \<Rightarrow> (addr \<rightharpoonup> nat) \<Rightarrow> owner \<Rightarrow> nat \<Rightarrow> addr \<Rightarrow> bool" where
  "flist own mem w i h \<longleftrightarrow> (\<exists>xs. chain (mnext mem) (opt h) xs \<and> set xs = owned own w i)"

text \<open>Blocks are parts of spans in use, and do not overlap.\<close>

definition blocks_ok :: "ledger \<Rightarrow> page_cache \<Rightarrow> bool" where
  "blocks_ok own pages \<longleftrightarrow>
     (\<forall>a w i. own a = Some (w, i) \<longrightarrow> 0 < a \<and> (\<exists>r \<in> pc_used pages. block a i \<subseteq> area r))
     \<and> (\<forall>a b w i w' j. own a = Some (w, i) \<longrightarrow> own b = Some (w', j) \<longrightarrow> a \<noteq> b \<longrightarrow> block a i \<inter> block b j = {})"

lemma unat_ALIGNMENT [simp]: "unat ALIGNMENT = 8" "unat FREE_LIST_SIZE = 32768"
  by (simp_all add: ALIGNMENT_def FREE_LIST_SIZE_val)

lemma block_start [simp]: "a \<in> block a i"
  by (simp add: block_def)

lemma opt_simps [simp]: "opt 0 = None" "0 < a \<Longrightarrow> opt a = Some a" "opt a = None \<longleftrightarrow> a = 0"
  "opt a = Some b \<longleftrightarrow> a = b \<and> b \<noteq> 0"
  by (auto simp: opt_def)

lemma mnext_upd: "mnext (mem(a \<mapsto> v)) = (mnext mem)(a := opt v)"
  by (auto simp: mnext_def)

lemma blocks_ok_mem:
  assumes "blocks_ok own (pages :: page_cache)" and "pc_ok F pages" and "own a = Some (w, i)"
  shows "0 < a" "block a i \<subseteq> dom (pc_mem pages)" "pc_mem pages a \<noteq> None"
proof -
  show "0 < a" using assms(1,3) unfolding blocks_ok_def by blast
  from assms(1,3) obtain r where "r \<in> pc_used pages" "block a i \<subseteq> area r" unfolding blocks_ok_def by blast
  then show sub: "block a i \<subseteq> dom (pc_mem pages)" using pc_used_mem [OF assms(2)] by blast
  show "pc_mem pages a \<noteq> None" using subsetD [OF sub block_start] by auto
qed

text \<open>Lists under changes of memory and ledger elsewhere.\<close>

lemma flist_frame:
  assumes "flist own mem w i h" and "owned own' w i = owned own w i" and "\<And>a. a \<in> owned own w i \<Longrightarrow> mem' a = mem a"
  shows "flist own' mem' w i h"
proof -
  from assms(1) obtain xs where xs: "chain (mnext mem) (opt h) xs" "set xs = owned own w i" by (auto simp: flist_def)
  then have "chain (mnext mem') (opt h) xs" using assms(3) by (subst chain_cong [of xs "mnext mem'" "mnext mem"]) (auto simp: mnext_def)
  with xs(2) assms(2) show ?thesis by (auto simp: flist_def)
qed

lemma flist_empty: "flist own mem w i 0 \<longleftrightarrow> owned own w i = {}"
  by (auto simp: flist_def)

lemma flist_pop:
  assumes "flist own mem w i h" and "h \<noteq> 0" and "(w', j) \<noteq> (w, i)" and "\<And>a. own a = Some (w, i) \<Longrightarrow> mem a \<noteq> None"
  shows "own h = Some (w, i) \<and> (\<exists>n. mem h = Some n \<and> flist (own(h \<mapsto> (w', j))) (mem(h \<mapsto> v)) w i n)"
proof -
  from assms(1) obtain xs where xs: "chain (mnext mem) (opt h) xs" "set xs = owned own w i" by (auto simp: flist_def)
  with assms(2) obtain ys where ys: "xs = h # ys" "chain (mnext mem) (mnext mem h) ys" by (auto simp: opt_def chain_Some)
  then have own: "own h = Some (w, i)" using xs(2) by (auto simp: owned_def)
  then obtain n where n: "mem h = Some n" using assms(4) by blast
  have h: "h \<notin> set ys" using chain_distinct [OF xs(1)] ys(1) by simp
  then have "chain (mnext (mem(h \<mapsto> v))) (opt n) ys" using ys(2) n by (simp add: mnext_upd) (simp add: mnext_def)
  moreover have "set ys = owned (own(h \<mapsto> (w', j))) w i" using xs(2) ys(1) h assms(3) by (auto simp: owned_def)
  ultimately show ?thesis using own n by (auto simp: flist_def)
qed

lemma flist_push:
  assumes "flist own mem w i h" and "0 < a" and "own a \<noteq> Some (w, i)"
  shows "flist (own(a \<mapsto> (w, i))) (mem(a \<mapsto> h)) w i a"
proof -
  from assms(1) obtain xs where xs: "chain (mnext mem) (opt h) xs" "set xs = owned own w i" by (auto simp: flist_def)
  have "a \<notin> set xs" using xs(2) assms(3) by (auto simp: owned_def)
  with xs(1) assms(2) have "chain (mnext (mem(a \<mapsto> h))) (opt a) (a # xs)" by (simp add: mnext_upd)
  moreover have "set (a # xs) = owned (own(a \<mapsto> (w, i))) w i" using xs(2) by (auto simp: owned_def)
  ultimately show ?thesis unfolding flist_def by blast
qed

lemma owned_upd_other:
  "own a = Some (w', j) \<Longrightarrow> (w', j) \<noteq> (w, i) \<Longrightarrow> (w'', k) \<noteq> (w, i) \<Longrightarrow> owned (own(a \<mapsto> (w'', k))) w i = owned own w i"
  by (auto simp: owned_def)

text \<open>A block that changes hands keeps its place.\<close>

lemma blocks_ok_transfer:
  assumes "blocks_ok own pages" and "own a = Some (w, i)" and "pc_used pages' = pc_used pages"
  shows "blocks_ok (own(a \<mapsto> (w', i))) pages'"
  using assms unfolding blocks_ok_def by (auto split: if_splits)

section \<open>Cutting a span into blocks\<close>

definition nth_block :: "addr \<Rightarrow> nat \<Rightarrow> nat \<Rightarrow> addr" where
  "nth_block start i k = start + k * ((i + 1) * 8)"

lemma nth_block_inj: "nth_block start i k = nth_block start i l \<longleftrightarrow> k = l"
  by (simp add: nth_block_def)

lemma nth_block_0 [simp]: "nth_block start i 0 = start"
  by (simp add: nth_block_def)

lemma nth_block_fold: "start + k * ((i + 1) * 8) = nth_block start i k"
  by (simp add: nth_block_def)

lemma block_mono: "k < l \<Longrightarrow> nth_block start i k + (i + 1) * 8 \<le> nth_block start i l"
proof -
  assume "k < l"
  then have "(k + 1) * ((i + 1) * 8) \<le> l * ((i + 1) * 8)" by (intro mult_le_mono1) simp
  then show ?thesis by (simp add: nth_block_def)
qed

lemma new_block_area:
  assumes "k < N" and "N * ((i + 1) * 8) \<le> n * PAGE_SIZE"
  shows "block (nth_block start i k) i \<subseteq> area (start, n)"
proof -
  have "nth_block start i k + (i + 1) * 8 \<le> nth_block start i N" using assms(1) by (rule block_mono)
  also have "\<dots> \<le> start + n * PAGE_SIZE" using assms(2) by (simp only: nth_block_def add_left_mono)
  finally show ?thesis by (auto simp: block_def area_def nth_block_def)
qed

lemma new_blocks_disjoint: "k \<noteq> l \<Longrightarrow> block (nth_block start i k) i \<inter> block (nth_block start i l) i = {}"
  using block_mono [of k l start i] block_mono [of l k start i] by (cases "k < l") (auto simp: block_def)

lemma link_blocks_ok:
  assumes "0 < i" and "\<And>k. k < N \<Longrightarrow> mem (nth_block start c k) \<noteq> None" and "0 < start"
  shows "\<exists>mem'. link_blocks start ((c + 1) * 8) i N mem = Inr mem' \<and> dom mem' = dom mem
    \<and> (\<forall>a. mem' a = (if \<exists>k. i \<le> k \<and> k < N \<and> a = nth_block start c (k - 1)
         then Some (a + (c + 1) * 8) else mem a))"
  using assms
proof (induction "N - i" arbitrary: i mem)
  case 0
  then show ?case by (intro exI [of _ mem]) (auto simp: link_blocks.simps)
next
  case (Suc d)
  then have iN: "i < N" by simp
  let ?a = "nth_block start c (i - 1)"
  have "0 < ?a" using Suc.prems(3) by (simp add: nth_block_def)
  moreover have "i - 1 < N" using iN by simp
  then obtain v where v: "mem ?a = Some v" using Suc.prems(2) by blast
  ultimately have st: "store ?a (nth_block start c i) mem = Inr (mem(?a \<mapsto> nth_block start c i))"
    by (simp add: store_def)
  let ?mem = "mem(?a \<mapsto> nth_block start c i)"
  have dom: "dom ?mem = dom mem" using v by auto
  have "d = N - (i + 1)" and "0 < i + 1" using Suc.hyps(2) by simp_all
  note IH = Suc.hyps(1) [OF this _ Suc.prems(3), of ?mem]
  have "?mem (nth_block start c k) \<noteq> None" if "k < N" for k using Suc.prems(2) [OF that] by auto
  then obtain mem' where mem': "link_blocks start ((c + 1) * 8) (i + 1) N ?mem = Inr mem'" "dom mem' = dom ?mem"
    "\<And>a. mem' a = (if \<exists>k. i + 1 \<le> k \<and> k < N \<and> a = nth_block start c (k - 1) then Some (a + (c + 1) * 8) else ?mem a)"
    using IH by blast
  have succ: "nth_block start c i = ?a + (c + 1) * 8"
    using Suc.prems(1) by (cases i) (simp_all add: nth_block_def algebra_simps)
  have "mem' a = (if \<exists>k. i \<le> k \<and> k < N \<and> a = nth_block start c (k - 1) then Some (a + (c + 1) * 8) else mem a)" for a
  proof (cases "a = ?a")
    case True
    have "\<not> (\<exists>k. i + 1 \<le> k \<and> k < N \<and> ?a = nth_block start c (k - 1))"
      using Suc.prems(1) by (auto simp: nth_block_inj)
    then have "mem' ?a = Some (?a + (c + 1) * 8)" unfolding mem'(3) by (simp add: succ)
    moreover have "\<exists>k. i \<le> k \<and> k < N \<and> ?a = nth_block start c (k - 1)" using iN by blast
    ultimately show ?thesis using True by simp
  next
    case False
    then have "(\<exists>k. i + 1 \<le> k \<and> k < N \<and> a = nth_block start c (k - 1)) \<longleftrightarrow> (\<exists>k. i \<le> k \<and> k < N \<and> a = nth_block start c (k - 1))"
      by (metis Suc_eq_plus1 Suc_leD Suc_leI le_neq_implies_less)
    then show ?thesis using False unfolding mem'(3) by auto
  qed
  with mem'(1,2) dom st iN show ?case
    by (intro exI [of _ mem']) (simp only: link_blocks.simps [of _ _ i] nth_block_fold if_True bindE_Inr, blast)
qed

lemma chain_range:
  assumes "\<And>k. i \<le> k \<Longrightarrow> k + 1 < N \<Longrightarrow> nx (f k) = Some (f (k + 1))" and "nx (f (N - 1)) = None" and "i < N"
  shows "chain nx (Some (f i)) (map f [i..<N])"
  using assms
proof (induction "N - i" arbitrary: i)
  case (Suc d)
  show ?case
  proof (cases "i + 1 < N")
    case True
    then have "chain nx (Some (f (i + 1))) (map f [i + 1..<N])" using Suc by auto
    with True Suc.prems show ?thesis by (simp add: upt_rec [of i])
  next
    case False
    with Suc.prems have "N = i + 1" by simp
    with Suc.prems show ?thesis by simp
  qed
qed simp

text \<open>The four accesses that turn a fresh span into one block to hand out and a list of the others.\<close>

lemma carve_ok:
  assumes N: "1 < N" and mem: "\<And>k. k < N \<Longrightarrow> mem (nth_block start c k) \<noteq> None" and start: "0 < start"
  shows "\<exists>m1 m2 m3. link_blocks start ((c + 1) * 8) 1 N mem = Inr m1
    \<and> store (nth_block start c (N - 1)) 0 m1 = Inr m2 \<and> load start m2 = Inr (nth_block start c 1)
    \<and> store start 0 m2 = Inr m3 \<and> dom m3 = dom mem \<and> m3 start = Some 0
    \<and> chain (mnext m3) (Some (nth_block start c 1)) (map (nth_block start c) [1..<N])
    \<and> (\<forall>a. (\<forall>k < N. a \<noteq> nth_block start c k) \<longrightarrow> m3 a = mem a)"
proof -
  let ?b = "nth_block start c"
  obtain m1 where m1: "link_blocks start ((c + 1) * 8) 1 N mem = Inr m1" "dom m1 = dom mem"
    "\<And>a. m1 a = (if \<exists>k. 1 \<le> k \<and> k < N \<and> a = ?b (k - 1) then Some (a + (c + 1) * 8) else mem a)"
    using link_blocks_ok [of 1 N mem start c, OF _ mem start] by auto
  have succ: "?b k + (c + 1) * 8 = ?b (k + 1)" for k by (simp add: nth_block_def)
  have m1_b: "m1 (?b k) = Some (?b (k + 1))" if "k + 1 < N" for k
  proof -
    have "\<exists>l. 1 \<le> l \<and> l < N \<and> ?b k = ?b (l - 1)" using that by (intro exI [of _ "k + 1"]) simp
    then show ?thesis unfolding m1(3) by (simp add: succ [simplified])
  qed
  have pos: "0 < ?b k" for k using start by (simp add: nth_block_def)
  have "?b (N - 1) \<in> dom m1" using mem [of "N - 1"] N m1(2) by auto
  then have st: "store (?b (N - 1)) 0 m1 = Inr (m1(?b (N - 1) \<mapsto> 0))" using pos by (auto simp: store_def)
  let ?m2 = "m1(?b (N - 1) \<mapsto> 0)"
  have ne: "?b (N - 1) \<noteq> start" using nth_block_inj [of start c "N - 1" 0] N by simp
  have m2s: "?m2 start = Some (?b 1)" using m1_b [of 0] N ne by simp
  let ?m3 = "?m2(start \<mapsto> 0)"
  have "chain (mnext ?m3) (Some (?b 1)) (map ?b [1..<N])"
  proof (rule chain_range)
    show "mnext ?m3 (?b k) = Some (?b (k + 1))" if "1 \<le> k" "k + 1 < N" for k
    proof -
      have "?b k \<noteq> ?b (N - 1)" "?b k \<noteq> start" using that nth_block_inj [of start c k] nth_block_inj [of start c k 0] by auto
      then show ?thesis using m1_b [OF that(2)] pos [of "k + 1"] by (simp add: mnext_def)
    qed
    show "mnext ?m3 (?b (N - 1)) = None" using ne by (simp add: mnext_def)
  qed (use N in simp)
  moreover have "dom ?m3 = dom mem" using m1(2) mem [of "N - 1"] mem [of 0] N by (auto simp: domIff)
  moreover have "?m3 a = mem a" if "\<forall>k < N. a \<noteq> ?b k" for a
  proof -
    have "a \<noteq> ?b (N - 1)" "a \<noteq> start" using that N by (auto dest: spec [of _ 0])
    moreover have "\<not> (\<exists>k. 1 \<le> k \<and> k < N \<and> a = ?b (k - 1))" using that by (metis less_imp_diff_less)
    ultimately show ?thesis unfolding fun_upd_apply m1(3) by auto
  qed
  ultimately show ?thesis
    using m1(1) st m2s start by (intro exI [of _ m1] exI [of _ ?m2] exI [of _ ?m3]) (auto simp: load_def store_def)
qed

definition cut :: "addr \<Rightarrow> nat \<Rightarrow> nat \<Rightarrow> ledger \<Rightarrow> ledger" where
  "cut start i N own a =
     (if \<exists>k < N. a = nth_block start i k then Some (if a = start then Live else Central, i) else own a)"

lemma cut_blocks_ok:
  assumes ok: "blocks_ok own pages" and used: "pc_used pages' = insert (start, n) (pc_used pages)"
    and apart: "\<And>r. r \<in> pc_used pages \<Longrightarrow> area r \<inter> area (start, n) = {}"
    and start: "0 < start" and N: "N * ((i + 1) * 8) \<le> n * PAGE_SIZE"
  shows "blocks_ok (cut start i N own) pages'"
proof -
  have new: "block (nth_block start i k) i \<subseteq> area (start, n)" if "k < N" for k
    using new_block_area [OF that N] .
  have cases: "(\<exists>k < N. a = nth_block start i k) \<and> j = i \<or> own a = Some (w, j)"
    if "cut start i N own a = Some (w, j)" for a w j
    using that by (auto simp: cut_def split: if_splits)
  have old: "0 < a \<and> (\<exists>r \<in> pc_used pages. block a j \<subseteq> area r)" if "own a = Some (w, j)" for a w j
    using ok that unfolding blocks_ok_def by blast
  have mixed: "block a j \<inter> block (nth_block start i k) i = {}" if "own a = Some (w, j)" "k < N" for a w j k
    using old [OF that(1)] new [OF that(2)] apart by blast
  show ?thesis
    unfolding blocks_ok_def
  proof (intro conjI allI impI)
    show "0 < a" "\<exists>r \<in> pc_used pages'. block a j \<subseteq> area r" if "cut start i N own a = Some (w, j)" for a w j
      using cases [OF that] old [of a w j] new start by (auto simp: used nth_block_def)
    show "block a j \<inter> block b l = {}"
      if "cut start i N own a = Some (w, j)" "cut start i N own b = Some (w', l)" "a \<noteq> b" for a b w j w' l
      using cases [OF that(1)] cases [OF that(2)]
    proof (elim disjE conjE exE)
      assume "own a = Some (w, j)" "own b = Some (w', l)"
      then show ?thesis using ok that(3) unfolding blocks_ok_def by blast
    next
      fix k assume "own a = Some (w, j)" "k < N" "b = nth_block start i k" "l = i"
      then show ?thesis using mixed by simp
    next
      fix k assume "own b = Some (w', l)" "k < N" "a = nth_block start i k" "j = i"
      then show ?thesis using mixed [of b w' l k] by (simp add: Int_commute)
    next
      fix k k' assume "a = nth_block start i k" "b = nth_block start i k'" "j = i" "l = i"
      then show ?thesis using new_blocks_disjoint [of k k' start i] that(3) by auto
    qed
  qed
qed

lemma cut_owned:
  assumes "\<And>k. k < N \<Longrightarrow> own (nth_block start i k) = None"
  shows "owned (cut start i N own) Central i = owned own Central i \<union> nth_block start i ` {1..<N}"
    and "(w, j) \<noteq> (Central, i) \<Longrightarrow> w \<noteq> Live \<Longrightarrow> owned (cut start i N own) w j = owned own w j"
proof -
  have "nth_block start i k \<noteq> start \<longleftrightarrow> 1 \<le> k" for k using nth_block_inj [of start i k 0] by auto
  then show "owned (cut start i N own) Central i = owned own Central i \<union> nth_block start i ` {1..<N}"
    using assms by (fastforce simp: owned_def cut_def split: if_splits)
  show "owned (cut start i N own) w j = owned own w j" if "(w, j) \<noteq> (Central, i)" "w \<noteq> Live"
    using assms that by (auto simp: owned_def cut_def split: if_splits) fastforce+
qed

lemma pc_ok_words:
  assumes "pc_ok F pc" and "dom mem = dom (pc_mem pc)"
  shows "pc_ok F (pc\<lparr>pc_mem := mem\<rparr>)" "pc_used (pc\<lparr>pc_mem := mem\<rparr>) = pc_used pc"
proof -
  have "geo_ok (\<Union>k. set (F k)) (geo (pc_spans pc)) (pc_spanMap pc) (pc_newSpan pc) mem"
    using assms(1) unfolding pc_ok_def geo_ok_words [OF assms(2)] by (rule conjunct2)
  then show "pc_ok F (pc\<lparr>pc_mem := mem\<rparr>)" using assms(1) by (simp add: pc_ok_def)
qed (simp add: pc_used_def pc_free_def)

definition cc_inv :: "ledger \<Rightarrow> central_cache \<Rightarrow> bool" where
  "cc_inv own cc \<longleftrightarrow> pc_freeSpans (cc_pages cc) = [] \<and> pc_ok (\<lambda>_. []) (cc_pages cc) \<and> blocks_ok own (cc_pages cc)
     \<and> (\<forall>i. flist own (cc_mem cc) Central i (cc_freeList cc i))"

text \<open>The number of pages that a class asks for, and of blocks they give.\<close>

definition class_pages :: "nat \<Rightarrow> nat" where
  "class_pages i = (if (i + 1) * 8 \<le> SPAN_PAGES * PAGE_SIZE then SPAN_PAGES else ((i + 1) * 8 + PAGE_SIZE - 1) div PAGE_SIZE)"

definition class_blocks :: "nat \<Rightarrow> nat" where
  "class_blocks i = class_pages i * PAGE_SIZE div ((i + 1) * 8)"

lemma class_bounds:
  assumes "i < 32768"
  shows "0 < class_pages i" "class_pages i * PAGE_SIZE < 2 ^ 64" "class_blocks i * ((i + 1) * 8) \<le> class_pages i * PAGE_SIZE"
    "0 < class_blocks i"
proof -
  have sz: "(i + 1) * 8 \<le> class_pages i * PAGE_SIZE"
    unfolding class_pages_def SPAN_PAGES_def PAGE_SIZE_def by (simp split: if_splits) linarith
  show "0 < class_pages i" unfolding class_pages_def SPAN_PAGES_def PAGE_SIZE_def by (simp add: div_greater_zero_iff)
  have "class_pages i \<le> 64" using assms unfolding class_pages_def SPAN_PAGES_def PAGE_SIZE_def by auto
  then show "class_pages i * PAGE_SIZE < 2 ^ 64" by (simp add: PAGE_SIZE_def)
  show "class_blocks i * ((i + 1) * 8) \<le> class_pages i * PAGE_SIZE" unfolding class_blocks_def by (rule div_times_less_eq_dividend)
  show "0 < class_blocks i" unfolding class_blocks_def using sz by (simp add: div_greater_zero_iff)
qed

section \<open>Fetching a block\<close>

text \<open>
  What the caller of \<open>fetchRange\<close> relies on: the block that comes back was not with any client or
  thread, its link is cleared, and nothing changes for the blocks of others.
\<close>

definition fetched :: "ledger \<Rightarrow> central_cache \<Rightarrow> nat \<Rightarrow> addr \<Rightarrow> ledger \<Rightarrow> central_cache \<Rightarrow> bool" where
  "fetched own cc i r own' cc' \<longleftrightarrow> cc_inv own' cc' \<and> own' r = Some (Live, i) \<and> (own r = None \<or> own r = Some (Central, i))
     \<and> cc_mem cc' r = Some 0
     \<and> (\<forall>t j. owned own' (Local t) j = owned own (Local t) j)
     \<and> (\<forall>j. owned own' Live j = owned own Live j \<union> (if j = i then {r} else {}))
     \<and> (\<forall>a w j. own a = Some (w, j) \<longrightarrow> w \<noteq> Central \<longrightarrow> cc_mem cc' a = cc_mem cc a)"

lemma cc_inv_more [simp]:
  "cc_inv own (cc\<lparr>cc_trackers := ts\<rparr>) \<longleftrightarrow> cc_inv own cc" "cc_inv own (cc\<lparr>cc_spanCount := n\<rparr>) \<longleftrightarrow> cc_inv own cc"
  "cc_inv own (cc\<lparr>cc_delayCounts := d\<rparr>) \<longleftrightarrow> cc_inv own cc" "cc_inv own (cc\<lparr>cc_lastReturnTimes := l\<rparr>) \<longleftrightarrow> cc_inv own cc"
  by (simp_all add: cc_inv_def cc_mem_def)

lemma cc_mem_more [simp]:
  "cc_mem (cc\<lparr>cc_trackers := ts\<rparr>) = cc_mem cc" "cc_mem (cc\<lparr>cc_spanCount := n\<rparr>) = cc_mem cc"
  "cc_mem (set_head i h cc) = cc_mem cc" "cc_mem (set_mem mem cc) = mem" "cc_mem (cc\<lparr>cc_delayCounts := d\<rparr>) = cc_mem cc"
  by (simp_all add: cc_mem_def set_head_def set_mem_def)

lemma record_span_inv [simp]:
  "cc_inv own (record_span start n N cc) \<longleftrightarrow> cc_inv own cc" "cc_mem (record_span start n N cc) = cc_mem cc"
  by (simp_all add: record_span_def Let_def)

lemma cc_inv_set:
  assumes "pc_freeSpans (cc_pages cc) = []" and "pc_ok (\<lambda>_. []) (cc_pages cc)" and "dom mem = dom (cc_mem cc)"
    and "blocks_ok own (cc_pages cc)" and "\<And>j. flist own mem Central j (if j = i then h else cc_freeList cc j)"
  shows "cc_inv own (set_head i h (set_mem mem cc))"
proof -
  note words = pc_ok_words [OF assms(2), of mem] assms(3) [unfolded cc_mem_def]
  have "blocks_ok own ((cc_pages cc)\<lparr>pc_mem := mem\<rparr>)" using assms(4) words by (simp add: blocks_ok_def)
  then show ?thesis
    using assms(1,5) words unfolding cc_inv_def by (simp add: set_head_def set_mem_def cc_mem_def)
qed

lemma fetch_from_list:
  assumes inv: "cc_inv own cc" and r: "cc_freeList cc i = r" "r \<noteq> 0"
  shows "\<exists>n. load r (cc_mem cc) = Inr n \<and> store r 0 (cc_mem cc) = Inr ((cc_mem cc)(r \<mapsto> 0))
    \<and> fetched own cc i r (own(r \<mapsto> (Live, i))) (set_head i n (set_mem ((cc_mem cc)(r \<mapsto> 0)) cc))"
proof -
  let ?mem = "cc_mem cc" and ?own = "own(r \<mapsto> (Live, i))"
  have pc: "pc_freeSpans (cc_pages cc) = []" "pc_ok (\<lambda>_. []) (cc_pages cc)" and bl: "blocks_ok own (cc_pages cc)"
    and fl: "\<And>j. flist own ?mem Central j (cc_freeList cc j)" using inv by (auto simp: cc_inv_def)
  have some: "?mem a \<noteq> None" if "own a = Some (Central, i)" for a
    using blocks_ok_mem(3) [OF bl pc(2) that] by (simp add: cc_mem_def)
  from flist_pop [OF fl [of i, unfolded r(1)] r(2) _ some, of Live i 0] obtain n
    where own: "own r = Some (Central, i)" and n: "?mem r = Some n" and pop: "flist ?own (?mem(r \<mapsto> 0)) Central i n"
    by auto
  have "cc_inv ?own (set_head i n (set_mem (?mem(r \<mapsto> 0)) cc))"
  proof (rule cc_inv_set [OF pc])
    show "dom (?mem(r \<mapsto> 0)) = dom ?mem" using n by auto
    show "blocks_ok ?own (cc_pages cc)" by (rule blocks_ok_transfer [OF bl own refl])
    show "flist ?own (?mem(r \<mapsto> 0)) Central j (if j = i then n else cc_freeList cc j)" for j
    proof (cases "j = i")
      case False
      then have "flist ?own (?mem(r \<mapsto> 0)) Central j (cc_freeList cc j)"
        using own by (intro flist_frame [OF fl]) (auto simp: owned_def)
      with False show ?thesis by simp
    qed (use pop in simp)
  qed
  moreover have "owned ?own (Local t) j = owned own (Local t) j" for t j using own by (auto simp: owned_def)
  moreover have "owned ?own Live j = owned own Live j \<union> (if j = i then {r} else {})" for j using own by (auto simp: owned_def)
  ultimately show ?thesis using own n r by (intro exI [of _ n]) (auto simp: fetched_def load_def store_def)
qed

lemma fetchRange_empty:
  assumes "i < 32768" and "cc_freeList cc i = 0"
  shows "fetchRange mmap i cc = bindE (allocateSpan mmap (class_pages i) (cc_pages cc)) (\<lambda>(r, pages).
    let cc = cc\<lparr>cc_pages := pages\<rparr> in
    case r of None \<Rightarrow> Inr (0, cc)
    | Some start \<Rightarrow>
        if 1 < class_blocks i then
          bindE (link_blocks start ((i + 1) * 8) 1 (class_blocks i) (cc_mem cc)) (\<lambda>mem.
          bindE (store (nth_block start i (class_blocks i - 1)) 0 mem) (\<lambda>mem.
          bindE (load start mem) (\<lambda>next_block.
          bindE (store start 0 mem) (\<lambda>mem.
          Inr (start, record_span start (class_pages i) (class_blocks i) (set_head i next_block (set_mem mem cc)))))))
        else Inr (start, cc))"
proof -
  have "fetchRange mmap i cc = bindE (bindE (allocateSpan mmap (class_pages i) (cc_pages cc)) (\<lambda>(r, pages). Inr (r, cc\<lparr>cc_pages := pages\<rparr>)))
    (\<lambda>(r, cc). case r of None \<Rightarrow> Inr (0, cc)
    | Some start \<Rightarrow>
        if 1 < class_blocks i then
          bindE (link_blocks start ((i + 1) * 8) 1 (class_blocks i) (cc_mem cc)) (\<lambda>mem.
          bindE (store (start + (class_blocks i - 1) * ((i + 1) * 8)) 0 mem) (\<lambda>mem.
          bindE (load start mem) (\<lambda>next_block.
          bindE (store start 0 mem) (\<lambda>mem.
          Inr (start, record_span start (class_pages i) (class_blocks i) (set_head i next_block (set_mem mem cc)))))))
        else Inr (start, cc))"
    unfolding fetchRange_def fetchFromPageCache_def Let_def unat_ALIGNMENT class_pages_def [symmetric] class_blocks_def [symmetric] assms(2)
    using assms(1) by simp
  then show ?thesis
    unfolding nth_block_fold by (cases "allocateSpan mmap (class_pages i) (cc_pages cc)") (auto simp: Let_def)
qed

lemma fetch_cut:
  assumes i: "i < 32768" and empty: "cc_freeList cc i = 0" and start: "0 < start"
    and al: "allocateSpan mmap (class_pages i) (cc_pages cc) = Inr (Some start, pages)"
    and zero: "\<And>k. k < class_blocks i \<Longrightarrow> pc_mem pages (nth_block start i k) = Some 0"
  obtains m h cc' where "fetchRange mmap i cc = Inr (start, cc')"
    and "\<And>own. cc_inv own cc' \<longleftrightarrow> cc_inv own (set_head i h (set_mem m (cc\<lparr>cc_pages := pages\<rparr>)))" and "cc_mem cc' = m"
    and "dom m = dom (pc_mem pages)" and "m start = Some 0"
    and "\<And>a. (\<And>k. k < class_blocks i \<Longrightarrow> a \<noteq> nth_block start i k) \<Longrightarrow> m a = pc_mem pages a"
    and "chain (mnext m) (opt h) (map (nth_block start i) [1..<class_blocks i])"
proof -
  let ?N = "class_blocks i" and ?cc = "cc\<lparr>cc_pages := pages\<rparr>"
  note N = class_bounds [OF i]
  have unfold: "fetchRange mmap i cc = (if 1 < ?N then
      bindE (link_blocks start ((i + 1) * 8) 1 ?N (cc_mem ?cc)) (\<lambda>mem.
      bindE (store (nth_block start i (?N - 1)) 0 mem) (\<lambda>mem.
      bindE (load start mem) (\<lambda>next_block.
      bindE (store start 0 mem) (\<lambda>mem.
      Inr (start, record_span start (class_pages i) ?N (set_head i next_block (set_mem mem ?cc)))))))
    else Inr (start, ?cc))"
    unfolding fetchRange_empty [OF i empty] al by (simp add: Let_def)
  show thesis
  proof (cases "1 < ?N")
    case True
    have "cc_mem ?cc (nth_block start i k) \<noteq> None" if "k < ?N" for k using zero [OF that] by (simp add: cc_mem_def)
    from carve_ok [where mem = "cc_mem ?cc" and c = i, OF True this start] obtain m1 m2 m3 where
      "link_blocks start ((i + 1) * 8) 1 ?N (cc_mem ?cc) = Inr m1" "store (nth_block start i (?N - 1)) 0 m1 = Inr m2"
      "load start m2 = Inr (nth_block start i 1)" "store start 0 m2 = Inr m3"
      and m3: "dom m3 = dom (cc_mem ?cc)" "m3 start = Some 0"
        "chain (mnext m3) (Some (nth_block start i 1)) (map (nth_block start i) [1..<?N])"
        "\<forall>a. (\<forall>k < ?N. a \<noteq> nth_block start i k) \<longrightarrow> m3 a = cc_mem ?cc a"
      by blast
    then have run: "fetchRange mmap i cc = Inr (start, record_span start (class_pages i) ?N
        (set_head i (nth_block start i 1) (set_mem m3 ?cc)))"
      unfolding unfold using True by simp
    have "cc_mem ?cc = pc_mem pages" and "0 < nth_block start i 1"
      using start by (simp_all add: cc_mem_def nth_block_def)
    with m3 show thesis
      by (intro that [of _ "nth_block start i 1" m3, OF run]) simp_all
  next
    case False
    with N(4) have N1: "?N = 1" by simp
    have "set_head i 0 (set_mem (pc_mem pages) ?cc) = ?cc" using empty by (simp add: set_head_def set_mem_def fun_upd_idem)
    then show thesis
      using unfold zero [of 0] N1 by (intro that [of ?cc 0 "pc_mem pages"]) (simp_all add: cc_mem_def)
  qed
qed

lemma fetch_from_pages:
  assumes inv: "cc_inv own cc" and empty: "cc_freeList cc i = 0" and i: "i < 32768"
    and fresh: "mmap_fresh mmap (class_pages i) (cc_pages cc)" and start: "mmap (class_pages i * PAGE_SIZE) = Some start"
  shows "\<exists>cc'. fetchRange mmap i cc = Inr (start, cc') \<and> fetched own cc i start (cut start i (class_blocks i) own) cc' \<and> 0 < start"
proof -
  let ?n = "class_pages i" and ?N = "class_blocks i" and ?b = "nth_block start i"
  have pc: "pc_freeSpans (cc_pages cc) = []" "pc_ok (\<lambda>_. []) (cc_pages cc)" and bl: "blocks_ok own (cc_pages cc)"
    and fl: "\<And>j. flist own (cc_mem cc) Central j (cc_freeList cc j)" using inv by (auto simp: cc_inv_def)
  note N = class_bounds [OF i]
  have start0: "0 < start" using fresh start by (auto simp: mmap_fresh_def)
  have lb: "lower_bound ?n (pc_freeSpans (cc_pages cc)) = None" using pc(1) by (simp add: lower_bound_def)
  obtain pages where al: "allocateSpan mmap ?n (cc_pages cc) = Inr (Some start, pages)" and ok: "pc_ok (\<lambda>_. []) pages"
    and used: "pc_used pages = insert (start, ?n) (pc_used (cc_pages cc))" and fs: "pc_freeSpans pages = []"
    and new: "area (start, ?n) \<inter> dom (pc_mem (cc_pages cc)) = {}"
    and mem: "pc_mem pages = (\<lambda>x. if x \<in> area (start, ?n) then Some 0 else pc_mem (cc_pages cc) x)"
    using allocate_from_system [OF pc(2) lb N(1,2) fresh start] pc(1) by auto
  have ob: "pc_inv (cc_pages cc)" "pc_obtain ?n start (cc_pages cc) pages"
    using pc(2) al N fresh by (auto simp: pc_inv_def pc_obtain_def)
  let ?cc = "cc\<lparr>cc_pages := pages\<rparr>" and ?own = "cut start i ?N own"
  have in_area: "block (?b k) i \<subseteq> area (start, ?n)" if "k < ?N" for k using new_block_area [OF that N(3)] .
  have b_area: "?b k \<in> area (start, ?n)" if "k < ?N" for k using subsetD [OF in_area [OF that] block_start] .
  then have at_b: "pc_mem pages (?b k) = Some 0" if "k < ?N" for k using that by (simp add: mem)
  have own_b: "own (?b k) = None" if "k < ?N" for k
  proof (rule ccontr)
    assume "own (?b k) \<noteq> None"
    then obtain w j where "own (?b k) = Some (w, j)" by auto
    then have "pc_mem (cc_pages cc) (?b k) \<noteq> None" by (rule blocks_ok_mem(3) [OF bl pc(2)])
    then show False using new b_area [OF that] by auto
  qed
  have bl': "blocks_ok ?own pages"
    by (rule cut_blocks_ok [OF bl used pages.obtain_disjoint [OF ob] start0 N(3)])
  have old: "pc_mem pages a = cc_mem cc a" "\<And>k. k < ?N \<Longrightarrow> a \<noteq> ?b k" if "own a = Some (w, j)" for a w j
    using blocks_ok_mem(3) [OF bl pc(2) that] new own_b that by (auto simp: mem cc_mem_def)
  have none: "owned own Central i = {}" using fl [of i] empty by (simp add: flist_empty)
  obtain m h cc' where run: "fetchRange mmap i cc = Inr (start, cc')"
    and inv': "\<And>own. cc_inv own cc' \<longleftrightarrow> cc_inv own (set_head i h (set_mem m ?cc))" and mem': "cc_mem cc' = m"
    and m: "dom m = dom (pc_mem pages)" "m start = Some 0" "\<And>a. (\<And>k. k < ?N \<Longrightarrow> a \<noteq> ?b k) \<Longrightarrow> m a = pc_mem pages a"
    and ch: "chain (mnext m) (opt h) (map ?b [1..<?N])"
    by (rule fetch_cut [OF i empty start0 al at_b]) blast+
  have keep: "m a = cc_mem cc a" if "own a = Some (w, j)" for a w j
    using old [OF that] m(3) [of a] by simp
  have "cc_inv ?own (set_head i h (set_mem m ?cc))"
  proof (rule cc_inv_set)
    show "flist ?own m Central j (if j = i then h else cc_freeList ?cc j)" for j
    proof (cases "j = i")
      case True
      then show ?thesis using ch none cut_owned(1) [of ?N own start i, OF own_b] by (auto simp: flist_def)
    next
      case False
      have "flist ?own m Central j (cc_freeList cc j)"
        by (rule flist_frame [OF fl]) (use False cut_owned(2) [of ?N own start i Central j, OF own_b] keep in \<open>auto simp: owned_def\<close>)
      then show ?thesis using False by simp
    qed
  qed (use ok fs bl' m(1) in \<open>simp_all add: cc_mem_def\<close>)
  moreover have "owned ?own Live j = owned own Live j \<union> (if j = i then {start} else {})" for j
    using own_b N(4) by (auto simp: owned_def cut_def split: if_splits intro: exI [of _ 0])
  moreover have "?own start = Some (Live, i)" using N(4) by (auto simp: cut_def intro: exI [of _ 0])
  ultimately have "fetched own cc i start ?own cc'"
    using inv' mem' m(2) own_b [of 0] N(4) keep cut_owned(2) [of ?N own start i, OF own_b] by (auto simp: fetched_def)
  with run start0 show ?thesis by blast
qed

text \<open>One call of \<open>fetchRange\<close> on a central cache in order.\<close>

lemma fetchRange_ok:
  assumes inv: "cc_inv own cc" and i: "i < 32768" and fresh: "mmap_fresh mmap (class_pages i) (cc_pages cc)"
  shows "fetchRange mmap i cc = Inr (0, cc)
    \<or> (\<exists>r own' cc'. fetchRange mmap i cc = Inr (r, cc') \<and> 0 < r \<and> fetched own cc i r own' cc')"
proof (cases "cc_freeList cc i = 0")
  case True
  show ?thesis
  proof (cases "mmap (class_pages i * PAGE_SIZE)")
    case None
    have "allocateSpan mmap (class_pages i) (cc_pages cc) = Inr (None, cc_pages cc)"
      using inv None class_bounds(2) [OF i] by (simp add: cc_inv_def allocateSpan_def lower_bound_def systemAlloc_def)
    then have "fetchRange mmap i cc = Inr (0, cc)"
      unfolding fetchRange_empty [OF i True] by simp
    then show ?thesis by simp
  qed (use fetch_from_pages [OF inv True i fresh] in blast)
next
  case False
  obtain n where "load (cc_freeList cc i) (cc_mem cc) = Inr n"
    "store (cc_freeList cc i) 0 (cc_mem cc) = Inr ((cc_mem cc)(cc_freeList cc i \<mapsto> 0))"
    "fetched own cc i (cc_freeList cc i) (own(cc_freeList cc i \<mapsto> (Live, i)))
      (set_head i n (set_mem ((cc_mem cc)(cc_freeList cc i \<mapsto> 0)) cc))"
    using fetch_from_list [OF inv refl False] by blast
  then show ?thesis
    using False i by (auto simp: fetchRange_def fetched_def Let_def split: option.split)
qed

section \<open>Taking the blocks of a span out of a free list\<close>

definition in_span :: "addr \<Rightarrow> nat \<Rightarrow> addr \<Rightarrow> bool" where
  "in_span spanAddr numPages x \<longleftrightarrow> spanAddr \<le> x \<and> x < spanAddr + numPages * PAGE_SIZE"

lemma load_ok: "0 < a \<Longrightarrow> mem a = Some v \<Longrightarrow> load a mem = Inr v"
  by (simp add: load_def)

lemma store_ok: "0 < a \<Longrightarrow> mem a \<noteq> None \<Longrightarrow> store a v mem = Inr (mem(a \<mapsto> v))"
  by (auto simp: store_def)

text \<open>
  The loop invariant: the list from \<open>newHead\<close> consists of the blocks kept so far, the last of which
  is \<open>prev\<close>, and the blocks from \<open>current\<close> on.
\<close>

lemma sweep_loop:
  assumes "chain (mnext mem) (opt newHead) (ps @ xs)" and "chain (mnext mem) (opt current) xs"
    and "\<And>x. x \<in> set (ps @ xs) \<Longrightarrow> 0 < x \<and> mem x \<noteq> None" and "prev = (if ps = [] then 0 else last ps)"
  shows "\<exists>h mem'. sweep a n prev newHead current mem = Some (Inr (h, mem'))
    \<and> chain (mnext mem') (opt h) (ps @ filter (\<lambda>x. \<not> in_span a n x) xs)
    \<and> dom mem' = dom mem \<and> (\<forall>x. x \<notin> set (ps @ xs) \<longrightarrow> mem' x = mem x)"
  using assms
proof (induction xs arbitrary: ps prev newHead current mem)
  case Nil
  then show ?case by (auto simp: sweep.simps)
next
  case (Cons x xs)
  have x: "current = x" "0 < x" and tail: "chain (mnext mem) (mnext mem x) xs"
    using Cons.prems(2) by auto
  obtain v where v: "mem x = Some v" using Cons.prems(3) [of x] by auto
  have ld: "load x mem = Inr v" using x v by (simp add: load_ok)
  have tail': "chain (mnext mem) (opt v) xs" using tail v by (simp add: mnext_def)
  show ?case
  proof (cases "in_span a n x")
    case False
    have step: "sweep a n prev newHead current mem = sweep a n x newHead v mem"
      using x ld False by (subst sweep.simps) (auto simp: in_span_def)
    have "\<exists>h mem'. sweep a n x newHead v mem = Some (Inr (h, mem'))
      \<and> chain (mnext mem') (opt h) ((ps @ [x]) @ filter (\<lambda>x. \<not> in_span a n x) xs)
      \<and> dom mem' = dom mem \<and> (\<forall>y. y \<notin> set ((ps @ [x]) @ xs) \<longrightarrow> mem' y = mem y)"
      using Cons.prems tail' by (intro Cons.IH) auto
    with False show ?thesis unfolding step by simp
  next
    case True
    show ?thesis
    proof (cases "ps = []")
      case True
      have step: "sweep a n prev newHead current mem = sweep a n 0 v v mem"
        using x ld \<open>in_span a n x\<close> True Cons.prems(4) by (subst sweep.simps) (auto simp: in_span_def)
      have "\<exists>h mem'. sweep a n 0 v v mem = Some (Inr (h, mem'))
        \<and> chain (mnext mem') (opt h) ([] @ filter (\<lambda>x. \<not> in_span a n x) xs)
        \<and> dom mem' = dom mem \<and> (\<forall>y. y \<notin> set ([] @ xs) \<longrightarrow> mem' y = mem y)"
        using Cons.prems tail' by (intro Cons.IH) auto
      with \<open>in_span a n x\<close> True show ?thesis unfolding step by auto
    next
      case False
      then obtain us p where ps: "ps = us @ [p]" by (metis append_butlast_last_id)
      have p: "prev = p" "0 < p" "mem p \<noteq> None" using Cons.prems(3) [of p] Cons.prems(4) ps by auto
      define m where "m = mem(p \<mapsto> v)"
      have m: "dom m = dom mem" "\<And>y. mem y \<noteq> None \<Longrightarrow> m y \<noteq> None" "\<And>y. y \<noteq> p \<Longrightarrow> m y = mem y" "mnext m = (mnext mem)(p := opt v)"
        using p(3) by (auto simp: m_def mnext_upd)
      have d: "distinct (us @ p # x # xs)" using chain_distinct [OF Cons.prems(1)] ps by simp
      have step: "sweep a n prev newHead current mem = sweep a n p newHead v m"
        using x ld \<open>in_span a n x\<close> p by (subst sweep.simps) (simp add: in_span_def store_ok m_def)
      have "chain (mnext m) (opt newHead) (ps @ xs)"
        using chain_unlink [of "mnext mem" "opt newHead" us p x xs] Cons.prems(1) v ps
        by (simp add: m(4)) (simp add: mnext_def)
      moreover have "chain (mnext m) (opt v) xs" using tail' d by (simp add: m(4))
      ultimately have "\<exists>h mem'. sweep a n p newHead v m = Some (Inr (h, mem'))
        \<and> chain (mnext mem') (opt h) (ps @ filter (\<lambda>x. \<not> in_span a n x) xs)
        \<and> dom mem' = dom m \<and> (\<forall>y. y \<notin> set (ps @ xs) \<longrightarrow> mem' y = m y)"
        using Cons.prems(3) m(2) ps by (intro Cons.IH) auto
      then show ?thesis using \<open>in_span a n x\<close> ps m(1,3) unfolding step by auto
    qed
  qed
qed

text \<open>
  (C31) The pointer surgery that takes the blocks of a span out of a free list, with its case for
  the head and its trailing pointer, is a filter: on every well-formed free list the loop ends
  without a fault, and the list it leaves consists of the blocks outside the span, in their order.
  No word outside the list changes.
\<close>

theorem sweep_is_filter:
  assumes "chain (mnext mem) (opt h) xs" and "\<forall>x \<in> set xs. 0 < x \<and> mem x \<noteq> None"
  shows "\<exists>h' mem'. sweep spanAddr numPages 0 h h mem = Some (Inr (h', mem'))
    \<and> chain (mnext mem') (opt h') (filter (\<lambda>x. \<not> in_span spanAddr numPages x) xs)
    \<and> dom mem' = dom mem \<and> (\<forall>x. x \<notin> set xs \<longrightarrow> mem' x = mem x)"
  using sweep_loop [of mem h "[]" xs h 0 spanAddr numPages] assms by auto

definition three_blocks :: "addr \<rightharpoonup> nat" where
  "three_blocks = [8 \<mapsto> 4096, 4096 \<mapsto> 16, 16 \<mapsto> 0]"

theorem sweep_is_filter_witness:
  "\<exists>h' mem'. sweep 4096 1 0 8 8 three_blocks = Some (Inr (h', mem')) \<and> chain (mnext mem') (opt h') [8, 16]"
proof -
  have "chain (mnext three_blocks) (opt 8) [8, 4096, 16]" by (simp add: three_blocks_def mnext_def)
  moreover have "\<forall>x \<in> set [8, 4096, 16]. 0 < x \<and> three_blocks x \<noteq> None" by (simp add: three_blocks_def)
  ultimately show ?thesis
    using sweep_is_filter [of three_blocks 8 "[8, 4096, 16]" 4096 1] by (auto simp: in_span_def PAGE_SIZE_def)
qed

section \<open>The delayed return\<close>

text \<open>
  A central cache in which class 1023, blocks of 8 KiB, has one span, at address 4096: its free
  list, the links of its blocks and the counters.
\<close>

definition fresh_map :: "nat \<Rightarrow> addr option" where "fresh_map n = Some 4096"


definition cc_at :: "page_cache \<Rightarrow> (addr \<rightharpoonup> nat) \<Rightarrow> addr \<Rightarrow> size_t \<Rightarrow> nat \<Rightarrow> central_cache" where
  "cc_at pages mem h free d =
     (CentralCache 0 (pages\<lparr>pc_mem := mem\<rparr>))\<lparr>cc_freeList := (\<lambda>_. 0)(1023 := h), cc_spanCount := 1, cc_delayCounts := (\<lambda>_. 0)(1023 := d),
     cc_trackers := (replicate 1024 \<lparr>t_spanAddr = 0, t_numPages = 0, t_blockCount = 0, t_freeCount = 0\<rparr>)
       [0 := \<lparr>t_spanAddr = 4096, t_numPages = 8, t_blockCount = 4, t_freeCount = free\<rparr>]\<rparr>"

definition one_span :: page_cache where
  "one_span = \<lparr>pc_freeSpans = [], pc_spanMap = [4096 \<mapsto> 0], pc_spans = [0 \<mapsto> \<lparr>sp_pageAddr = 4096, sp_numPages = 8, sp_next = None\<rparr>],
     pc_newSpan = 1, pc_mem = Map.empty\<rparr>"

definition words :: "nat \<Rightarrow> nat \<Rightarrow> nat \<Rightarrow> addr \<rightharpoonup> nat" where
  "words b c d = (\<lambda>a. if 4096 \<le> a \<and> a < 36864 then Some 0 else None)(12288 \<mapsto> b, 20480 \<mapsto> c, 28672 \<mapsto> d)"

lemma words_simps [simp]: "words b c d 4096 = Some 0" "words b c d 12288 = Some b" "words b c d 20480 = Some c"
  "words b c d 28672 = Some d"
  "(words b c d)(12288 \<mapsto> x) = words x c d" "(words b c d)(20480 \<mapsto> x) = words b x d"
  by (auto simp: words_def)

lemma trace_fetch_0: "fetchRange fresh_map 1023 (CentralCache 0 PageCache) = Inr (4096, cc_at one_span (words 20480 28672 0) 12288 3 0)"
proof -
  have bound: "(1023 :: nat) < 32768" "cc_freeList (CentralCache 0 PageCache) 1023 = 0" by (simp_all add: CentralCache_def)
  have al: "allocateSpan fresh_map 8 PageCache = Inr (Some 4096, one_span\<lparr>pc_mem := \<lambda>a. if 4096 \<le> a \<and> a < 36864 then Some 0 else None\<rparr>)"
    by (simp add: allocateSpan_def PageCache_def lower_bound_def systemAlloc_def fresh_map_def new_span_def one_span_def cong: if_cong)
  have cls: "class_pages 1023 = 8" "class_blocks 1023 = 4" by (simp_all add: class_pages_def class_blocks_def SPAN_PAGES_def PAGE_SIZE_def)
  show ?thesis
    unfolding fetchRange_empty [OF bound] cls
    by (simp add: al CentralCache_def link_blocks.simps store_def load_def cc_mem_def nth_block_def set_mem_def set_head_def
     record_span_def cc_at_def words_def fun_upd_twist)
      (auto intro!: arg_cong [where f = "\<lambda>m. one_span\<lparr>pc_mem := m\<rparr>"])
qed

lemma cc_at_simps [simp]:
  "cc_freeList (cc_at pages mem h f d) = (\<lambda>_. 0)(1023 := h)" "cc_mem (cc_at pages mem h f d) = mem"
  "set_head 1023 h' (cc_at pages mem h f d) = cc_at pages mem h' f d" "set_mem mem' (cc_at pages mem h f d) = cc_at pages mem' h f d"
  "cc_trackers (cc_at pages mem h f d) ! 0 = \<lparr>t_spanAddr = 4096, t_numPages = 8, t_blockCount = 4, t_freeCount = f\<rparr>"
  "(cc_at pages mem h f d)\<lparr>cc_trackers := (cc_trackers (cc_at pages mem h f d))
       [0 := \<lparr>t_spanAddr = 4096, t_numPages = 8, t_blockCount = 4, t_freeCount = f'\<rparr>]\<rparr> = cc_at pages mem h f' d"
  "length (cc_trackers (cc_at pages mem h f d)) = 1024" "cc_delayCounts (cc_at pages mem h f d) = (\<lambda>_. 0)(1023 := d)"
  "cc_lastReturnTimes (cc_at pages mem h f d) = (\<lambda>_. 0)"
  "cc_pages (cc_at pages mem h f d) = pages\<lparr>pc_mem := mem\<rparr>"
  "cc_spanCount (cc_at pages mem h f d) = 1"
  "(cc_at pages mem h f d)\<lparr>cc_delayCounts := (\<lambda>_. 0)(1023 := d')\<rparr> = cc_at pages mem h f d'"
  by (simp_all add: cc_at_def CentralCache_def cc_mem_def set_head_def set_mem_def)

lemma cc_at_tracker: "4096 \<le> a \<Longrightarrow> a < 36864 \<Longrightarrow> getSpanTracker a (cc_at pages mem h f d) = Some 0"
  by (simp add: getSpanTracker_def) 

lemma trace_fetch_1: "fetchRange m 1023 (cc_at one_span (words b c d) 12288 f k) = Inr (12288, cc_at one_span (words 0 c d) b (f - 1) k)"
  by (simp add: fetchRange_def load_def store_def cc_at_tracker)

lemma trace_fetch_2: "fetchRange m 1023 (cc_at one_span (words b c d) 20480 f k) = Inr (20480, cc_at one_span (words b 0 d) c (f - 1) k)"
  by (simp add: fetchRange_def load_def store_def cc_at_tracker)

lemma trace_return_2: "returnRange order 0 0 20480 8192 1023 (cc_at one_span (words b 0 d) h f 0) =
    Inr (cc_at one_span (words b h d) 20480 f 1)"
  by (simp add: returnRange_def store_def shouldPerformDelayedReturn_def MAX_DELAY_COUNT_def DELAY_INTERVAL_def)


definition released :: page_cache where
  "released = one_span\<lparr>pc_freeSpans := [(8, Some 0)]\<rparr>"

lemma filter_upt_first: "filter (\<lambda>i. 0 < (if i = 0 then c else (0 :: nat))) [0..<1024] = (if 0 < c then [0] else [])"
proof -
  have "filter (\<lambda>i. 0 < (if i = 0 then c else (0 :: nat))) [1..<1024] = []" by (simp add: filter_empty_conv)
  moreover have "[0..<1024] = 0 # [1..<1024]" by (subst upt_conv_Cons) simp_all
  ultimately show ?thesis by simp
qed

lemma trace_return_1: 
  assumes one: "order [0] = [0 :: nat]"
  shows "\<exists>cc. returnRange order 1000 now 12288 8192 1023 (cc_at one_span (words 0 28672 0) 20480 1 1) = Inr cc
    \<and> cc_pages cc = released\<lparr>pc_mem := words 20480 28672 0\<rparr> \<and> cc_freeList cc 1023 = 0"
proof -
  let ?cc = "(cc_at one_span (words 20480 28672 0) 12288 1 0)\<lparr>cc_lastReturnTimes := (\<lambda>_. 0)(1023 := now)\<rparr>"
  have mem: "cc_mem ?cc = words 20480 28672 0" "cc_freeList ?cc = (\<lambda>_. 0)(1023 := 12288)"
    using cc_at_simps(2) [of one_span "words 20480 28672 0" 12288 1 0] by (simp_all add: cc_mem_def)
  have trk: "getSpanTracker a ?cc = Some 0" if "4096 \<le> a" "a < 36864" for a
    using cc_at_tracker [OF that, of one_span "words 20480 28672 0" 12288 1 0] by (simp add: getSpanTracker_def)
  have cnt: "count_blocks ?cc 12288 (\<lambda>_. 0) = Some (Inr ((\<lambda>_. 0)(0 := 3)))"
    by (simp add: count_blocks.simps load_def trk mem numeral_3_eq_3)
  have sw: "sweep 4096 8 0 12288 12288 (words 20480 28672 0) = Some (Inr (0, words 20480 28672 0))"
    by (simp add: sweep.simps load_def)
  have de: "deallocateSpan 4096 8 (one_span\<lparr>pc_mem := words 20480 28672 0\<rparr>) = Inr (released\<lparr>pc_mem := words 20480 28672 0\<rparr>)"
    by (simp add: deallocateSpan_def one_span_def released_def span_at_def deref_def push_free_def list_of_def fun_upd_idem)
  have "returnRange order 1000 now 12288 8192 1023 (cc_at one_span (words 0 28672 0) 20480 1 1) = 
    performDelayedReturn order now 1023 (cc_at one_span (words 20480 28672 0) 12288 1 2)"
    by (simp add: returnRange_def store_def shouldPerformDelayedReturn_def MAX_DELAY_COUNT_def DELAY_INTERVAL_def numeral_2_eq_2)
  moreover have "performDelayedReturn order now 1023 (cc_at one_span (words 20480 28672 0) 12288 1 2) =
    updateSpanFreeCount 0 3 1023 ?cc"
  proof -
    have "performDelayedReturn order now 1023 (cc_at one_span (words 20480 28672 0) 12288 1 2) =
        (case count_blocks ?cc (cc_freeList ?cc 1023) (\<lambda>_. 0) of None \<Rightarrow> Inl Diverges
         | Some r \<Rightarrow> bindE r (\<lambda>counts. update_all (order (filter (\<lambda>i. counts i > 0) [0..<length (cc_trackers ?cc)])) counts 1023 ?cc))"
      by (simp add: performDelayedReturn_def Let_def)
    also have "\<dots> = update_all (order (filter (\<lambda>i. 0 < (if i = 0 then 3 else (0 :: nat))) [0..<1024])) ((\<lambda>_. 0)(0 := 3)) 1023 ?cc"
      by (simp add: mem cnt)
    also have "\<dots> = updateSpanFreeCount 0 3 1023 ?cc"
      by (simp only: filter_upt_first one if_True zero_less_numeral update_all.simps fun_upd_same)
        (cases "updateSpanFreeCount 0 3 1023 ?cc", simp_all)
    finally show ?thesis .
  qed
  moreover have "\<exists>cc. updateSpanFreeCount 0 3 1023 ?cc = Inr cc \<and> cc_pages cc = released\<lparr>pc_mem := words 20480 28672 0\<rparr> \<and> cc_freeList cc 1023 = 0"
    using sw de by (simp add: updateSpanFreeCount_def mem set_head_def set_mem_def Let_def)
  ultimately show ?thesis by simp
qed


text \<open>
  (C36) The count of free blocks per span is kept wrongly: a delayed return adds all blocks
  of the span that are in the free list to a counter that already contains those of them that were
  never taken. Here three of the four blocks of a span are fetched and two are returned, the second
  a second later: the counter reaches four, the span goes back to the page cache although its first
  block is still in use, and the next fetch hands that block out again.
\<close>

theorem block_handed_out_twice:
  "\<exists>cc1 cc2 cc3 cc4 cc5 cc6.
     fetchRange fresh_map 1023 (CentralCache 0 PageCache) = Inr (4096, cc1)
     \<and> fetchRange fresh_map 1023 cc1 = Inr (12288, cc2)
     \<and> fetchRange fresh_map 1023 cc2 = Inr (20480, cc3)
     \<and> returnRange (\<lambda>is. is) 0 0 20480 8192 1023 cc3 = Inr cc4
     \<and> returnRange (\<lambda>is. is) 1000 1000 12288 8192 1023 cc4 = Inr cc5
     \<and> fetchRange (\<lambda>_. None) 1023 cc5 = Inr (4096, cc6)"
proof -
  obtain cc5 where cc5: "returnRange (\<lambda>is. is) 1000 1000 12288 8192 1023 (cc_at one_span (words 0 28672 0) 20480 1 1) = Inr cc5"
    "cc_pages cc5 = released\<lparr>pc_mem := words 20480 28672 0\<rparr>" "cc_freeList cc5 1023 = 0"
    using trace_return_1 [of "\<lambda>is. is" 1000] by auto
  have al: "allocateSpan (\<lambda>_. None) 8 (cc_pages cc5) = Inr (Some 4096, one_span\<lparr>pc_mem := words 20480 28672 0\<rparr>)"
    by (simp add: cc5 allocateSpan_def released_def one_span_def lower_bound_def span_at_def deref_def map_erase_def)
  have cls: "class_pages 1023 = 8" "class_blocks 1023 = 4" by (simp_all add: class_pages_def class_blocks_def SPAN_PAGES_def PAGE_SIZE_def)
  have "\<exists>cc6. fetchRange (\<lambda>_. None) 1023 cc5 = Inr (4096, cc6)"
    using fetchRange_empty [OF _ cc5(3), of "\<lambda>_. None"] 
    by (simp add: cls al link_blocks.simps store_def load_def cc_mem_def nth_block_def Let_def)
  then show ?thesis
    using trace_fetch_0 trace_fetch_1 [of fresh_map 20480 28672 0 3 0] trace_fetch_2 [of fresh_map 0 28672 0 2 0]
      trace_return_2 [of "\<lambda>is. is" 0 0 28672 1] cc5(1) by auto
qed
end
