(* ===== verification/ThreadCache.thy ===== *)
theory ThreadCache
  imports CentralCache
begin

text \<open>
  The thread caches and the front of the memory pool (\<open>v2/src/ThreadCache.cpp\<close>,
  \<open>v2/include/ThreadCache.h\<close>, \<open>v2/include/MemoryPool.h\<close>): every thread keeps free lists of its own
  and goes to the central cache when one is empty. \<open>malloc\<close>, used above 256 KiB, is an argument.
\<close>

section \<open>The class\<close>

record thread_cache =
  tc_freeList :: "nat \<Rightarrow> addr"
  tc_freeListSize :: "nat \<Rightarrow> nat"

definition ThreadCache :: thread_cache where
  "ThreadCache = \<lparr>tc_freeList = (\<lambda>_. 0), tc_freeListSize = (\<lambda>_. 0)\<rparr>"

text \<open>The loops that count the blocks of a list; on a cyclic list they do not end.\<close>

partial_function (option) count_list_blocks :: "addr \<Rightarrow> (addr \<rightharpoonup> nat) \<Rightarrow> nat \<Rightarrow> (fault + nat) option" where
  "count_list_blocks current mem batchNum =
     (if current = 0 then Some (Inr batchNum)
      else case load current mem of
          Inl f \<Rightarrow> Some (Inl f)
        | Inr next_block \<Rightarrow> count_list_blocks next_block mem (batchNum + 1))"

definition fetchFromCentralCache ::
    "(nat \<Rightarrow> addr option) \<Rightarrow> nat \<Rightarrow> thread_cache \<Rightarrow> central_cache \<Rightarrow> fault + addr \<times> thread_cache \<times> central_cache" where
  "fetchFromCentralCache mmap index tc cc =
     bindE (fetchRange mmap index cc) (\<lambda>(start, cc).
       if start = 0 then Inr (0, tc, cc)
       else
         bindE (load start (cc_mem cc)) (\<lambda>first.
         case count_list_blocks first (cc_mem cc) 0 of
           None \<Rightarrow> Inl Diverges
         | Some r \<Rightarrow> bindE r (\<lambda>batchNum.
             Inr (start, tc\<lparr>tc_freeList := (tc_freeList tc)(index := first),
                            tc_freeListSize := (tc_freeListSize tc)(index := tc_freeListSize tc index + batchNum)\<rparr>, cc))))"

definition tc_allocate ::
    "(nat \<Rightarrow> addr option) \<Rightarrow> (size_t \<Rightarrow> addr) \<Rightarrow> size_t \<Rightarrow> thread_cache \<Rightarrow> central_cache
      \<Rightarrow> fault + addr \<times> thread_cache \<times> central_cache" where
  "tc_allocate mmap malloc sz tc cc =
     (let sz = (if sz = 0 then ALIGNMENT else sz) in
      if sz > MAX_BYTES then Inr (malloc sz, tc, cc)
      else
        let index = unat (getIndex sz);
            ptr = tc_freeList tc index
        in if ptr \<noteq> 0 then
             bindE (load ptr (cc_mem cc)) (\<lambda>next_block.
             Inr (ptr, tc\<lparr>tc_freeList := (tc_freeList tc)(index := next_block),
                          tc_freeListSize := (if tc_freeListSize tc index > 0
                            then (tc_freeListSize tc)(index := tc_freeListSize tc index - 1)
                            else tc_freeListSize tc)\<rparr>, cc))
           else fetchFromCentralCache mmap index tc cc)"

text \<open>Blocks above 256 KiB go to \<open>free\<close>. The return to the central cache is commented out in the source.\<close>

definition tc_deallocate :: "addr \<Rightarrow> size_t \<Rightarrow> thread_cache \<Rightarrow> central_cache \<Rightarrow> fault + thread_cache \<times> central_cache" where
  "tc_deallocate ptr sz tc cc =
     (if sz > MAX_BYTES then Inr (tc, cc)
      else
        let index = unat (getIndex sz) in
        bindE (store ptr (tc_freeList tc index) (cc_mem cc)) (\<lambda>mem.
        Inr (tc\<lparr>tc_freeList := (tc_freeList tc)(index := ptr),
                tc_freeListSize := (tc_freeListSize tc)(index := tc_freeListSize tc index + 1)\<rparr>,
             set_mem mem cc)))"

definition shouldReturnToCentralCache :: "nat \<Rightarrow> thread_cache \<Rightarrow> bool" where
  "shouldReturnToCentralCache index tc \<longleftrightarrow> tc_freeListSize tc index > 256"

text \<open>The walk to the last block that is kept.\<close>

fun split_node :: "nat \<Rightarrow> addr \<Rightarrow> (addr \<rightharpoonup> nat) \<Rightarrow> fault + addr" where
  "split_node 0 p mem = Inr p"
| "split_node (Suc n) p mem = bindE (load p mem) (\<lambda>q. split_node n q mem)"

definition returnToCentralCache ::
    "(nat list \<Rightarrow> nat list) \<Rightarrow> int \<Rightarrow> int \<Rightarrow> addr \<Rightarrow> size_t \<Rightarrow> thread_cache \<Rightarrow> central_cache
      \<Rightarrow> fault + thread_cache \<times> central_cache" where
  "returnToCentralCache order currentTime now start sz tc cc =
     (let index = unat (getIndex sz);
          alignedSize = unat (roundUp sz)
      in case count_list_blocks start (cc_mem cc) 0 of
           None \<Rightarrow> Inl Diverges
         | Some r \<Rightarrow> bindE r (\<lambda>batchNum.
             if batchNum \<le> 1 then Inr (tc, cc)
             else
               let keepNum = max (batchNum div 4) 1;
                   returnNum = batchNum - keepNum
               in bindE (split_node (keepNum - 1) start (cc_mem cc)) (\<lambda>splitNode.
                  bindE (load splitNode (cc_mem cc)) (\<lambda>nextNode.
                  bindE (store splitNode 0 (cc_mem cc)) (\<lambda>mem.
                  let cc = set_mem mem cc;
                      tc = tc\<lparr>tc_freeList := (tc_freeList tc)(index := start),
                              tc_freeListSize := (tc_freeListSize tc)(index := keepNum)\<rparr>
                  in if returnNum > 0 \<and> nextNode \<noteq> 0 then
                       bindE (returnRange order currentTime now nextNode (returnNum * alignedSize) index cc) (\<lambda>cc.
                       Inr (tc, cc))
                     else Inr (tc, cc))))))"

section \<open>The pool\<close>

text \<open>
  The whole pool: one central cache and one thread cache per thread. \<open>mp_live\<close> records, for
  the statements below, which blocks clients hold and the size they asked for.
\<close>

record pool =
  mp_central :: central_cache
  mp_threads :: "nat \<Rightarrow> thread_cache"
  mp_live :: "addr \<rightharpoonup> size_t"

definition pool_init :: "int \<Rightarrow> pool" where
  "pool_init now = \<lparr>mp_central = CentralCache now PageCache, mp_threads = (\<lambda>_. ThreadCache), mp_live = Map.empty\<rparr>"

definition mp_allocate :: "(nat \<Rightarrow> addr option) \<Rightarrow> (size_t \<Rightarrow> addr) \<Rightarrow> nat \<Rightarrow> size_t \<Rightarrow> pool \<Rightarrow> fault + addr \<times> pool" where
  "mp_allocate mmap malloc t sz p =
     bindE (tc_allocate mmap malloc sz (mp_threads p t) (mp_central p)) (\<lambda>(ptr, tc, cc).
       Inr (ptr, p\<lparr>mp_central := cc, mp_threads := (mp_threads p)(t := tc),
                   mp_live := (if ptr = 0 \<or> sz > MAX_BYTES then mp_live p else (mp_live p)(ptr \<mapsto> sz))\<rparr>))"

definition mp_deallocate :: "nat \<Rightarrow> addr \<Rightarrow> size_t \<Rightarrow> pool \<Rightarrow> fault + pool" where
  "mp_deallocate t ptr sz p =
     bindE (tc_deallocate ptr sz (mp_threads p t) (mp_central p)) (\<lambda>(tc, cc).
       Inr (p\<lparr>mp_central := cc, mp_threads := (mp_threads p)(t := tc),
              mp_live := (if sz > MAX_BYTES then mp_live p else (mp_live p)(ptr := None))\<rparr>))"

text \<open>
  \<open>PoolBuffer\<close> of the server: a block for the length of a scope, allocated by the constructor and
  released, unless it is \<open>nullptr\<close>, by the destructor.
\<close>

record pool_buffer =
  pb_size :: size_t
  pb_ptr :: addr

definition PoolBuffer :: "(nat \<Rightarrow> addr option) \<Rightarrow> (size_t \<Rightarrow> addr) \<Rightarrow> nat \<Rightarrow> size_t \<Rightarrow> pool \<Rightarrow> fault + pool_buffer \<times> pool" where
  "PoolBuffer mmap malloc t sz p =
     bindE (mp_allocate mmap malloc t sz p) (\<lambda>(ptr, p). Inr (\<lparr>pb_size = sz, pb_ptr = ptr\<rparr>, p))"

definition PoolBuffer_destroy :: "nat \<Rightarrow> pool_buffer \<Rightarrow> pool \<Rightarrow> fault + pool" where
  "PoolBuffer_destroy t b p = (if pb_ptr b \<noteq> 0 then mp_deallocate t (pb_ptr b) (pb_size b) p else Inr p)"

text \<open>A client writes a word of a block it holds.\<close>

definition mp_write :: "addr \<Rightarrow> nat \<Rightarrow> pool \<Rightarrow> pool" where
  "mp_write a v p = p\<lparr>mp_central := set_mem ((cc_mem (mp_central p))(a \<mapsto> v)) (mp_central p)\<rparr>"

section \<open>Invariant\<close>

definition size_index :: "size_t \<Rightarrow> nat" where
  "size_index sz = unat (getIndex (if sz = 0 then ALIGNMENT else sz))"

definition tc_ok :: "ledger \<Rightarrow> (addr \<rightharpoonup> nat) \<Rightarrow> nat \<Rightarrow> thread_cache \<Rightarrow> bool" where
  "tc_ok own mem t tc \<longleftrightarrow> (\<forall>i. flist own mem (Local t) i (tc_freeList tc i)
     \<and> tc_freeListSize tc i = card (owned own (Local t) i))"

definition pool_ok :: "ledger \<Rightarrow> pool \<Rightarrow> bool" where
  "pool_ok own p \<longleftrightarrow> cc_inv own (mp_central p) \<and> (\<forall>t. tc_ok own (cc_mem (mp_central p)) t (mp_threads p t))
     \<and> (\<forall>a sz. mp_live p a = Some sz \<longrightarrow> sz \<le> MAX_BYTES \<and> own a = Some (Live, size_index sz))"

lemma size_index_bounds:
  assumes "sz \<le> MAX_BYTES"
  shows "size_index sz < 32768" "unat sz \<le> (size_index sz + 1) * 8" "unat (getIndex sz) = size_index sz"
proof -
  have sz: "unat sz \<le> 262144" using assms by (simp add: MAX_BYTES_def word_le_nat_alt)
  have i: "unat (getIndex sz) = (max (unat sz) 8 + 7) div 8 - 1" using sz by (intro unat_getIndex) simp
  show eq: "unat (getIndex sz) = size_index sz"
    by (cases "sz = 0") (simp_all add: size_index_def getIndex_def ALIGNMENT_def)
  show "size_index sz < 32768" "unat sz \<le> (size_index sz + 1) * 8"
    using sz unfolding eq [symmetric] i by (auto simp: max_def)
qed

lemma block_mem_Some:
  assumes "cc_inv own cc" and "own a = Some (w, i)"
  shows "0 < a" "block a i \<subseteq> dom (cc_mem cc)" "cc_mem cc a \<noteq> None"
proof -
  have "blocks_ok own (cc_pages cc)" "pc_ok (\<lambda>_. []) (cc_pages cc)" using assms(1) by (simp_all add: cc_inv_def)
  note * = blocks_ok_mem [OF this assms(2)]
  show "0 < a" by (rule *)
  show "block a i \<subseteq> dom (cc_mem cc)" "cc_mem cc a \<noteq> None" unfolding cc_mem_def by (rule *)+
qed

text \<open>A block that changes hands outside the central lists, and a word written into a block of a client.\<close>

lemma cc_inv_words:
  assumes inv: "cc_inv own cc" and dom: "dom mem = dom (cc_mem cc)" and bl: "blocks_ok own' (cc_pages cc)"
    and own: "\<And>j. owned own' Central j = owned own Central j"
    and mem: "\<And>b j. own b = Some (Central, j) \<Longrightarrow> mem b = cc_mem cc b"
  shows "cc_inv own' (set_mem mem cc)"
proof -
  have "flist own' mem Central j (cc_freeList cc j)" for j
  proof (rule flist_frame)
    show "flist own (cc_mem cc) Central j (cc_freeList cc j)" using inv by (simp add: cc_inv_def)
    show "mem b = cc_mem cc b" if "b \<in> owned own Central j" for b using mem [of b j] that by (simp add: owned_def)
  qed (rule own)
  then have "flist own' mem Central j (if j = 0 then cc_freeList cc 0 else cc_freeList cc j)" for j by simp
  from cc_inv_set [OF _ _ dom bl this] inv have "cc_inv own' (set_head 0 (cc_freeList cc 0) (set_mem mem cc))"
    by (simp add: cc_inv_def)
  then show ?thesis by (simp add: set_head_def set_mem_def)
qed

lemma cc_inv_transfer:
  assumes inv: "cc_inv own cc" and own: "own a = Some (w, i)" "w \<noteq> Central" "w' \<noteq> Central"
  shows "cc_inv (own(a \<mapsto> (w', i))) (set_mem ((cc_mem cc)(a \<mapsto> v)) cc)"
proof (rule cc_inv_words [OF inv])
  show "dom ((cc_mem cc)(a \<mapsto> v)) = dom (cc_mem cc)" using block_mem_Some(3) [OF inv own(1)] by auto
  show "blocks_ok (own(a \<mapsto> (w', i))) (cc_pages cc)"
    using inv own(1) by (intro blocks_ok_transfer [OF _ _ refl]) (auto simp: cc_inv_def)
qed (use own in \<open>auto simp: owned_def\<close>)

lemma tc_ok_frame:
  assumes "tc_ok own mem t tc" and "\<And>i. owned own' (Local t) i = owned own (Local t) i"
    and "\<And>a i. own a = Some (Local t, i) \<Longrightarrow> mem' a = mem a"
  shows "tc_ok own' mem' t tc"
  unfolding tc_ok_def
proof (intro allI conjI)
  fix i
  show "flist own' mem' (Local t) i (tc_freeList tc i)"
  proof (rule flist_frame)
    show "flist own mem (Local t) i (tc_freeList tc i)" using assms(1) by (simp add: tc_ok_def)
    show "mem' b = mem b" if "b \<in> owned own (Local t) i" for b using assms(3) [of b i] that by (simp add: owned_def)
  qed (rule assms(2))
  show "tc_freeListSize tc i = card (owned own' (Local t) i)" using assms(1,2) by (simp add: tc_ok_def)
qed

lemma pool_init_ok: "pool_ok Map.empty (pool_init now)"
proof -
  have "owned Map.empty w i = {}" for w i by (simp add: owned_def)
  then have "cc_inv Map.empty (CentralCache now PageCache)"
    using PageCache_inv by (simp add: cc_inv_def CentralCache_def blocks_ok_def flist_empty) (simp add: PageCache_def)
  with \<open>\<And>w i. owned Map.empty w i = {}\<close> show ?thesis
    by (simp add: pool_ok_def pool_init_def tc_ok_def ThreadCache_def flist_empty)
qed

section \<open>Allocation and release\<close>

lemma flist_finite: "flist own mem w i h \<Longrightarrow> finite (owned own w i)"
  by (auto simp: flist_def dest!: sym [of "set _"])

lemma tc_pop:
  assumes ok: "tc_ok own mem t tc" and h: "tc_freeList tc i = h" "h \<noteq> 0"
    and mem: "\<And>a. own a = Some (Local t, i) \<Longrightarrow> mem a \<noteq> None"
  shows "own h = Some (Local t, i) \<and> 0 < tc_freeListSize tc i \<and> (\<exists>n. mem h = Some n
    \<and> tc_ok (own(h \<mapsto> (Live, i))) mem t
        (tc\<lparr>tc_freeList := (tc_freeList tc)(i := n), tc_freeListSize := (tc_freeListSize tc)(i := tc_freeListSize tc i - 1)\<rparr>))"
proof -
  have fl: "flist own mem (Local t) j (tc_freeList tc j)" and sz: "tc_freeListSize tc j = card (owned own (Local t) j)" for j
    using ok by (auto simp: tc_ok_def)
  from flist_pop [OF fl [of i, unfolded h(1)] h(2) _ mem, of Live i "the (mem h)"] obtain n
    where own: "own h = Some (Local t, i)" and n: "mem h = Some n" and pop: "flist (own(h \<mapsto> (Live, i))) mem (Local t) i n"
    by (auto simp: fun_upd_idem)
  have fin: "finite (owned own (Local t) i)" using fl by (rule flist_finite)
  have rem: "owned (own(h \<mapsto> (Live, i))) (Local t) i = owned own (Local t) i - {h}" by (auto simp: owned_def)
  have mem_h: "h \<in> owned own (Local t) i" using own by (simp add: owned_def)
  have oth: "owned (own(h \<mapsto> (Live, i))) (Local t) j = owned own (Local t) j" if "j \<noteq> i" for j
    using own that by (auto simp: owned_def)
  have "flist (own(h \<mapsto> (Live, i))) mem (Local t) j (tc_freeList tc j)" if "j \<noteq> i" for j
    using oth [OF that] by (intro flist_frame [OF fl]) auto
  with pop rem oth sz fin mem_h have "tc_ok (own(h \<mapsto> (Live, i))) mem t
      (tc\<lparr>tc_freeList := (tc_freeList tc)(i := n), tc_freeListSize := (tc_freeListSize tc)(i := tc_freeListSize tc i - 1)\<rparr>)"
    by (auto simp: tc_ok_def card_Diff_singleton)
  moreover have "0 < tc_freeListSize tc i" using sz fin mem_h by (auto simp: card_gt_0_iff)
  ultimately show ?thesis using own n by blast
qed

lemma tc_push:
  assumes ok: "tc_ok own mem t tc" and a: "own a = Some (Live, i)" "0 < a"
  shows "tc_ok (own(a \<mapsto> (Local t, i))) (mem(a \<mapsto> tc_freeList tc i)) t
    (tc\<lparr>tc_freeList := (tc_freeList tc)(i := a), tc_freeListSize := (tc_freeListSize tc)(i := tc_freeListSize tc i + 1)\<rparr>)"
proof -
  have fl: "flist own mem (Local t) j (tc_freeList tc j)" and sz: "tc_freeListSize tc j = card (owned own (Local t) j)" for j
    using ok by (auto simp: tc_ok_def)
  have fin: "finite (owned own (Local t) i)" using fl by (rule flist_finite)
  have add: "owned (own(a \<mapsto> (Local t, i))) (Local t) i = insert a (owned own (Local t) i)" by (auto simp: owned_def)
  have oth: "owned (own(a \<mapsto> (Local t, i))) (Local t) j = owned own (Local t) j" if "j \<noteq> i" for j
    using a(1) that by (auto simp: owned_def)
  have "flist (own(a \<mapsto> (Local t, i))) (mem(a \<mapsto> tc_freeList tc i)) (Local t) j (tc_freeList tc j)" if "j \<noteq> i" for j
    using oth [OF that] a(1) by (intro flist_frame [OF fl]) (auto simp: owned_def)
  moreover have "a \<notin> owned own (Local t) i" using a(1) by (simp add: owned_def)
  ultimately show ?thesis
    using flist_push [OF fl a(2), of i] a(1) add oth sz fin by (auto simp: tc_ok_def)
qed

text \<open>The page cache gets fresh memory from \<open>mmap\<close>, should the request come to that.\<close>

definition fresh_for :: "(nat \<Rightarrow> addr option) \<Rightarrow> size_t \<Rightarrow> pool \<Rightarrow> bool" where
  "fresh_for mmap sz p \<longleftrightarrow> mmap_fresh mmap (class_pages (size_index sz)) (cc_pages (mp_central p))"

lemma tc_ok_thread: "pool_ok own p \<Longrightarrow> tc_ok own (cc_mem (mp_central p)) t (mp_threads p t)"
  by (simp add: pool_ok_def)

lemma tc_allocate_small:
  assumes "sz \<le> MAX_BYTES"
  shows "tc_allocate mmap malloc sz tc cc =
    (if tc_freeList tc (size_index sz) \<noteq> 0 then
       bindE (load (tc_freeList tc (size_index sz)) (cc_mem cc)) (\<lambda>next_block.
       Inr (tc_freeList tc (size_index sz), tc\<lparr>tc_freeList := (tc_freeList tc)(size_index sz := next_block),
          tc_freeListSize := (if tc_freeListSize tc (size_index sz) > 0
            then (tc_freeListSize tc)(size_index sz := tc_freeListSize tc (size_index sz) - 1)
            else tc_freeListSize tc)\<rparr>, cc))
     else fetchFromCentralCache mmap (size_index sz) tc cc)"
proof -
  have "ALIGNMENT \<le> MAX_BYTES" by (simp add: MAX_BYTES_def ALIGNMENT_def)
  with assms have "\<not> (if sz = 0 then ALIGNMENT else sz) > MAX_BYTES" by (simp add: not_less)
  then show ?thesis unfolding tc_allocate_def Let_def size_index_def [symmetric] by (simp only: if_False)
qed

lemma mp_allocate_local:
  assumes ok: "pool_ok own p" and sz: "sz \<le> MAX_BYTES" and h: "tc_freeList (mp_threads p t) (size_index sz) = r" "r \<noteq> 0"
  shows "\<exists>p'. mp_allocate mmap malloc t sz p = Inr (r, p') \<and> pool_ok (own(r \<mapsto> (Live, size_index sz))) p'
    \<and> mp_live p r = None \<and> mp_live p' = (mp_live p)(r \<mapsto> sz)"
proof -
  let ?cc = "mp_central p" and ?i = "size_index sz" and ?tc = "mp_threads p t"
  have inv: "cc_inv own ?cc" and live: "\<And>a s. mp_live p a = Some s \<Longrightarrow> s \<le> MAX_BYTES \<and> own a = Some (Live, size_index s)"
    using ok by (auto simp: pool_ok_def)
  have "cc_mem ?cc a \<noteq> None" if "own a = Some (Local t, ?i)" for a using block_mem_Some(3) [OF inv that] .
  from tc_pop [OF tc_ok_thread [OF ok] h this] obtain n where
    own: "own r = Some (Local t, ?i)" and pos: "0 < tc_freeListSize ?tc ?i" and n: "cc_mem ?cc r = Some n"
    and tc: "tc_ok (own(r \<mapsto> (Live, ?i))) (cc_mem ?cc) t (?tc\<lparr>tc_freeList := (tc_freeList ?tc)(?i := n),
        tc_freeListSize := (tc_freeListSize ?tc)(?i := tc_freeListSize ?tc ?i - 1)\<rparr>)" (is "tc_ok _ _ _ ?tc'")
    by blast
  have idem: "set_mem ((cc_mem ?cc)(r \<mapsto> n)) ?cc = ?cc" using n by (simp add: set_mem_def cc_mem_def fun_upd_idem)
  have "cc_inv (own(r \<mapsto> (Live, ?i))) ?cc" using cc_inv_transfer [OF inv own, of Live n] by (simp add: idem)
  moreover have "tc_ok (own(r \<mapsto> (Live, ?i))) (cc_mem ?cc) u (mp_threads p u)" if "u \<noteq> t" for u
    using own that by (intro tc_ok_frame [OF tc_ok_thread [OF ok]]) (auto simp: owned_def)
  moreover have nl: "mp_live p r = None" using live [of r] own by (cases "mp_live p r") auto
  ultimately have "pool_ok (own(r \<mapsto> (Live, ?i))) (p\<lparr>mp_central := ?cc, mp_threads := (mp_threads p)(t := ?tc'), mp_live := (mp_live p)(r \<mapsto> sz)\<rparr>)"
    using tc live sz by (auto simp: pool_ok_def)
  moreover have "tc_allocate mmap malloc sz ?tc ?cc = Inr (r, ?tc', ?cc)"
    using h n pos by (simp add: tc_allocate_small [OF sz] load_ok)
  ultimately show ?thesis using nl h(2) sz by (auto simp: mp_allocate_def)
qed

lemma mp_allocate_central:
  assumes ok: "pool_ok own p" and sz: "sz \<le> MAX_BYTES" and empty: "tc_freeList (mp_threads p t) (size_index sz) = 0"
    and fresh: "fresh_for mmap sz p"
  shows "mp_allocate mmap malloc t sz p = Inr (0, p)
    \<or> (\<exists>r own' p'. mp_allocate mmap malloc t sz p = Inr (r, p') \<and> r \<noteq> 0 \<and> pool_ok own' p'
        \<and> mp_live p r = None \<and> mp_live p' = (mp_live p)(r \<mapsto> sz))"
proof -
  let ?cc = "mp_central p" and ?i = "size_index sz" and ?tc = "mp_threads p t"
  have inv: "cc_inv own ?cc" and live: "\<And>a s. mp_live p a = Some s \<Longrightarrow> s \<le> MAX_BYTES \<and> own a = Some (Live, size_index s)"
    using ok by (auto simp: pool_ok_def)
  have al: "tc_allocate mmap malloc sz ?tc ?cc = fetchFromCentralCache mmap ?i ?tc ?cc"
    using empty by (simp add: tc_allocate_small [OF sz])
  from fetchRange_ok [OF inv size_index_bounds(1) [OF sz] fresh [unfolded fresh_for_def]] show ?thesis
  proof (elim disjE exE conjE)
    assume "fetchRange mmap ?i ?cc = Inr (0, ?cc)"
    then show ?thesis by (simp add: mp_allocate_def al fetchFromCentralCache_def)
  next
    fix r own' cc'
    assume fetch: "fetchRange mmap ?i ?cc = Inr (r, cc')" and r: "0 < r" and *: "fetched own ?cc ?i r own' cc'"
    note F = * [unfolded fetched_def]
    have mem: "cc_mem cc' a = cc_mem ?cc a" if "own a = Some (Local u, j)" for a u j
      using F that by blast
    have "fetchFromCentralCache mmap ?i ?tc ?cc = Inr (r, ?tc, cc')"
      using fetch r F empty by (simp add: fetchFromCentralCache_def load_ok count_list_blocks.simps fun_upd_idem)
    moreover have "tc_ok own' (cc_mem cc') u (mp_threads p u)" for u
      using F mem by (intro tc_ok_frame [OF tc_ok_thread [OF ok]]) auto
    moreover have keep: "own' a = own a" if "own a = Some (Live, j)" for a j
    proof -
      have "a \<in> owned own' Live j" using F that by (auto simp: owned_def)
      then show ?thesis using that by (simp add: owned_def)
    qed
    moreover have nl: "mp_live p r = None" using live [of r] F by (cases "mp_live p r") auto
    ultimately have "mp_allocate mmap malloc t sz p = Inr (r, p\<lparr>mp_central := cc', mp_live := (mp_live p)(r \<mapsto> sz)\<rparr>)"
      and "pool_ok own' (p\<lparr>mp_central := cc', mp_live := (mp_live p)(r \<mapsto> sz)\<rparr>)"
      using r sz F live by (auto simp: mp_allocate_def al pool_ok_def fun_upd_idem)
    then show ?thesis using nl r by auto
  qed
qed

lemma mp_deallocate_ok:
  assumes ok: "pool_ok own p" and a: "mp_live p a = Some sz"
  shows "\<exists>p'. mp_deallocate t a sz p = Inr p' \<and> pool_ok (own(a \<mapsto> (Local t, size_index sz))) p'
    \<and> mp_live p' = (mp_live p)(a := None) \<and> tc_freeList (mp_threads p' t) (size_index sz) = a \<and> a \<noteq> 0"
proof -
  let ?cc = "mp_central p" and ?i = "size_index sz" and ?tc = "mp_threads p t"
  have inv: "cc_inv own ?cc" and live: "\<And>a s. mp_live p a = Some s \<Longrightarrow> s \<le> MAX_BYTES \<and> own a = Some (Live, size_index s)"
    using ok by (auto simp: pool_ok_def)
  have sz: "sz \<le> MAX_BYTES" and own: "own a = Some (Live, ?i)" using live [OF a] by auto
  have a0: "0 < a" and some: "cc_mem ?cc a \<noteq> None" using block_mem_Some [OF inv own] by auto
  let ?mem = "(cc_mem ?cc)(a \<mapsto> tc_freeList ?tc ?i)" and ?own = "own(a \<mapsto> (Local t, ?i))"
  let ?tc' = "?tc\<lparr>tc_freeList := (tc_freeList ?tc)(?i := a), tc_freeListSize := (tc_freeListSize ?tc)(?i := tc_freeListSize ?tc ?i + 1)\<rparr>"
  have "tc_deallocate a sz ?tc ?cc = Inr (?tc', set_mem ?mem ?cc)"
    using sz size_index_bounds(3) [OF sz] a0 some by (simp add: tc_deallocate_def store_ok leD Let_def)
  moreover have "cc_inv ?own (set_mem ?mem ?cc)" by (rule cc_inv_transfer [OF inv own]) simp_all
  moreover have "tc_ok ?own ?mem t ?tc'" by (rule tc_push [OF tc_ok_thread [OF ok] own a0])
  moreover have "tc_ok ?own ?mem u (mp_threads p u)" if "u \<noteq> t" for u
    using own that by (intro tc_ok_frame [OF tc_ok_thread [OF ok]]) (auto simp: owned_def)
  ultimately show ?thesis
    using live a sz a0 by (auto simp: mp_deallocate_def pool_ok_def leD)
qed

lemma mp_write_ok:
  assumes ok: "pool_ok own p" and a: "mp_live p a = Some sz" and x: "x \<in> block a (size_index sz)"
  shows "pool_ok own (mp_write x v p)"
proof -
  let ?cc = "mp_central p"
  have inv: "cc_inv own ?cc" and own: "own a = Some (Live, size_index sz)" using ok a by (auto simp: pool_ok_def)
  have other: "b \<noteq> x" if "own b = Some (w, j)" "w \<noteq> Live" for b w j
  proof -
    have "blocks_ok own (cc_pages ?cc)" using inv by (simp add: cc_inv_def)
    moreover have "b \<noteq> a" using that own by auto
    ultimately have "block a (size_index sz) \<inter> block b j = {}" using that(1) own unfolding blocks_ok_def by metis
    then show ?thesis using x block_start [of b j] by blast
  qed
  have "x \<in> dom (cc_mem ?cc)" using block_mem_Some(2) [OF inv own] x by blast
  then have "cc_inv own (set_mem ((cc_mem ?cc)(x \<mapsto> v)) ?cc)"
    using inv other by (intro cc_inv_words [OF inv]) (auto simp: cc_inv_def)
  moreover have "tc_ok own ((cc_mem ?cc)(x \<mapsto> v)) t (mp_threads p t)" for t
    using other by (intro tc_ok_frame [OF tc_ok_thread [OF ok]]) auto
  ultimately show ?thesis using ok by (simp add: pool_ok_def mp_write_def)
qed

section \<open>Properties\<close>

inductive mp_step :: "pool \<Rightarrow> pool \<Rightarrow> bool" where
  alloc: "(sz \<le> MAX_BYTES \<longrightarrow> fresh_for mmap sz p) \<Longrightarrow> mp_allocate mmap malloc t sz p = Inr (r, p') \<Longrightarrow> mp_step p p'"
| free: "mp_live p a = Some sz \<Longrightarrow> mp_deallocate t a sz p = Inr p' \<Longrightarrow> mp_step p p'"
| use_block: "mp_live p a = Some sz \<Longrightarrow> x \<in> block a (size_index sz) \<Longrightarrow> mp_step p (mp_write x v p)"

lemma mp_allocate_ok:
  assumes ok: "pool_ok own p" and fresh: "sz \<le> MAX_BYTES \<longrightarrow> fresh_for mmap sz p"
  shows "\<exists>r own' p'. mp_allocate mmap malloc t sz p = Inr (r, p') \<and> pool_ok own' p'
    \<and> (if sz \<le> MAX_BYTES \<and> r \<noteq> 0 then mp_live p r = None \<and> mp_live p' = (mp_live p)(r \<mapsto> sz) else mp_live p' = mp_live p)"
proof (cases "sz \<le> MAX_BYTES")
  case False
  then have "sz \<noteq> 0" "MAX_BYTES < sz" by auto
  then have "mp_allocate mmap malloc t sz p = Inr (malloc sz, p)"
    by (simp add: mp_allocate_def tc_allocate_def)
  with ok False show ?thesis by auto
next
  case True
  then have fr: "fresh_for mmap sz p" using fresh by simp
  show ?thesis
  proof (cases "tc_freeList (mp_threads p t) (size_index sz) = 0")
    case empty: True
    from mp_allocate_central [OF ok True empty fr, of malloc] show ?thesis
      using ok by (elim disjE exE conjE) (auto simp: True)
  next
    case False
    from mp_allocate_local [OF ok True refl False, of mmap malloc] show ?thesis
      using False by (elim exE conjE) (auto simp: True)
  qed
qed

text \<open>A scope with a \<open>PoolBuffer\<close> leaves the blocks of the clients as they were, whatever \<open>mmap\<close> answers.\<close>

lemma pool_buffer_scope:
  assumes ok: "pool_ok own p" and fresh: "sz \<le> MAX_BYTES \<longrightarrow> fresh_for mmap sz p"
  shows "\<exists>b p1 p2 own'. PoolBuffer mmap malloc t sz p = Inr (b, p1) \<and> PoolBuffer_destroy t b p1 = Inr p2
    \<and> pool_ok own' p2 \<and> mp_live p2 = mp_live p"
proof -
  obtain r own' p1 where al: "mp_allocate mmap malloc t sz p = Inr (r, p1)" and ok1: "pool_ok own' p1"
    and live: "if sz \<le> MAX_BYTES \<and> r \<noteq> 0 then mp_live p r = None \<and> mp_live p1 = (mp_live p)(r \<mapsto> sz) else mp_live p1 = mp_live p"
    using mp_allocate_ok [OF ok fresh] by blast
  let ?b = "\<lparr>pb_size = sz, pb_ptr = r\<rparr>"
  have "PoolBuffer mmap malloc t sz p = Inr (?b, p1)" using al by (simp add: PoolBuffer_def)
  moreover have "\<exists>p2 own''. PoolBuffer_destroy t ?b p1 = Inr p2 \<and> pool_ok own'' p2 \<and> mp_live p2 = mp_live p"
  proof (cases "r \<noteq> 0 \<and> sz \<le> MAX_BYTES")
    case True
    then have "mp_live p1 r = Some sz" "(mp_live p1)(r := None) = mp_live p" using live by (auto simp: fun_upd_idem)
    with mp_deallocate_ok [OF ok1, of r sz t] True show ?thesis by (auto simp: PoolBuffer_destroy_def)
  next
    case False
    then have "mp_live p1 = mp_live p" using live by (auto split: if_splits)
    moreover have "PoolBuffer_destroy t ?b p1 = Inr p1"
      using False by (auto simp: PoolBuffer_destroy_def mp_deallocate_def tc_deallocate_def)
    ultimately show ?thesis using ok1 by blast
  qed
  ultimately show ?thesis by blast
qed

lemma mp_step_ok: "mp_step p p' \<Longrightarrow> pool_ok own p \<Longrightarrow> \<exists>own'. pool_ok own' p'"
proof (induction rule: mp_step.induct)
  case (alloc sz mmap p malloc t r p')
  then show ?case using mp_allocate_ok [of own p sz mmap malloc t] by auto
next
  case (free p a sz t p')
  then show ?case using mp_deallocate_ok [of own p a sz t] by auto
next
  case (use_block p a sz x v)
  then show ?case using mp_write_ok by blast
qed

lemma mp_steps_ok:
  assumes "mp_step\<^sup>*\<^sup>* (pool_init now) p"
  shows "\<exists>own. pool_ok own p"
  using assms by (induction rule: rtranclp_induct) (use pool_init_ok mp_step_ok in blast)+

definition held :: "addr \<Rightarrow> size_t \<Rightarrow> addr set" where
  "held a sz = {a ..< a + unat sz}"

lemma held_block: "sz \<le> MAX_BYTES \<Longrightarrow> held a sz \<subseteq> block a (size_index sz)"
  using size_index_bounds(2) [of sz] by (auto simp: held_def block_def)

text \<open>
  (C4) The pool as a whole, with any number of threads that allocate, write into and release
  blocks in any order, a block allocated in one thread and released in another included: the
  blocks clients hold never overlap, whatever the clients write into them, they lie in mapped
  memory and are as large as requested. No call faults, loops forever or hands out a block that is
  still held. The assumption on \<open>mmap\<close> is that it returns memory that was not mapped before.
\<close>

theorem pool_blocks_disjoint:
  assumes "mp_step\<^sup>*\<^sup>* (pool_init now) p"
  shows "(\<forall>a sz b sz'. mp_live p a = Some sz \<longrightarrow> mp_live p b = Some sz' \<longrightarrow> a \<noteq> b \<longrightarrow> held a sz \<inter> held b sz' = {})
    \<and> (\<forall>a sz. mp_live p a = Some sz \<longrightarrow> 0 < a \<and> held a sz \<subseteq> dom (cc_mem (mp_central p))
         \<and> (\<forall>t. \<exists>p'. mp_deallocate t a sz p = Inr p' \<and> mp_live p' = (mp_live p)(a := None)))
    \<and> (\<forall>mmap malloc t sz. sz \<le> MAX_BYTES \<longrightarrow> fresh_for mmap sz p \<longrightarrow>
         (\<exists>r p'. mp_allocate mmap malloc t sz p = Inr (r, p')
            \<and> (r \<noteq> 0 \<longrightarrow> mp_live p r = None \<and> mp_live p' = (mp_live p)(r \<mapsto> sz))))"
proof (intro conjI allI impI)
  obtain own where ok: "pool_ok own p" using mp_steps_ok [OF assms] by blast
  have inv: "cc_inv own (mp_central p)"
    and live: "\<And>a s. mp_live p a = Some s \<Longrightarrow> s \<le> MAX_BYTES \<and> own a = Some (Live, size_index s)"
    using ok by (auto simp: pool_ok_def)
  show "held a sz \<inter> held b sz' = {}" if "mp_live p a = Some sz" "mp_live p b = Some sz'" "a \<noteq> b" for a sz b sz'
  proof -
    have "blocks_ok own (cc_pages (mp_central p))" using inv by (simp add: cc_inv_def)
    then have "block a (size_index sz) \<inter> block b (size_index sz') = {}"
      using live [OF that(1)] live [OF that(2)] that(3) unfolding blocks_ok_def by metis
    then show ?thesis using held_block [of sz a] held_block [of sz' b] live [OF that(1)] live [OF that(2)] by blast
  qed
  show "0 < a" "held a sz \<subseteq> dom (cc_mem (mp_central p))" if "mp_live p a = Some sz" for a sz
    using block_mem_Some [OF inv] live [OF that] held_block [of sz a] by blast+
  show "\<exists>p'. mp_deallocate t a sz p = Inr p' \<and> mp_live p' = (mp_live p)(a := None)" if "mp_live p a = Some sz" for t a sz
    using mp_deallocate_ok [OF ok that] by blast
  show "\<exists>r p'. mp_allocate mmap malloc t sz p = Inr (r, p') \<and> (r \<noteq> 0 \<longrightarrow> mp_live p r = None \<and> mp_live p' = (mp_live p)(r \<mapsto> sz))"
    if "sz \<le> MAX_BYTES" "fresh_for mmap sz p" for mmap malloc t sz
    using mp_allocate_ok [OF ok, of sz mmap malloc t] that by (auto split: if_splits)
qed

text \<open>Two blocks of 8 KiB, allocated by two threads.\<close>

definition two_blocks :: pool where
  "two_blocks = \<lparr>mp_central = cc_at one_span (words 0 28672 0) 20480 2 0, mp_threads = (\<lambda>_. ThreadCache),
     mp_live = [4096 \<mapsto> 8192, 12288 \<mapsto> 8192]\<rparr>"

lemma size_index_8192 [simp]: "size_index 8192 = 1023"
  by (simp add: size_index_def getIndex_def ALIGNMENT_def max_def)

lemma fresh_start: "mmap_fresh fresh_map (class_pages 1023) PageCache"
  by (simp add: mmap_fresh_def fresh_map_def PageCache_def class_pages_def SPAN_PAGES_def)

lemma two_blocks_reached: "mp_step\<^sup>*\<^sup>* (pool_init 0) two_blocks"
proof -
  let ?one = "(pool_init 0)\<lparr>mp_central := cc_at one_span (words 20480 28672 0) 12288 3 0, mp_live := [4096 \<mapsto> 8192]\<rparr>"
  have small: "(8192 :: size_t) \<le> MAX_BYTES" by (simp add: MAX_BYTES_def)
  have thr: "tc_freeList ThreadCache i = 0" "ThreadCache\<lparr>tc_freeList := (tc_freeList ThreadCache)(i := 0)\<rparr> = ThreadCache" for i
    by (simp_all add: ThreadCache_def fun_upd_idem)
  have "mp_allocate fresh_map (\<lambda>_. 0) 0 8192 (pool_init 0) = Inr (4096, ?one)"
    using small by (simp add: mp_allocate_def pool_init_def tc_allocate_small thr fetchFromCentralCache_def trace_fetch_0
      load_ok count_list_blocks.simps fun_upd_idem leD)
  then have "mp_step (pool_init 0) ?one"
    by (intro mp_step.alloc [of 8192 fresh_map]) (simp add: fresh_for_def pool_init_def CentralCache_def fresh_start)
  moreover have "mp_allocate (\<lambda>_. None) (\<lambda>_. 0) 1 8192 ?one = Inr (12288, two_blocks)"
    using small by (simp add: mp_allocate_def pool_init_def tc_allocate_small thr fetchFromCentralCache_def trace_fetch_1
      load_ok count_list_blocks.simps fun_upd_idem leD two_blocks_def)
  then have "mp_step ?one two_blocks"
    by (intro mp_step.alloc [of 8192 "\<lambda>_. None"]) (simp add: fresh_for_def mmap_fresh_def)
  ultimately show ?thesis by (meson converse_rtranclp_into_rtranclp rtranclp.rtrancl_refl)
qed

theorem pool_blocks_disjoint_witness:
  "held 4096 8192 \<inter> held 12288 8192 = {} \<and> held 4096 8192 \<subseteq> dom (cc_mem (mp_central two_blocks))
    \<and> (\<exists>p'. mp_deallocate 5 4096 8192 two_blocks = Inr p' \<and> mp_live p' = (mp_live two_blocks)(4096 := None))"
proof -
  note * = pool_blocks_disjoint [OF two_blocks_reached]
  have live: "mp_live two_blocks 4096 = Some 8192" "mp_live two_blocks 12288 = Some 8192"
    by (simp_all add: two_blocks_def)
  from * [THEN conjunct1, rule_format, OF live] have "held 4096 8192 \<inter> held 12288 8192 = {}" by simp
  moreover from * [THEN conjunct2, THEN conjunct1, rule_format, OF live(1)]
  have "held 4096 8192 \<subseteq> dom (cc_mem (mp_central two_blocks))"
    "\<exists>p'. mp_deallocate 5 4096 8192 two_blocks = Inr p' \<and> mp_live p' = (mp_live two_blocks)(4096 := None)" by auto
  ultimately show ?thesis by blast
qed

text \<open>
  A block that a thread releases is the next one it gets for any request of the same size
  class, without a call to the other caches: the release and the allocation are inverse, and
  the caches below are as the release left them. The block is also not lost when another thread
  releases it: it then belongs to that thread.
\<close>

theorem released_block_is_reused:
  assumes "mp_step\<^sup>*\<^sup>* (pool_init now) p" and "mp_live p a = Some sz" and "mp_deallocate t a sz p = Inr p1"
    and "sz' \<le> MAX_BYTES" and "size_index sz' = size_index sz"
  shows "\<exists>p2. mp_allocate mmap malloc t sz' p1 = Inr (a, p2) \<and> mp_central p2 = mp_central p1
    \<and> tc_freeList (mp_threads p2 t) = tc_freeList (mp_threads p t)
    \<and> tc_freeListSize (mp_threads p2 t) = tc_freeListSize (mp_threads p t)
    \<and> mp_live p2 = (mp_live p)(a \<mapsto> sz')"
proof -
  obtain own where ok: "pool_ok own p" using mp_steps_ok [OF assms(1)] by blast
  let ?cc = "mp_central p" and ?i = "size_index sz" and ?tc = "mp_threads p t"
  have inv: "cc_inv own ?cc" and sz: "sz \<le> MAX_BYTES" and own: "own a = Some (Live, ?i)"
    using ok assms(2) by (auto simp: pool_ok_def)
  have a: "0 < a" "cc_mem ?cc a \<noteq> None" using block_mem_Some [OF inv own] by auto
  have p1: "p1 = p\<lparr>mp_central := set_mem ((cc_mem ?cc)(a \<mapsto> tc_freeList ?tc ?i)) ?cc,
      mp_threads := (mp_threads p)(t := ?tc\<lparr>tc_freeList := (tc_freeList ?tc)(?i := a),
        tc_freeListSize := (tc_freeListSize ?tc)(?i := tc_freeListSize ?tc ?i + 1)\<rparr>),
      mp_live := (mp_live p)(a := None)\<rparr>"
    using assms(3) a sz size_index_bounds(3) [OF sz] by (auto simp: mp_deallocate_def tc_deallocate_def store_ok leD Let_def)
  show ?thesis
    using a(1) assms(4,5) by (auto simp: p1 mp_allocate_def tc_allocate_small load_ok leD fun_upd_idem)
qed

theorem released_block_is_reused_witness:
  "\<exists>p1 p2. mp_deallocate 7 4096 8192 two_blocks = Inr p1 \<and> mp_allocate (\<lambda>_. None) (\<lambda>_. 0) 7 8190 p1 = Inr (4096, p2)"
proof -
  have live: "mp_live two_blocks 4096 = Some 8192" by (simp add: two_blocks_def)
  have "tc_deallocate 4096 8192 ThreadCache (cc_at one_span (words 0 28672 0) 20480 2 0) = Inr
      (ThreadCache\<lparr>tc_freeList := (\<lambda>_. 0)(1023 := 4096), tc_freeListSize := (\<lambda>_. 0)(1023 := 1)\<rparr>,
       set_mem ((words 0 28672 0)(4096 \<mapsto> 0)) (cc_at one_span (words 0 28672 0) 20480 2 0))"
    by (simp add: tc_deallocate_def MAX_BYTES_def store_def ThreadCache_def getIndex_def ALIGNMENT_def max_def)
  then obtain p1 where p1: "mp_deallocate 7 4096 8192 two_blocks = Inr p1"
    by (auto simp: mp_deallocate_def two_blocks_def)
  have "(8190 :: size_t) \<le> MAX_BYTES" "size_index 8190 = size_index 8192"
    by (simp_all add: MAX_BYTES_def size_index_def getIndex_def ALIGNMENT_def max_def)
  from released_block_is_reused [OF two_blocks_reached live p1 this, of "\<lambda>_. None" "\<lambda>_. 0"] p1 show ?thesis by blast
qed

end
