(* ===== verification/Pending.thy ===== *)
theory Pending
  imports Server
begin

text \<open>
  Messages that wait for an acknowledgement (\<open>EpollChatServer.cpp\<close>): \<open>storePendingMessage\<close>,
  \<open>ackPendingMessage\<close>, \<open>fetchPendingMessages\<close>, the counters of attempts, \<open>dispatchDueMessagesForUser\<close>
  and one round of \<open>retryLoop\<close>. For every user Redis holds a hash of payloads, a sorted set of due
  times and a hash of attempts, and one set names the users concerned.

  Redis is not part of the program: its commands are the fields of a record \<open>redis_api\<close> over an
  unknown state, and what the documentation says of them is the predicate \<open>redis_laws\<close>.
\<close>

section \<open>Commands of the store\<close>

text \<open>
  \<open>rd_conn\<close>: the pool has a usable context. \<open>rd_ok\<close>: the command issued in this state is
  answered; otherwise \<open>redisCommand\<close> returns \<open>NULL\<close> and the state is whatever \<open>rd_fail\<close> says.
  \<open>rd_zset\<close> is a sorted set in its order, with scores.
\<close>

record 'r redis_api =
  rd_conn :: "'r \<Rightarrow> bool"
  rd_ok :: "'r \<Rightarrow> bool"
  rd_fail :: "'r \<Rightarrow> 'r"
  rd_hset :: "string \<Rightarrow> string \<Rightarrow> string \<Rightarrow> 'r \<Rightarrow> 'r"
  rd_hdel :: "string \<Rightarrow> string \<Rightarrow> 'r \<Rightarrow> 'r"
  rd_hget :: "string \<Rightarrow> string \<Rightarrow> 'r \<Rightarrow> string option"
  rd_zadd :: "string \<Rightarrow> int \<Rightarrow> string \<Rightarrow> 'r \<Rightarrow> 'r"
  rd_zrem :: "string \<Rightarrow> string \<Rightarrow> 'r \<Rightarrow> 'r"
  rd_zset :: "string \<Rightarrow> 'r \<Rightarrow> (string \<times> int) list"
  rd_sadd :: "string \<Rightarrow> string \<Rightarrow> 'r \<Rightarrow> 'r"
  rd_smembers :: "string \<Rightarrow> 'r \<Rightarrow> string list"
  rd_expire :: "string \<Rightarrow> nat \<Rightarrow> 'r \<Rightarrow> 'r"
  rd_get :: "string \<Rightarrow> 'r \<Rightarrow> string option"
  rd_setex :: "string \<Rightarrow> nat \<Rightarrow> string \<Rightarrow> 'r \<Rightarrow> 'r"
  rd_del :: "string \<Rightarrow> 'r \<Rightarrow> 'r"

definition cmd :: "'r redis_api \<Rightarrow> ('r \<Rightarrow> 'r) \<Rightarrow> 'r \<Rightarrow> 'r" where
  "cmd api f r = (if rd_ok api r then f r else rd_fail api r)"

section \<open>Text conversions\<close>

text \<open>
  \<open>c_str()\<close> as a command argument ends at the first null byte. \<open>std::stoull\<close> and \<open>std::atoi\<close> skip
  white space, read a sign and then digits; \<open>stoull\<close> throws (\<open>None\<close>) without digits and beyond 64 bits.
  \<open>std::atoi\<close> is undefined beyond \<open>int\<close>, where this model gives the number itself; the attempts that the program
  writes never get there, since a message is not sent again after the fifth.
\<close>

definition c_str :: "string \<Rightarrow> string" where
  "c_str s = takeWhile (\<lambda>c. c \<noteq> CHR 0x00) s"

definition isspace :: "char \<Rightarrow> bool" where
  "isspace c \<longleftrightarrow> c \<in> {CHR '' '', CHR 0x09, CHR 0x0A, CHR 0x0B, CHR 0x0C, CHR 0x0D}"

definition read_sign :: "string \<Rightarrow> bool \<times> string" where
  "read_sign s = (case s of [] \<Rightarrow> (False, s)
     | c # cs \<Rightarrow> if c = CHR ''-'' then (True, cs) else if c = CHR ''+'' then (False, cs) else (False, s))"

definition stoull :: "string \<Rightarrow> u64 option" where
  "stoull s =
     (let (neg, s) = read_sign (dropWhile isspace s);
          ds = takeWhile isdigit s
      in if ds = [] then None
         else case stoull_digits ds of None \<Rightarrow> None | Some v \<Rightarrow> Some (if neg then - v else v))"

definition atoi :: "string \<Rightarrow> int" where
  "atoi s =
     (let (neg, s) = read_sign (dropWhile isspace s);
          v = int (digits_val 0 (takeWhile isdigit s))
      in if neg then - v else v)"

definition int_str :: "int \<Rightarrow> string" where
  "int_str i = (if i < 0 then CHR ''-'' # to_string (nat (- i)) else to_string (nat i))"

section \<open>Keys and constants\<close>

definition keyPayload :: "string \<Rightarrow> string" where "keyPayload user = ''chat:pending:'' @ user"
definition keySchedule :: "string \<Rightarrow> string" where "keySchedule user = ''chat:pending_schedule:'' @ user"
definition keyAttempts :: "string \<Rightarrow> string" where "keyAttempts user = ''chat:pending_attempts:'' @ user"
definition keyUsers :: string where "keyUsers = ''chat:pending_users''"

definition kRetryDelayMs :: int where "kRetryDelayMs = 3000"
definition kRetryBatchPerUser :: nat where "kRetryBatchPerUser = 50"
definition kRetryMaxAttempts :: int where "kRetryMaxAttempts = 5"

section \<open>Storing and acknowledging\<close>

text \<open>The Lua scripts, which Redis runs as a unit.\<close>

definition lua_store :: "'r redis_api \<Rightarrow> string \<Rightarrow> string \<Rightarrow> string \<Rightarrow> int \<Rightarrow> 'r \<Rightarrow> 'r" where
  "lua_store api user idStr messageJson dueMs r =
     (let r = rd_hset api (keyPayload user) idStr messageJson r;
          r = rd_zadd api (keySchedule user) dueMs idStr r;
          r = rd_hset api (keyAttempts user) idStr ''0'' r;
          r = rd_sadd api keyUsers user r;
          r = rd_expire api (keyPayload user) 604800 r;
          r = rd_expire api (keySchedule user) 604800 r
      in rd_expire api (keyAttempts user) 604800 r)"

fun lua_ack :: "'r redis_api \<Rightarrow> string \<Rightarrow> string list \<Rightarrow> 'r \<Rightarrow> 'r" where
  "lua_ack api user [] r = r"
| "lua_ack api user (idStr # ids) r =
     (let r = rd_hdel api (keyPayload user) idStr r;
          r = rd_zrem api (keySchedule user) idStr r;
          r = rd_hdel api (keyAttempts user) idStr r
      in lua_ack api user ids r)"

definition storePendingMessage :: "'r redis_api \<Rightarrow> int \<Rightarrow> string \<Rightarrow> u64 \<Rightarrow> string \<Rightarrow> 'r \<Rightarrow> bool \<times> 'r" where
  "storePendingMessage api nowMs targetUser msgId messageJson r =
     (if targetUser = '''' \<or> messageJson = '''' then (False, r)
      else
        case (if msgId = 0 then
                let parsed = extractJsonValue messageJson ''msg_id'' in
                if parsed = '''' then None else stoull parsed
              else Some msgId) of
          None \<Rightarrow> (False, r)
        | Some effectiveId \<Rightarrow>
            if effectiveId = 0 then (False, r)
            else if \<not> rd_conn api r then (False, r)
            else if rd_ok api r then
              (True, lua_store api targetUser (to_string (unat effectiveId)) messageJson (nowMs + kRetryDelayMs) r)
            else (False, rd_fail api r))"

definition ackPendingMessage :: "'r redis_api \<Rightarrow> string \<Rightarrow> u64 list \<Rightarrow> 'r \<Rightarrow> 'r" where
  "ackPendingMessage api user msgIds r =
     (if user = '''' \<or> msgIds = [] then r
      else if \<not> rd_conn api r then r
      else
        let idStrs = map (\<lambda>id. to_string (unat id)) (filter (\<lambda>id. id \<noteq> 0) msgIds) in
        if idStrs = [] then r else cmd api (lua_ack api user idStrs) r)"

section \<open>Fetching\<close>

fun fetch_loop :: "'r redis_api \<Rightarrow> string \<Rightarrow> string list \<Rightarrow> string list \<Rightarrow> 'r \<Rightarrow> string list \<times> 'r" where
  "fetch_loop api username [] messages r = (messages, r)"
| "fetch_loop api username (element # ids) messages r =
     (let idStr = c_str element in
      if rd_ok api r then
        (case rd_hget api (c_str (keyPayload username)) idStr r of
           Some payload \<Rightarrow> fetch_loop api username ids (messages @ [c_str payload]) r
         | None \<Rightarrow> fetch_loop api username ids messages (cmd api (rd_zrem api (c_str (keySchedule username)) idStr) r))
      else fetch_loop api username ids messages (rd_fail api r))"

definition due_ids :: "int \<Rightarrow> nat \<Rightarrow> bool \<Rightarrow> (string \<times> int) list \<Rightarrow> string list" where
  "due_ids nowMs limit dueOnly zs = take limit (map fst (if dueOnly then filter (\<lambda>e. snd e \<le> nowMs) zs else zs))"

definition fetchPendingMessages :: "'r redis_api \<Rightarrow> int \<Rightarrow> string \<Rightarrow> nat \<Rightarrow> bool \<Rightarrow> 'r \<Rightarrow> string list \<times> 'r" where
  "fetchPendingMessages api nowMs username limit dueOnly r =
     (if username = '''' \<or> limit = 0 then ([], r)
      else if \<not> rd_conn api r then ([], r)
      else if rd_ok api r then
        fetch_loop api username (due_ids nowMs limit dueOnly (rd_zset api (c_str (keySchedule username)) r)) [] r
      else ([], rd_fail api r))"

definition getPendingAttempt :: "'r redis_api \<Rightarrow> string \<Rightarrow> string \<Rightarrow> 'r \<Rightarrow> int \<times> 'r" where
  "getPendingAttempt api user msgId r =
     (if \<not> rd_conn api r then (0, r)
      else if rd_ok api r then
        ((case rd_hget api (c_str (keyAttempts user)) (c_str msgId) r of Some s \<Rightarrow> atoi (c_str s) | None \<Rightarrow> 0), r)
      else (0, rd_fail api r))"

definition setPendingAttempt :: "'r redis_api \<Rightarrow> string \<Rightarrow> string \<Rightarrow> int \<Rightarrow> 'r \<Rightarrow> 'r" where
  "setPendingAttempt api user msgId attempt r =
     (if \<not> rd_conn api r then r
      else cmd api (rd_hset api (c_str (keyAttempts user)) (c_str msgId) (int_str attempt)) r)"

section \<open>Dispatching\<close>

text \<open>The loop over the fetched messages; \<open>clock\<close> gives the time at which a message is rescheduled.\<close>

fun dispatch_loop :: "'r redis_api \<Rightarrow> (string \<Rightarrow> size_t) \<Rightarrow> allocator \<Rightarrow> (string \<Rightarrow> int) \<Rightarrow> string \<Rightarrow> ctx_ptr \<Rightarrow> bool
    \<Rightarrow> string list \<Rightarrow> server \<Rightarrow> 'r \<Rightarrow> fault + server \<times> 'r" where
  "dispatch_loop api hash alloc clock user ctx includeAll [] s r = Inr (s, r)"
| "dispatch_loop api hash alloc clock user ctx includeAll (msg # msgs) s r =
     (let msgIdStr = extractJsonValue msg ''msg_id'' in
      if msgIdStr = '''' then dispatch_loop api hash alloc clock user ctx includeAll msgs s r
      else case getPendingAttempt api user msgIdStr r of (attempt, r) \<Rightarrow>
        if attempt \<ge> kRetryMaxAttempts \<and> \<not> includeAll then dispatch_loop api hash alloc clock user ctx includeAll msgs s r
        else bindE (sendPacket hash alloc (Some ctx) 1 msg s) (\<lambda>s.
          if \<not> rd_conn api r then dispatch_loop api hash alloc clock user ctx includeAll msgs s r
          else
            let r = setPendingAttempt api user msgIdStr (if includeAll then attempt else attempt + 1) r;
                r = cmd api (rd_zadd api (c_str (keySchedule user)) (clock msgIdStr + kRetryDelayMs) (c_str msgIdStr)) r
            in dispatch_loop api hash alloc clock user ctx includeAll msgs s r))"

definition dispatchDueMessagesForUser :: "'r redis_api \<Rightarrow> (string \<Rightarrow> size_t) \<Rightarrow> allocator \<Rightarrow> int \<Rightarrow> (string \<Rightarrow> int)
    \<Rightarrow> string \<Rightarrow> ctx_ptr option \<Rightarrow> bool \<Rightarrow> server \<Rightarrow> 'r \<Rightarrow> fault + server \<times> 'r" where
  "dispatchDueMessagesForUser api hash alloc nowMs clock user ctx includeAll s r =
     (case ctx of
        None \<Rightarrow> Inr (s, r)
      | Some p \<Rightarrow>
          if user = '''' then Inr (s, r)
          else case fetchPendingMessages api nowMs user kRetryBatchPerUser (\<not> includeAll) r of (msgs, r) \<Rightarrow>
            dispatch_loop api hash alloc clock user p includeAll msgs s r)"

text \<open>The users of one round of \<open>retryLoop\<close>, and the round after its sleep.\<close>

fun retry_users :: "'r redis_api \<Rightarrow> (string \<Rightarrow> size_t) \<Rightarrow> allocator \<Rightarrow> (ctx_ptr \<Rightarrow> bool) \<Rightarrow> int \<Rightarrow> (string \<Rightarrow> int)
    \<Rightarrow> string list \<Rightarrow> server \<Rightarrow> 'r \<Rightarrow> fault + server \<times> 'r" where
  "retry_users api hash alloc alive nowMs clock [] s r = Inr (s, r)"
| "retry_users api hash alloc alive nowMs clock (item # users) s r =
     (let user = c_str item in
      case getOnlineCtx hash alive (s_reg s) user of
        None \<Rightarrow> retry_users api hash alloc alive nowMs clock users s r
      | Some online \<Rightarrow>
          bindE (dispatchDueMessagesForUser api hash alloc nowMs clock user (Some online) False s r) (\<lambda>(s, r).
          retry_users api hash alloc alive nowMs clock users s r))"

definition retry_round :: "'r redis_api \<Rightarrow> (string \<Rightarrow> size_t) \<Rightarrow> allocator \<Rightarrow> (ctx_ptr \<Rightarrow> bool) \<Rightarrow> int \<Rightarrow> (string \<Rightarrow> int)
    \<Rightarrow> server \<Rightarrow> 'r \<Rightarrow> fault + server \<times> 'r" where
  "retry_round api hash alloc alive nowMs clock s r =
     (if \<not> rd_conn api r then Inr (s, r)
      else if rd_ok api r then retry_users api hash alloc alive nowMs clock (rd_smembers api keyUsers r) s r
      else Inr (s, rd_fail api r))"

section \<open>What the documentation of Redis says\<close>

text \<open>
  Commands on hashes, sorted sets, sets and strings, for a database in which a key is used for one
  kind of value, as the keys of the program are. \<open>EXPIRE\<close> with a positive time changes nothing at
  the moment it is issued. Scores are integers here; the scores of Redis are doubles, which hold
  an integer exactly up to \<open>2 ^ 53\<close>. The program only uses times in milliseconds as scores, which stay below that
  for the next 280000 years.
\<close>

definition redis_laws :: "'r redis_api \<Rightarrow> bool" where
  "redis_laws api \<longleftrightarrow>
     (\<forall>k f v k' f' r. rd_hget api k f (rd_hset api k' f' v r) = (if k = k' \<and> f = f' then Some v else rd_hget api k f r))
   \<and> (\<forall>k f k' f' r. rd_hget api k f (rd_hdel api k' f' r) = (if k = k' \<and> f = f' then None else rd_hget api k f r))
   \<and> (\<forall>k f k' sc m r. rd_hget api k f (rd_zadd api k' sc m r) = rd_hget api k f r)
   \<and> (\<forall>k f k' m r. rd_hget api k f (rd_zrem api k' m r) = rd_hget api k f r)
   \<and> (\<forall>k f k' m r. rd_hget api k f (rd_sadd api k' m r) = rd_hget api k f r)
   \<and> (\<forall>k f k' t r. rd_hget api k f (rd_expire api k' t r) = rd_hget api k f r)
   \<and> (\<forall>k k' sc m r. map_of (rd_zset api k (rd_zadd api k' sc m r)) =
        (if k = k' then (map_of (rd_zset api k r))(m \<mapsto> sc) else map_of (rd_zset api k r)))
   \<and> (\<forall>k k' m r. map_of (rd_zset api k (rd_zrem api k' m r)) =
        (if k = k' then (map_of (rd_zset api k r))(m := None) else map_of (rd_zset api k r)))
   \<and> (\<forall>k k' f v r. rd_zset api k (rd_hset api k' f v r) = rd_zset api k r)
   \<and> (\<forall>k k' f r. rd_zset api k (rd_hdel api k' f r) = rd_zset api k r)
   \<and> (\<forall>k k' m r. rd_zset api k (rd_sadd api k' m r) = rd_zset api k r)
   \<and> (\<forall>k k' t r. rd_zset api k (rd_expire api k' t r) = rd_zset api k r)
   \<and> (\<forall>k r. distinct (map fst (rd_zset api k r)) \<and> sorted (map snd (rd_zset api k r)))
   \<and> (\<forall>k k' m r. set (rd_smembers api k (rd_sadd api k' m r)) =
        (if k = k' then insert m (set (rd_smembers api k r)) else set (rd_smembers api k r)))
   \<and> (\<forall>k k' t r. rd_smembers api k (rd_expire api k' t r) = rd_smembers api k r)
   \<and> (\<forall>k k' v t r. rd_get api k (rd_setex api k' t v r) = (if k = k' then Some v else rd_get api k r))
   \<and> (\<forall>k k' r. rd_get api k (rd_del api k' r) = (if k = k' then None else rd_get api k r))"

lemma redis_lawsD:
  assumes "redis_laws api"
  shows hget_hset: "rd_hget api k f (rd_hset api k' f' v r) = (if k = k' \<and> f = f' then Some v else rd_hget api k f r)"
    and hget_hdel: "rd_hget api k f (rd_hdel api k' f' r) = (if k = k' \<and> f = f' then None else rd_hget api k f r)"
    and hget_zadd: "rd_hget api k f (rd_zadd api k' sc m r) = rd_hget api k f r"
    and hget_zrem: "rd_hget api k f (rd_zrem api k' m r) = rd_hget api k f r"
    and hget_sadd: "rd_hget api k f (rd_sadd api k' m r) = rd_hget api k f r"
    and hget_expire: "rd_hget api k f (rd_expire api k' t r) = rd_hget api k f r"
    and zset_zadd: "map_of (rd_zset api k (rd_zadd api k' sc m r)) =
        (if k = k' then (map_of (rd_zset api k r))(m \<mapsto> sc) else map_of (rd_zset api k r))"
    and zset_zrem: "map_of (rd_zset api k (rd_zrem api k' m r)) =
        (if k = k' then (map_of (rd_zset api k r))(m := None) else map_of (rd_zset api k r))"
    and zset_hset: "rd_zset api k (rd_hset api k' f v r) = rd_zset api k r"
    and zset_hdel: "rd_zset api k (rd_hdel api k' f r) = rd_zset api k r"
    and zset_sadd: "rd_zset api k (rd_sadd api k' m r) = rd_zset api k r"
    and zset_expire: "rd_zset api k (rd_expire api k' t r) = rd_zset api k r"
    and zset_order: "distinct (map fst (rd_zset api k r)) \<and> sorted (map snd (rd_zset api k r))"
    and smembers_sadd: "set (rd_smembers api k (rd_sadd api k' m r)) =
        (if k = k' then insert m (set (rd_smembers api k r)) else set (rd_smembers api k r))"
    and smembers_expire: "rd_smembers api k (rd_expire api k' t r) = rd_smembers api k r"
    and get_setex: "rd_get api k (rd_setex api k' t v r) = (if k = k' then Some v else rd_get api k r)"
    and get_del: "rd_get api k (rd_del api k' r) = (if k = k' then None else rd_get api k r)"
  using assms by (simp_all add: redis_laws_def)

text \<open>A store that answers every command.\<close>

definition redis_up :: "'r redis_api \<Rightarrow> bool" where
  "redis_up api \<longleftrightarrow> (\<forall>r. rd_conn api r \<and> rd_ok api r)"

text \<open>The laws can be met: a store of finite lists and maps.\<close>

record mem_store =
  ms_hashes :: "string \<Rightarrow> string \<rightharpoonup> string"
  ms_zsets :: "string \<Rightarrow> (string \<times> int) list"
  ms_sets :: "string \<Rightarrow> string list"
  ms_strings :: "string \<rightharpoonup> string"

definition mem_redis :: "mem_store redis_api" where
  "mem_redis = \<lparr>rd_conn = (\<lambda>_. True), rd_ok = (\<lambda>_. True), rd_fail = (\<lambda>r. r),
     rd_hset = (\<lambda>k f v r. r\<lparr>ms_hashes := (ms_hashes r)(k := (ms_hashes r k)(f \<mapsto> v))\<rparr>),
     rd_hdel = (\<lambda>k f r. r\<lparr>ms_hashes := (ms_hashes r)(k := (ms_hashes r k)(f := None))\<rparr>),
     rd_hget = (\<lambda>k f r. ms_hashes r k f),
     rd_zadd = (\<lambda>k sc m r. r\<lparr>ms_zsets := (ms_zsets r)(k := (m, sc) # ms_zsets r k)\<rparr>),
     rd_zrem = (\<lambda>k m r. r\<lparr>ms_zsets := (ms_zsets r)(k := AList.delete m (ms_zsets r k))\<rparr>),
     rd_zset = (\<lambda>k r. sort_key snd (AList.clearjunk (ms_zsets r k))),
     rd_sadd = (\<lambda>k m r. r\<lparr>ms_sets := (ms_sets r)(k := List.insert m (ms_sets r k))\<rparr>),
     rd_smembers = (\<lambda>k r. ms_sets r k),
     rd_expire = (\<lambda>k t r. r),
     rd_get = (\<lambda>k r. ms_strings r k),
     rd_setex = (\<lambda>k t v r. r\<lparr>ms_strings := (ms_strings r)(k \<mapsto> v)\<rparr>),
     rd_del = (\<lambda>k r. r\<lparr>ms_strings := (ms_strings r)(k := None)\<rparr>)\<rparr>"

lemma distinct_sorted_clearjunk: "distinct (map fst (sort_key snd (AList.clearjunk zs)))"
  using distinct_clearjunk [of zs] by (simp add: distinct_map)

lemma map_of_sorted_clearjunk: "map_of (sort_key snd (AList.clearjunk zs)) = map_of zs"
proof -
  have "distinct (map fst (sort_key snd (AList.clearjunk zs)))" by (rule distinct_sorted_clearjunk)
  then have "map_of (sort_key snd (AList.clearjunk zs)) = map_of (AList.clearjunk zs)"
    by (simp add: map_of_inject_set distinct_clearjunk)
  then show ?thesis by (simp add: map_of_clearjunk)
qed

lemma mem_redis_laws: "redis_laws mem_redis" "redis_up mem_redis"
  by (auto simp: redis_laws_def redis_up_def mem_redis_def map_of_sorted_clearjunk distinct_sorted_clearjunk delete_conv')

section \<open>Properties\<close>

definition no_nul :: "string \<Rightarrow> bool" where
  "no_nul s \<longleftrightarrow> CHR 0x00 \<notin> set s"

lemma c_str_no_nul [simp]: "no_nul s \<Longrightarrow> c_str s = s"
  by (auto simp: c_str_def no_nul_def takeWhile_eq_all_conv)

lemma no_nul_keys [simp]: "no_nul (keyPayload u) \<longleftrightarrow> no_nul u" "no_nul (keySchedule u) \<longleftrightarrow> no_nul u" "no_nul (keyAttempts u) \<longleftrightarrow> no_nul u"
  by (auto simp: no_nul_def keyPayload_def keySchedule_def keyAttempts_def)

lemma keys_distinct [simp]:
  "keyPayload u \<noteq> keyAttempts v" "keyAttempts u \<noteq> keyPayload v" "keyPayload u = keyPayload v \<longleftrightarrow> u = v"
  "keyAttempts u = keyAttempts v \<longleftrightarrow> u = v" "keySchedule u = keySchedule v \<longleftrightarrow> u = v"
  by (auto simp: keyPayload_def keySchedule_def keyAttempts_def)

text \<open>A pending message: payload, due time and attempts of an identifier.\<close>

definition pending :: "'r redis_api \<Rightarrow> 'r \<Rightarrow> string \<Rightarrow> string \<Rightarrow> string option \<times> int option \<times> string option" where
  "pending api r user i = (rd_hget api (keyPayload user) i r, map_of (rd_zset api (keySchedule user) r) i,
     rd_hget api (keyAttempts user) i r)"

lemma pending_store:
  assumes "redis_laws api"
  shows "pending api (lua_store api user i json due r) u j =
    (if u = user \<and> j = i then (Some json, Some due, Some ''0'') else pending api r u j)"
  unfolding pending_def lua_store_def Let_def
  using redis_lawsD [OF assms] by auto

lemma pending_ack:
  assumes "redis_laws api"
  shows "pending api (lua_ack api user is r) u j =
    (if u = user \<and> j \<in> set is then (None, None, None) else pending api r u j)"
proof (induction "is" arbitrary: r)
  case (Cons i "is")
  have "pending api (rd_hdel api (keyAttempts user) i (rd_zrem api (keySchedule user) i (rd_hdel api (keyPayload user) i r))) u j =
      (if u = user \<and> j = i then (None, None, None) else pending api r u j)"
    unfolding pending_def using redis_lawsD [OF assms] by auto
  with Cons show ?case by (auto simp: Let_def)
qed simp

text \<open>
  (C13) Storing a private message and acknowledging it, with a Redis that answers. After
  \<open>storePendingMessage\<close> the payload is kept under the number of the message, it is due three seconds
  later, no attempt is counted and the receiver is listed for the retry thread; nothing else that
  is pending changes. Acknowledging the number removes payload, schedule and attempts of exactly
  that number and touches no other message of any user. This is not the state before the
  message was stored: the receiver stays listed in \<open>chat:pending_users\<close> (as in the witness), and a message that
  was pending under the same number before is replaced by the first call and gone after the second.
\<close>

theorem pending_store_ack:
  assumes "redis_laws api" and "redis_up api" and "user \<noteq> ''''" and "json \<noteq> ''''" and "msgId \<noteq> 0"
  shows "\<exists>r1. storePendingMessage api now user msgId json r = (True, r1)
    \<and> (\<forall>u j. pending api r1 u j = (if u = user \<and> j = to_string (unat msgId)
         then (Some json, Some (now + 3000), Some ''0'') else pending api r u j))
    \<and> user \<in> set (rd_smembers api keyUsers r1)
    \<and> (\<forall>u j. pending api (ackPendingMessage api user [msgId] r1) u j = (if u = user \<and> j = to_string (unat msgId)
         then (None, None, None) else pending api r u j))"
proof -
  let ?i = "to_string (unat msgId)"
  let ?r = "lua_store api user ?i json (now + 3000) r"
  have "storePendingMessage api now user msgId json r = (True, ?r)"
    using assms by (simp add: storePendingMessage_def redis_up_def kRetryDelayMs_def)
  moreover have "ackPendingMessage api user [msgId] ?r = lua_ack api user [?i] ?r"
    using assms by (simp add: ackPendingMessage_def redis_up_def cmd_def)
  moreover have "user \<in> set (rd_smembers api keyUsers ?r)"
    unfolding lua_store_def Let_def using redis_lawsD [OF assms(1)] by simp
  ultimately show ?thesis
    using pending_store [OF assms(1)] pending_ack [OF assms(1), of user "[?i]"] by (intro exI [of _ ?r]) auto
qed

definition empty_store :: mem_store where
  "empty_store = \<lparr>ms_hashes = (\<lambda>_. Map.empty), ms_zsets = (\<lambda>_. []), ms_sets = (\<lambda>_. []), ms_strings = Map.empty\<rparr>"

lemma mem_ack_users:
  "rd_smembers mem_redis k (ackPendingMessage mem_redis user msgIds r) = rd_smembers mem_redis k r"
proof -
  have "rd_smembers mem_redis k (lua_ack mem_redis user is r) = rd_smembers mem_redis k r" for "is"
    by (induction "is" arbitrary: r) (simp_all add: Let_def mem_redis_def)
  then show ?thesis
    using mem_redis_laws(2) by (simp add: ackPendingMessage_def cmd_def Let_def redis_up_def)
qed

theorem pending_store_ack_witness:
  "\<exists>r1. storePendingMessage mem_redis 1000 ''bob'' 42 ''{}'' empty_store = (True, r1)
     \<and> pending mem_redis r1 ''bob'' ''42'' = (Some ''{}'', Some 4000, Some ''0'')
     \<and> pending mem_redis (ackPendingMessage mem_redis ''bob'' [42] r1) ''bob'' ''42'' = (None, None, None)
     \<and> rd_smembers mem_redis keyUsers (ackPendingMessage mem_redis ''bob'' [42] r1) = rd_smembers mem_redis keyUsers r1
     \<and> ''bob'' \<in> set (rd_smembers mem_redis keyUsers r1)"
proof -
  have "to_string (unat (42 :: u64)) = ''42''" by code_simp
  with pending_store_ack [OF mem_redis_laws, of "''bob''" "''{}''" 42 1000 empty_store] mem_ack_users
  show ?thesis by auto
qed


text \<open>Fetching with a store that answers, when every scheduled message has its payload.\<close>

lemma fetch_loop_ok:
  assumes "redis_up api" and "no_nul user"
    and "\<forall>i \<in> set is. no_nul i \<and> rd_hget api (keyPayload user) i r = Some (p i) \<and> no_nul (p i)"
  shows "fetch_loop api user is ms r = (ms @ map p is, r)"
  using assms(3)
proof (induction "is" arbitrary: ms)
  case (Cons i "is")
  then show ?case using assms(1,2) by (simp add: redis_up_def Let_def)
qed simp

lemma fetchPendingMessages_ok:
  assumes "redis_up api" and "no_nul user" and "user \<noteq> ''''" and "limit \<noteq> 0"
    and "\<forall>i \<in> set (due_ids nowMs limit dueOnly (rd_zset api (keySchedule user) r)).
           no_nul i \<and> rd_hget api (keyPayload user) i r = Some (p i) \<and> no_nul (p i)"
  shows "fetchPendingMessages api nowMs user limit dueOnly r =
    (map p (due_ids nowMs limit dueOnly (rd_zset api (keySchedule user) r)), r)"
  using assms fetch_loop_ok [OF assms(1,2,5), of "[]"] by (simp add: fetchPendingMessages_def redis_up_def)

lemma getPendingAttempt_up:
  assumes "redis_up api" and "no_nul user" and "no_nul i"
  shows "getPendingAttempt api user i r =
    ((case rd_hget api (keyAttempts user) i r of Some s \<Rightarrow> atoi (c_str s) | None \<Rightarrow> 0), r)"
  using assms by (simp add: getPendingAttempt_def redis_up_def)

lemma dispatch_exhausted:
  assumes "\<forall>m \<in> set ms. extractJsonValue m ''msg_id'' = '''' \<or>
      (\<exists>a. getPendingAttempt api user (extractJsonValue m ''msg_id'') r = (a, r) \<and> kRetryMaxAttempts \<le> a)"
  shows "dispatch_loop api hash alloc clock user p False ms s r = Inr (s, r)"
  using assms by (induction ms) (auto simp: Let_def)

text \<open>
  (C37) A message whose five attempts are used up stays in the schedule with its old due
  time, and each round reads only the fifty earliest due messages of a user. So when the fifty
  earliest messages have used up their attempts, a round of the retry thread sends nothing
  to the user and changes nothing, however many later messages are due that were never
  attempted.
\<close>

theorem exhausted_messages_block_retry:
  assumes up: "redis_up api" and "user \<noteq> ''''" and nn: "no_nul user"
    and head: "\<forall>i \<in> set (due_ids nowMs 50 True (rd_zset api (keySchedule user) r)).
      no_nul i \<and> rd_hget api (keyPayload user) i r = Some (p i) \<and> no_nul (p i)
      \<and> extractJsonValue (p i) ''msg_id'' = i
      \<and> (\<exists>a. rd_hget api (keyAttempts user) i r = Some a \<and> 5 \<le> atoi (c_str a))"
  shows "dispatchDueMessagesForUser api hash alloc nowMs clock user (Some ctx) False s r = Inr (s, r)"
proof -
  let ?is = "due_ids nowMs 50 True (rd_zset api (keySchedule user) r)"
  have "fetchPendingMessages api nowMs user 50 True r = (map p ?is, r)"
    using fetchPendingMessages_ok [OF up nn, of 50 nowMs True r p] assms by simp
  moreover have "dispatch_loop api hash alloc clock user ctx False (map p ?is) s r = Inr (s, r)"
  proof (rule dispatch_exhausted, rule ballI)
    fix m
    assume "m \<in> set (map p ?is)"
    then obtain i where "i \<in> set ?is" and m: "m = p i" by auto
    with head obtain a where "no_nul i" and "extractJsonValue (p i) ''msg_id'' = i"
      and "rd_hget api (keyAttempts user) i r = Some a" and "5 \<le> atoi (c_str a)" by blast
    then show "extractJsonValue m ''msg_id'' = '''' \<or>
        (\<exists>a. getPendingAttempt api user (extractJsonValue m ''msg_id'') r = (a, r) \<and> kRetryMaxAttempts \<le> a)"
      using getPendingAttempt_up [OF up nn] m by (simp add: kRetryMaxAttempts_def)
  qed
  ultimately show ?thesis using assms(2) by (simp add: dispatchDueMessagesForUser_def kRetryBatchPerUser_def)
qed


text \<open>Fifty-one messages for bob, all due; the first fifty have used up their attempts.\<close>

definition id_payload :: "string \<Rightarrow> string" where
  \<open>id_payload i = ''{"msg_id":"'' @ i @ ''"}''\<close>

definition full_store :: mem_store where
  "full_store = \<lparr>
     ms_hashes = (\<lambda>k i. if k = keyPayload ''bob'' then Some (id_payload i)
                         else if k = keyAttempts ''bob'' then Some (if i = ''51'' then ''0'' else ''5'') else None),
     ms_zsets = (\<lambda>k. if k = keySchedule ''bob'' then map (\<lambda>n. (to_string n, int n)) [1..<52] else []),
     ms_sets = (\<lambda>k. if k = keyUsers then [''bob''] else []),
     ms_strings = Map.empty\<rparr>"

lemma full_store_schedule:
  "rd_zset mem_redis (keySchedule ''bob'') full_store = map (\<lambda>n. (to_string n, int n)) [1..<52]"
  by code_simp

lemma full_store_head:
  "\<forall>i \<in> set (due_ids 100 50 True (map (\<lambda>n. (to_string n, int n)) [1..<52])).
     no_nul i \<and> rd_hget mem_redis (keyPayload ''bob'') i full_store = Some (id_payload i) \<and> no_nul (id_payload i)
     \<and> extractJsonValue (id_payload i) ''msg_id'' = i
     \<and> rd_hget mem_redis (keyAttempts ''bob'') i full_store = Some ''5''"
  by code_simp

lemma five_is_enough: "5 \<le> atoi (c_str ''5'')" by code_simp

theorem exhausted_messages_block_retry_witness:
  "dispatchDueMessagesForUser mem_redis (\<lambda>_. 0) (block_of (\<lambda>_. CHR ''x'')) 100 (\<lambda>_. 100) ''bob'' (Some 0) False empty_server full_store
     = Inr (empty_server, full_store)
   \<and> map_of (rd_zset mem_redis (keySchedule ''bob'') full_store) ''51'' = Some 51
   \<and> getPendingAttempt mem_redis ''bob'' ''51'' full_store = (0, full_store)"
proof (intro conjI)
  show "dispatchDueMessagesForUser mem_redis (\<lambda>_. 0) (block_of (\<lambda>_. CHR ''x'')) 100 (\<lambda>_. 100) ''bob'' (Some 0) False empty_server full_store
     = Inr (empty_server, full_store)"
  proof (rule exhausted_messages_block_retry)
    show "redis_up mem_redis" by (rule mem_redis_laws)
    show "no_nul ''bob''" by (simp add: no_nul_def)
    show "\<forall>i \<in> set (due_ids 100 50 True (rd_zset mem_redis (keySchedule ''bob'') full_store)).
      no_nul i \<and> rd_hget mem_redis (keyPayload ''bob'') i full_store = Some (id_payload i) \<and> no_nul (id_payload i)
      \<and> extractJsonValue (id_payload i) ''msg_id'' = i
      \<and> (\<exists>a. rd_hget mem_redis (keyAttempts ''bob'') i full_store = Some a \<and> 5 \<le> atoi (c_str a))"
      using full_store_head five_is_enough unfolding full_store_schedule by blast
  qed simp
  show "map_of (rd_zset mem_redis (keySchedule ''bob'') full_store) ''51'' = Some 51"
    unfolding full_store_schedule by code_simp
  have "rd_hget mem_redis (keyAttempts ''bob'') ''51'' full_store = Some ''0''" by code_simp
  moreover have "atoi (c_str ''0'') = 0" by code_simp
  ultimately show "getPendingAttempt mem_redis ''bob'' ''51'' full_store = (0, full_store)"
    using getPendingAttempt_up [OF mem_redis_laws(2), of "''bob''" "''51''" full_store] by (simp add: no_nul_def)
qed


section \<open>What a round sends\<close>

definition attempts_of :: "'r redis_api \<Rightarrow> string \<Rightarrow> 'r \<Rightarrow> string \<Rightarrow> int" where
  "attempts_of api user r i = (case rd_hget api (keyAttempts user) i r of Some a \<Rightarrow> atoi (c_str a) | None \<Rightarrow> 0)"

definition sendable :: "'r redis_api \<Rightarrow> string \<Rightarrow> bool \<Rightarrow> 'r \<Rightarrow> string list \<Rightarrow> string list" where
  "sendable api user includeAll r is = filter (\<lambda>i. includeAll \<or> attempts_of api user r i < kRetryMaxAttempts) is"

abbreviation msg_packet :: "string \<Rightarrow> byte list" where
  "msg_packet m \<equiv> packet 1 (encodeJsonToProto 1 m)"

text \<open>The entry of a message after it was sent.\<close>

definition resent :: "'r redis_api \<Rightarrow> string \<Rightarrow> bool \<Rightarrow> (string \<Rightarrow> int) \<Rightarrow> 'r \<Rightarrow> string
    \<Rightarrow> string option \<times> int option \<times> string option" where
  "resent api user includeAll clock r i =
     (rd_hget api (keyPayload user) i r, Some (clock i + kRetryDelayMs),
      Some (int_str (if includeAll then attempts_of api user r i else attempts_of api user r i + 1)))"

definition after_send :: "'r redis_api \<Rightarrow> string \<Rightarrow> bool \<Rightarrow> (string \<Rightarrow> int) \<Rightarrow> string \<Rightarrow> 'r \<Rightarrow> 'r" where
  "after_send api user includeAll clock i r =
     rd_zadd api (keySchedule user) (clock i + kRetryDelayMs) i
       (rd_hset api (keyAttempts user) i
          (int_str (if includeAll then attempts_of api user r i else attempts_of api user r i + 1)) r)"

lemma pending_after_send:
  assumes "redis_laws api"
  shows "pending api (after_send api user includeAll clock i r) u j =
    (if u = user \<and> j = i then resent api user includeAll clock r i else pending api r u j)"
  unfolding pending_def after_send_def resent_def using redis_lawsD [OF assms] by auto

lemma attempts_after_send:
  assumes "redis_laws api" and "j \<noteq> i"
  shows "attempts_of api user (after_send api user includeAll clock i r) j = attempts_of api user r j"
    and "resent api user includeAll clock (after_send api user includeAll clock i r) j = resent api user includeAll clock r j"
  using assms redis_lawsD [OF assms(1)] by (simp_all add: attempts_of_def resent_def after_send_def)

lemma dispatch_step:
  assumes "redis_up api" and "no_nul user" and "no_nul i" and "i \<noteq> ''''" and "extractJsonValue m ''msg_id'' = i"
  shows "dispatch_loop api hash alloc clock user p includeAll (m # ms) s r =
    (if sendable api user includeAll r [i] = [] then dispatch_loop api hash alloc clock user p includeAll ms s r
     else bindE (sendPacket hash alloc (Some p) 1 m s) (\<lambda>s.
       dispatch_loop api hash alloc clock user p includeAll ms s (after_send api user includeAll clock i r)))"
  using assms
  by (auto simp: getPendingAttempt_up sendable_def attempts_of_def after_send_def setPendingAttempt_def redis_up_def cmd_def Let_def
      intro!: arg_cong2 [where f = bindE])

lemma dispatch_loop_sends:
  assumes "redis_laws api" and "redis_up api" and "no_nul user"
    and "srv_inv hash s" and "p < s_nextCtx s" and "distinct is"
    and "\<forall>i \<in> set is. no_nul i \<and> i \<noteq> '''' \<and> extractJsonValue (m i) ''msg_id'' = i"
    and "length (unsent (s_ctxs s p)) + length (concat (map (\<lambda>i. msg_packet (m i)) (sendable api user includeAll r is))) \<le> 16777216"
  shows "\<exists>s' r'. dispatch_loop api hash (block_of junk) clock user p includeAll (map m is) s r = Inr (s', r')
    \<and> srv_inv hash s' \<and> s_reg s' = s_reg s
    \<and> unsent (s_ctxs s' p) = unsent (s_ctxs s p) @ concat (map (\<lambda>i. msg_packet (m i)) (sendable api user includeAll r is))
    \<and> (\<forall>u j. pending api r' u j = (if u = user \<and> j \<in> set (sendable api user includeAll r is)
         then resent api user includeAll clock r j else pending api r u j))"
  using assms(4-)
proof (induction "is" arbitrary: s r)
  case Nil
  then show ?case by (simp add: sendable_def)
next
  case (Cons i "is")
  note step = dispatch_step [OF assms(2,3), of i "m i"]
  show ?case
  proof (cases "sendable api user includeAll r [i] = []")
    case True
    then have "sendable api user includeAll r (i # is) = sendable api user includeAll r is"
      by (simp add: sendable_def split: if_splits)
    with Cons True step show ?thesis by simp
  next
    case False
    let ?r = "after_send api user includeAll clock i r"
    have cons: "sendable api user includeAll r (i # is) = i # sendable api user includeAll r is"
      using False by (simp add: sendable_def split: if_splits)
    have same: "sendable api user includeAll ?r is = sendable api user includeAll r is"
      unfolding sendable_def
    proof (rule filter_cong [OF refl])
      fix j
      assume "j \<in> set is"
      then have "j \<noteq> i" using Cons.prems(3) by auto
      then show "(includeAll \<or> attempts_of api user ?r j < kRetryMaxAttempts) =
          (includeAll \<or> attempts_of api user r j < kRetryMaxAttempts)"
        by (simp add: attempts_after_send(1) [OF assms(1)])
    qed
    have len: "length (encodeJsonToProto 1 (m i)) + 6 < 2 ^ 32"
        "length (unsent (s_ctxs s p)) + 6 + length (encodeJsonToProto 1 (m i)) \<le> 16777216"
      using Cons.prems(5) by (simp_all add: cons)
    from sendPacket_ok [OF Cons.prems(1,2) len(1), of junk] len(2) obtain s1 where
      s1: "sendPacket hash (block_of junk) (Some p) 1 (m i) s = Inr s1" "srv_inv hash s1" "s_nextCtx s1 = s_nextCtx s"
        "s_reg s1 = s_reg s" "unsent (s_ctxs s1 p) = unsent (s_ctxs s p) @ msg_packet (m i)" by blast
    from Cons.IH [of s1 ?r] s1 Cons.prems obtain s' r' where
      out: "dispatch_loop api hash (block_of junk) clock user p includeAll (map m is) s1 ?r = Inr (s', r')"
        "srv_inv hash s'" "s_reg s' = s_reg s"
        "unsent (s_ctxs s' p) = unsent (s_ctxs s1 p) @ concat (map (\<lambda>i. msg_packet (m i)) (sendable api user includeAll r is))"
        "\<forall>u j. pending api r' u j = (if u = user \<and> j \<in> set (sendable api user includeAll r is)
           then resent api user includeAll clock ?r j else pending api ?r u j)"
      by (auto simp: cons same)
    have "i \<notin> set (sendable api user includeAll r is)" using Cons.prems(3) by (simp add: sendable_def)
    then have "pending api r' u j = (if u = user \<and> j \<in> set (sendable api user includeAll r (i # is))
         then resent api user includeAll clock r j else pending api r u j)" for u j
      using out(5) attempts_after_send(2) [OF assms(1)] pending_after_send [OF assms(1)] by (auto simp: cons)
    then show ?thesis using step False s1 out Cons.prems(4) by (auto simp: cons)
  qed
qed


lemma dispatch_due:
  assumes "redis_laws api" and "redis_up api" and "user \<noteq> ''''" and "no_nul user"
    and "srv_inv hash s" and "p < s_nextCtx s"
    and "ids = due_ids nowMs 50 (\<not> includeAll) (rd_zset api (keySchedule user) r)"
    and "\<forall>i \<in> set ids. no_nul i \<and> i \<noteq> '''' \<and> rd_hget api (keyPayload user) i r = Some (m i) \<and> no_nul (m i)
      \<and> extractJsonValue (m i) ''msg_id'' = i"
    and "length (unsent (s_ctxs s p)) + length (concat (map (\<lambda>i. msg_packet (m i)) (sendable api user includeAll r ids))) \<le> 16777216"
  shows "\<exists>s' r'. dispatchDueMessagesForUser api hash (block_of junk) nowMs clock user (Some p) includeAll s r = Inr (s', r')
    \<and> srv_inv hash s' \<and> s_reg s' = s_reg s
    \<and> unsent (s_ctxs s' p) = unsent (s_ctxs s p) @ concat (map (\<lambda>i. msg_packet (m i)) (sendable api user includeAll r ids))
    \<and> (\<forall>u j. pending api r' u j = (if u = user \<and> j \<in> set (sendable api user includeAll r ids)
         then resent api user includeAll clock r j else pending api r u j))"
proof -
  have "distinct (map fst (rd_zset api (keySchedule user) r))" using zset_order [OF assms(1)] by simp
  then have "distinct ids" unfolding assms(7) due_ids_def by (auto intro: distinct_take simp: distinct_map_filter)
  moreover have "fetchPendingMessages api nowMs user 50 (\<not> includeAll) r = (map m ids, r)"
    using fetchPendingMessages_ok [OF assms(2,4,3), of 50 nowMs "\<not> includeAll" r m] assms(7,8) by simp
  moreover have "\<forall>i \<in> set ids. no_nul i \<and> i \<noteq> '''' \<and> extractJsonValue (m i) ''msg_id'' = i" using assms(8) by blast
  ultimately show ?thesis
    using dispatch_loop_sends [OF assms(1,2,4,5,6), of ids m includeAll r junk clock] assms(3,9)
    by (simp add: dispatchDueMessagesForUser_def kRetryBatchPerUser_def)
qed

text \<open>
  (C14) A dispatch sends what is due. Of the fifty earliest messages of a user (all of
  them at login, those that are due in a retry round) exactly those with fewer than five attempts
  (at login: all) are queued on the user's connection, in the order of their due times; each
  is rescheduled three seconds later, its payload stays until it is acknowledged, its attempts are
  counted in a retry round and kept at login, and no other pending message changes.
\<close>

theorem dispatch_sends_due_messages:
  assumes "redis_laws api" and "redis_up api" and "user \<noteq> ''''" and "no_nul user"
    and "srv_inv hash s" and "p < s_nextCtx s"
    and "ids = due_ids nowMs 50 (\<not> includeAll) (rd_zset api (keySchedule user) r)"
    and "\<forall>i \<in> set ids. no_nul i \<and> i \<noteq> '''' \<and> rd_hget api (keyPayload user) i r = Some (m i) \<and> no_nul (m i)
      \<and> extractJsonValue (m i) ''msg_id'' = i"
    and "length (unsent (s_ctxs s p)) + length (concat (map (\<lambda>i. msg_packet (m i)) (sendable api user includeAll r ids))) \<le> 16777216"
  shows "\<exists>s' r'. dispatchDueMessagesForUser api hash (block_of junk) nowMs clock user (Some p) includeAll s r = Inr (s', r')
    \<and> srv_inv hash s' \<and> s_reg s' = s_reg s
    \<and> unsent (s_ctxs s' p) = unsent (s_ctxs s p) @ concat (map (\<lambda>i. msg_packet (m i)) (sendable api user includeAll r ids))
    \<and> (\<forall>u j. pending api r' u j = (if u = user \<and> j \<in> set (sendable api user includeAll r ids)
         then resent api user includeAll clock r j else pending api r u j))"
  using assms by (rule dispatch_due)

definition one_store :: mem_store where
  "one_store = \<lparr>
     ms_hashes = (\<lambda>k i. if k = keyPayload ''bob'' \<and> i = ''42'' then Some (id_payload i)
                         else if k = keyAttempts ''bob'' \<and> i = ''42'' then Some ''1'' else None),
     ms_zsets = (\<lambda>k. if k = keySchedule ''bob'' then [(''42'', 90)] else []),
     ms_sets = (\<lambda>k. if k = keyUsers then [''bob''] else []),
     ms_strings = Map.empty\<rparr>"

lemma one_store_schedule:
  "due_ids 100 50 (\<not> False) (rd_zset mem_redis (keySchedule ''bob'') one_store) = [''42'']"
  by (simp add: one_store_def mem_redis_def due_ids_def)

lemma one_store_attempts: "attempts_of mem_redis ''bob'' one_store ''42'' = 1"
  by code_simp

lemma one_store_messages:
  "no_nul ''42'' \<and> ''42'' \<noteq> '''' \<and> rd_hget mem_redis (keyPayload ''bob'') ''42'' one_store = Some (id_payload ''42'')
     \<and> no_nul (id_payload ''42'') \<and> extractJsonValue (id_payload ''42'') ''msg_id'' = ''42''"
  by code_simp

lemma one_store_packet: "length (encodeJsonToProto 1 (id_payload ''42'')) \<le> 100"
  by code_simp

lemma one_store_resent:
  "sendable mem_redis ''bob'' False one_store [''42''] = [''42'']"
  "resent mem_redis ''bob'' False (\<lambda>_. 105) one_store ''42'' = (Some (id_payload ''42''), Some 3105, Some ''2'')"
proof -
  have "int_str 2 = ''2''" by code_simp
  then show "sendable mem_redis ''bob'' False one_store [''42''] = [''42'']"
    "resent mem_redis ''bob'' False (\<lambda>_. 105) one_store ''42'' = (Some (id_payload ''42''), Some 3105, Some ''2'')"
    using one_store_messages
    by (simp_all add: sendable_def resent_def one_store_attempts kRetryMaxAttempts_def kRetryDelayMs_def)
qed

theorem dispatch_sends_due_messages_witness:
  "\<exists>s s' r'. srv_inv (\<lambda>_. 0) s
     \<and> dispatchDueMessagesForUser mem_redis (\<lambda>_. 0) (block_of (\<lambda>_. CHR 0x00)) 100 (\<lambda>_. 105) ''bob'' (Some 0) False s one_store
         = Inr (s', r')
     \<and> unsent (s_ctxs s' 0) = msg_packet (id_payload ''42'')
     \<and> pending mem_redis r' ''bob'' ''42'' = (Some (id_payload ''42''), Some 3105, Some ''2'')"
proof -
  obtain s where s: "srv_inv (\<lambda>_. 0) s" "getClientCtxByFd (s_reg s) 7 = Some 0" "unsent (s_ctxs s 0) = []"
    using accepted_server [of "\<lambda>_. CHR 0x00" "\<lambda>_. 0"] by blast
  then have p: "0 < s_nextCtx s" using srv_invD(3) by blast
  have "length (unsent (s_ctxs s 0)) + length (concat (map (\<lambda>i. msg_packet (id_payload i))
      (sendable mem_redis ''bob'' False one_store [''42'']))) \<le> 16777216"
    using one_store_packet unfolding one_store_resent(1) by (simp add: s(3))
  from dispatch_sends_due_messages [OF mem_redis_laws _ _ s(1) p one_store_schedule [symmetric] _ this,
      of "\<lambda>_. CHR 0x00" "\<lambda>_. 105"]
  show ?thesis using s one_store_messages one_store_resent by (auto simp: no_nul_def)
qed

end
