(* ===== verification/Database.thy ===== *)
theory Database
  imports Server
begin

text \<open>
  The queries of the server (\<open>EpollChatServer.cpp\<close>): \<open>checkLoginFromDatabase\<close>, \<open>userExistsInDB\<close>,
  \<open>addFriendToDB\<close>, \<open>getFriendListFromDB\<close>, \<open>saveMessageToDB\<close>, the writing of a batch of the chat log
  and the history query of \<open>processPacket\<close>.

  MySQL is not part of the program: its answers are the fields of a record \<open>db_api\<close> over an unknown
  state. What the code does with the answers, the fixed buffers of \<open>mysql_stmt_fetch\<close> included, is
  modelled here.
\<close>

section \<open>Statements and results\<close>

text \<open>
  \<open>db_conn\<close>: the pooled handle is not null. \<open>db_stmt\<close>: \<open>mysql_stmt_init\<close> returns a statement.
  \<open>db_prepare\<close>: the text is accepted. \<open>db_select\<close>: the rows of a query, \<open>None\<close> when executing
  fails; a cell is \<open>None\<close> for SQL's \<open>NULL\<close>. \<open>db_insert\<close>: the number of affected rows, \<open>None\<close> when
  executing fails, and the new state.
\<close>

datatype db_value = VStr string | VInt int

type_synonym cell = "string option"

record 'd db_api =
  db_conn :: "'d \<Rightarrow> bool"
  db_stmt :: "'d \<Rightarrow> bool"
  db_prepare :: "string \<Rightarrow> 'd \<Rightarrow> bool"
  db_select :: "string \<Rightarrow> db_value list \<Rightarrow> 'd \<Rightarrow> cell list list option"
  db_insert :: "string \<Rightarrow> db_value list \<Rightarrow> 'd \<Rightarrow> nat option \<times> 'd"

text \<open>
  \<open>mysql_stmt_init\<close> and \<open>mysql_stmt_prepare\<close> without a check of the handle or of the statement, as
  most functions call them.
\<close>

definition stmt_prepare :: "'d db_api \<Rightarrow> string \<Rightarrow> 'd \<Rightarrow> fault + bool" where
  "stmt_prepare db sql d =
     (if \<not> db_conn db d \<or> \<not> db_stmt db d then Inl NullPointer else Inr (db_prepare db sql d))"

text \<open>
  \<open>mysql_stmt_fetch\<close> into buffers of the given sizes. A value that does not fit makes it return
  \<open>MYSQL_DATA_TRUNCATED\<close>, which ends every loop of the program. A \<open>NULL\<close> leaves buffer and length
  as they are; \<open>None\<close> is a buffer whose length was never set.
\<close>

definition fits :: "nat list \<Rightarrow> cell list \<Rightarrow> bool" where
  "fits sizes row \<longleftrightarrow> list_all2 (\<lambda>n c. case c of None \<Rightarrow> True | Some v \<Rightarrow> length v \<le> n) sizes row"

definition bind_row :: "string option list \<Rightarrow> cell list \<Rightarrow> string option list" where
  "bind_row bufs row = map2 (\<lambda>b c. case c of None \<Rightarrow> b | Some v \<Rightarrow> Some v) bufs row"

fun db_fetch :: "nat list \<Rightarrow> string option list \<Rightarrow> cell list list \<Rightarrow> fault + string list list" where
  "db_fetch sizes bufs [] = Inr []"
| "db_fetch sizes bufs (row # rows) =
     (if \<not> fits sizes row then Inr []
      else
        let bufs = bind_row bufs row in
        if None \<in> set bufs then Inl Uninitialised
        else bindE (db_fetch sizes bufs rows) (\<lambda>rs. Inr (map the bufs # rs)))"

section \<open>Accounts\<close>

definition login_sql :: string where "login_sql = ''SELECT password FROM accounts WHERE username = ?''"

definition checkLoginFromDatabase :: "'d db_api \<Rightarrow> string \<Rightarrow> string \<Rightarrow> 'd \<Rightarrow> server \<Rightarrow> fault + bool \<times> server" where
  "checkLoginFromDatabase db inputUser inputPass d s =
     (if \<not> db_conn db d then Inr (False, s)
      else
        let s = count_up (\<lambda>g. g\<lparr>g_loginDB := g_loginDB g + 1\<rparr>) s in
        bindE (stmt_prepare db login_sql d) (\<lambda>ok.
        if \<not> ok then Inr (False, s)
        else case db_select db login_sql [VStr inputUser] d of
          None \<Rightarrow> Inr (False, s)
        | Some rows \<Rightarrow>
            bindE (db_fetch [64] [None] (take 1 rows)) (\<lambda>rs.
            Inr (rs = [[inputPass]], s))))"

definition user_sql :: string where "user_sql = ''SELECT 1 FROM accounts WHERE username = ? LIMIT 1''"

definition userExistsInDB :: "'d db_api \<Rightarrow> string \<Rightarrow> 'd \<Rightarrow> fault + bool" where
  "userExistsInDB db username d =
     bindE (stmt_prepare db user_sql d) (\<lambda>ok.
     if \<not> ok then Inr False
     else case db_select db user_sql [VStr username] d of
       None \<Rightarrow> Inr False
     | Some rows \<Rightarrow> Inr (rows \<noteq> []))"

section \<open>Friends\<close>

definition add_friend_sql :: string where
  "add_friend_sql = ''INSERT IGNORE INTO friends (user_name, friend_name) VALUES (?, ?)''"

definition execPair :: "'d db_api \<Rightarrow> string \<Rightarrow> string \<Rightarrow> 'd \<Rightarrow> bool \<times> nat \<times> 'd" where
  "execPair db u f d =
     (case db_insert db add_friend_sql [VStr u, VStr f] d of
        (None, d) \<Rightarrow> (False, 2 ^ 64 - 1, d)
      | (Some affected, d) \<Rightarrow> (True, affected, d))"

definition addFriendToDB :: "'d db_api \<Rightarrow> string \<Rightarrow> string \<Rightarrow> 'd \<Rightarrow> fault + bool \<times> 'd" where
  "addFriendToDB db user friendName d =
     bindE (stmt_prepare db add_friend_sql d) (\<lambda>ok.
     if \<not> ok then Inr (False, d)
     else
       case execPair db user friendName d of (ok1, affected1, d) \<Rightarrow>
       case execPair db friendName user d of (ok2, affected2, d) \<Rightarrow>
       Inr (ok1 \<and> ok2 \<and> (affected1 > 0 \<or> affected2 > 0), d))"

definition friends_sql :: string where "friends_sql = ''SELECT friend_name FROM friends WHERE user_name = ?''"

definition getFriendListFromDB :: "'d db_api \<Rightarrow> string \<Rightarrow> 'd \<Rightarrow> fault + string list" where
  "getFriendListFromDB db username d =
     bindE (stmt_prepare db friends_sql d) (\<lambda>ok.
     if \<not> ok then Inr []
     else case db_select db friends_sql [VStr username] d of
       None \<Rightarrow> Inr []
     | Some rows \<Rightarrow> bindE (db_fetch [128] [Some ''''] rows) (\<lambda>rs. Inr (map hd rs)))"

section \<open>Messages\<close>

definition save_sql :: string where
  "save_sql = ''INSERT INTO all_messages_log (session_id, sender, target, content) VALUES (?, ?, ?, ?)''"

definition saveMessageToDB :: "'d db_api \<Rightarrow> (string \<Rightarrow> byte list) \<Rightarrow> string \<Rightarrow> string \<Rightarrow> string \<Rightarrow> 'd \<Rightarrow> fault + 'd" where
  "saveMessageToDB db md5 sender target content d =
     bindE (stmt_prepare db save_sql d) (\<lambda>ok.
     if \<not> ok then Inr d
     else Inr (snd (db_insert db save_sql (map VStr [buildSessionId md5 sender target, sender, target, content]) d)))"

text \<open>
  A batch of the chat log is written with the answers of the same library; \<open>bind\<close> is the answer of
  \<open>mysql_stmt_bind_param\<close>.
\<close>

definition flush_to_db :: "'d db_api \<Rightarrow> (string \<Rightarrow> byte list) \<Rightarrow> bool \<Rightarrow> pending_log list \<Rightarrow> 'd \<Rightarrow> 'd" where
  "flush_to_db db md5 bind batch d =
     (let ans = \<lparr>ans_conn = db_conn db d, ans_stmt = db_stmt db d,
                 ans_prepare = db_prepare db (insert_sql (length batch)) d, ans_bind = bind\<rparr>
      in case flushChatLogsBatch md5 ans batch of
           None \<Rightarrow> d
         | Some (sql, vs) \<Rightarrow> snd (db_insert db sql (map VStr vs) d))"

definition kHistoryMaxRows :: nat where "kHistoryMaxRows = 500"

definition history_sql :: string where
  "history_sql = ''SELECT sender, target, content, created_at FROM all_messages_log '' @
     ''WHERE session_id = ? AND created_at > ? ORDER BY created_at ASC LIMIT ?''"

text \<open>The reply: an array of objects; the flag is \<open>first\<close>.\<close>

definition history_row :: "string list \<Rightarrow> string" where
  \<open>history_row row = ''{"sender":"'' @ row ! 0 @ ''","target":"'' @ row ! 1 @
     ''","content":"'' @ row ! 2 @ ''","timestamp":"'' @ row ! 3 @ ''"}''\<close>

fun history_rows :: "bool \<Rightarrow> string list list \<Rightarrow> string" where
  "history_rows first [] = ''''"
| "history_rows first (row # rows) = (if first then '''' else '','') @ history_row row @ history_rows False rows"

text \<open>\<open>None\<close>: the statement could not be prepared and no reply is made. A failed execution leaves no rows.\<close>

definition historyQuery :: "'d db_api \<Rightarrow> string \<Rightarrow> string \<Rightarrow> 'd \<Rightarrow> fault + string option" where
  "historyQuery db sessionId lastTime d =
     bindE (stmt_prepare db history_sql d) (\<lambda>ok.
     if \<not> ok then Inr None
     else
       let rows = (case db_select db history_sql [VStr sessionId, VStr lastTime, VInt (int kHistoryMaxRows)] d of
                     None \<Rightarrow> [] | Some rows \<Rightarrow> rows)
       in bindE (db_fetch [64, 64, 1024, 64] [None, None, None, None] rows) (\<lambda>rs.
          Inr (Some (''['' @ history_rows True rs @ '']''))))"


section \<open>What is fetched\<close>

definition no_nulls :: "cell list list \<Rightarrow> bool" where
  "no_nulls rows \<longleftrightarrow> (\<forall>row \<in> set rows. None \<notin> set row)"

lemma bind_row_no_null:
  assumes "None \<notin> set row" and "length bufs = length row"
  shows "bind_row bufs row = row"
  using assms(2,1) unfolding bind_row_def by (induction bufs row rule: list_induct2) (auto split: option.splits)

lemma fits_length: "fits sizes row \<Longrightarrow> length row = length sizes"
  by (auto simp: fits_def dest: list_all2_lengthD)

text \<open>Without nulls the loop reads the rows up to the first one that does not fit.\<close>

lemma db_fetch_no_nulls:
  assumes "no_nulls rows" and "length bufs = length sizes"
  shows "db_fetch sizes bufs rows = Inr (map (map the) (takeWhile (fits sizes) rows))"
  using assms
proof (induction rows arbitrary: bufs)
  case (Cons row rows)
  show ?case
  proof (cases "fits sizes row")
    case True
    with Cons.prems have "bind_row bufs row = row" and "None \<notin> set row"
      by (auto simp: no_nulls_def fits_length intro!: bind_row_no_null)
    with Cons True show ?thesis by (simp add: no_nulls_def fits_length)
  qed simp
qed simp


section \<open>Friend lists\<close>

text \<open>
  The documented behaviour of the two statements on the table of friends, \<open>fr\<close> being its contents:
  \<open>INSERT IGNORE\<close> with a unique key on the pair affects one row when the pair is new and none
  otherwise, and the query returns the friends of a user, each once.
\<close>

definition db_up :: "'d db_api \<Rightarrow> bool" where
  "db_up db \<longleftrightarrow> (\<forall>d. db_conn db d \<and> db_stmt db d \<and> (\<forall>sql. db_prepare db sql d))"

definition friend_laws :: "'d db_api \<Rightarrow> ('d \<Rightarrow> (string \<times> string) set) \<Rightarrow> bool" where
  "friend_laws db fr \<longleftrightarrow>
     (\<forall>d u f. fst (db_insert db add_friend_sql [VStr u, VStr f] d) = Some (if (u, f) \<in> fr d then 0 else 1)
        \<and> fr (snd (db_insert db add_friend_sql [VStr u, VStr f] d)) = insert (u, f) (fr d))
   \<and> (\<forall>d u. \<exists>names. db_select db friends_sql [VStr u] d = Some (map (\<lambda>f. [Some f]) names)
        \<and> distinct names \<and> set names = {f. (u, f) \<in> fr d})"

lemma friend_lawsD:
  assumes "friend_laws db fr"
  shows "fst (db_insert db add_friend_sql [VStr u, VStr f] d) = Some (if (u, f) \<in> fr d then 0 else 1)"
    and "fr (snd (db_insert db add_friend_sql [VStr u, VStr f] d)) = insert (u, f) (fr d)"
    and "\<exists>names. db_select db friends_sql [VStr u] d = Some (map (\<lambda>f. [Some f]) names)
        \<and> distinct names \<and> set names = {f. (u, f) \<in> fr d}"
  using assms by (simp_all add: friend_laws_def)

lemma stmt_prepare_up: "db_up db \<Longrightarrow> stmt_prepare db sql d = Inr True"
  by (simp add: stmt_prepare_def db_up_def)

lemma execPair_laws:
  assumes "friend_laws db fr"
  shows "execPair db u f d = (True, if (u, f) \<in> fr d then 0 else 1, snd (db_insert db add_friend_sql [VStr u, VStr f] d))"
  using friend_lawsD(1) [OF assms, of u f d] by (auto simp: execPair_def split: prod.splits)

lemma friend_list_names:
  assumes "db_up db" and "friend_laws db fr" and "\<forall>f. (u, f) \<in> fr d \<longrightarrow> length f \<le> 128"
  shows "\<exists>names. getFriendListFromDB db u d = Inr names \<and> distinct names \<and> set names = {f. (u, f) \<in> fr d}"
proof -
  obtain names where n: "db_select db friends_sql [VStr u] d = Some (map (\<lambda>f. [Some f]) names)"
      "distinct names" "set names = {f. (u, f) \<in> fr d}"
    using friend_lawsD(3) [OF assms(2), of u d] by blast
  have tw: "takeWhile (fits [128]) (map (\<lambda>f. [Some f]) names) = map (\<lambda>f. [Some f]) names"
    using n(3) assms(3) by (auto simp: takeWhile_eq_all_conv fits_def)
  have "no_nulls (map (\<lambda>f. [Some f]) names)" by (auto simp: no_nulls_def)
  then have "db_fetch [128] [Some ''''] (map (\<lambda>f. [Some f]) names) = Inr (map (\<lambda>f. [f]) names)"
    using db_fetch_no_nulls [of "map (\<lambda>f. [Some f]) names" "[Some '''']" "[128]"] unfolding tw by (simp add: comp_def)
  then have "getFriendListFromDB db u d = Inr names"
    using n(1) assms(1) by (simp add: getFriendListFromDB_def stmt_prepare_up comp_def)
  with n show ?thesis by blast
qed

text \<open>
  (C25) Friendship is entered in both directions. With a table of friends that keeps its
  unique key, \<open>addFriendToDB\<close> adds both pairs and nothing else, it reports success exactly when at least
  one of them is new, and afterwards each of the two is in the other's list, which names every
  friend once (for names that fit the buffer of 128 bytes).
\<close>

theorem add_friend_both_ways:
  assumes "db_up db" and "friend_laws db fr"
    and "\<forall>(x, y) \<in> insert (u, f) (insert (f, u) (fr d)). length y \<le> 128"
  shows "\<exists>d' us fs. addFriendToDB db u f d = Inr ((u, f) \<notin> fr d \<or> (f, u) \<notin> insert (u, f) (fr d), d')
    \<and> fr d' = insert (u, f) (insert (f, u) (fr d))
    \<and> getFriendListFromDB db u d' = Inr us \<and> f \<in> set us \<and> distinct us
    \<and> getFriendListFromDB db f d' = Inr fs \<and> u \<in> set fs \<and> distinct fs"
proof -
  let ?d1 = "snd (db_insert db add_friend_sql [VStr u, VStr f] d)"
  let ?d2 = "snd (db_insert db add_friend_sql [VStr f, VStr u] ?d1)"
  have f1: "fr ?d1 = insert (u, f) (fr d)" using friend_lawsD(2) [OF assms(2)] by simp
  have m: "(f, u) \<in> fr ?d1 \<longleftrightarrow> f = u \<or> (f, u) \<in> fr d" unfolding f1 by auto
  have f2: "fr ?d2 = insert (u, f) (insert (f, u) (fr d))"
    unfolding friend_lawsD(2) [OF assms(2), of f u ?d1] f1 by (rule insert_commute)
  have "addFriendToDB db u f d = Inr ((u, f) \<notin> fr d \<or> (f, u) \<notin> insert (u, f) (fr d), ?d2)"
    unfolding addFriendToDB_def stmt_prepare_up [OF assms(1)] execPair_laws [OF assms(2)] by (simp add: m)
  moreover obtain us where "getFriendListFromDB db u ?d2 = Inr us" "distinct us" "f \<in> set us"
    using friend_list_names [OF assms(1,2), of u ?d2] assms(3) unfolding f2 by auto
  moreover obtain fs where "getFriendListFromDB db f ?d2 = Inr fs" "distinct fs" "u \<in> set fs"
    using friend_list_names [OF assms(1,2), of f ?d2] assms(3) unfolding f2 by auto
  ultimately show ?thesis using f2 by blast
qed


text \<open>A database held in lists, which meets these laws.\<close>

record mem_db =
  md_accounts :: "(string \<times> string) list"
  md_friends :: "(string \<times> string) list"
  md_log :: "cell list list"

definition mem_select :: "string \<Rightarrow> db_value list \<Rightarrow> mem_db \<Rightarrow> cell list list option" where
  "mem_select sql ps d =
     (case ps of
        [] \<Rightarrow> None
      | VInt n # ps \<Rightarrow> None
      | VStr u # ps \<Rightarrow>
          if sql = friends_sql then Some (map (\<lambda>f. [Some f]) (remdups (map snd (filter (\<lambda>p. fst p = u) (md_friends d)))))
          else if sql = login_sql then Some (case map_of (md_accounts d) u of None \<Rightarrow> [] | Some pw \<Rightarrow> [[Some pw]])
          else if sql = user_sql then Some (if map_of (md_accounts d) u = None then [] else [[Some ''1'']])
          else Some (map tl (filter (\<lambda>row. hd row = Some u) (md_log d))))"

definition mem_insert :: "string \<Rightarrow> db_value list \<Rightarrow> mem_db \<Rightarrow> nat option \<times> mem_db" where
  "mem_insert sql ps d =
     (if sql = add_friend_sql then
        (case ps of
           [VStr u, VStr f] \<Rightarrow> (Some (if (u, f) \<in> set (md_friends d) then 0 else 1),
                                d\<lparr>md_friends := List.insert (u, f) (md_friends d)\<rparr>)
         | _ \<Rightarrow> (None, d))
      else (Some 1, d))"

definition mem_mysql :: "mem_db db_api" where
  "mem_mysql = \<lparr>db_conn = (\<lambda>_. True), db_stmt = (\<lambda>_. True), db_prepare = (\<lambda>_ _. True),
     db_select = mem_select, db_insert = mem_insert\<rparr>"

lemma mem_mysql_laws: "friend_laws mem_mysql (\<lambda>d. set (md_friends d))" "db_up mem_mysql"
proof -
  show "friend_laws mem_mysql (\<lambda>d. set (md_friends d))"
    unfolding friend_laws_def
  proof (intro conjI allI)
    fix d :: mem_db and u
    let ?names = "remdups (map snd (filter (\<lambda>p. fst p = u) (md_friends d)))"
    have "set ?names = {f. (u, f) \<in> set (md_friends d)}" by force
    then show "\<exists>names. db_select mem_mysql friends_sql [VStr u] d = Some (map (\<lambda>f. [Some f]) names)
        \<and> distinct names \<and> set names = {f. (u, f) \<in> set (md_friends d)}"
      by (intro exI [of _ ?names]) (simp add: mem_mysql_def mem_select_def)
  qed (auto simp: mem_mysql_def mem_insert_def)
qed (simp add: db_up_def mem_mysql_def)

definition long_text :: string where "long_text = replicate 1025 (CHR ''x'')"

lemma length_long_text [simp]: "length long_text = 1025" by (simp only: long_text_def length_replicate)

definition small_db :: mem_db where
  "small_db = \<lparr>md_accounts = [(''alice'', ''secret''), (''bob'', ''hidden'')], md_friends = [],
     md_log = [[Some ''s'', Some ''alice'', Some ''bob'', Some ''hi'', Some ''t1''],
               [Some ''s'', Some ''bob'', Some ''alice'', Some long_text, Some ''t2''],
               [Some ''s'', Some ''alice'', Some ''bob'', Some ''bye'', Some ''t3'']]\<rparr>"

theorem add_friend_both_ways_witness:
  "\<exists>d' us fs. addFriendToDB mem_mysql ''alice'' ''bob'' small_db = Inr (True, d')
    \<and> getFriendListFromDB mem_mysql ''alice'' d' = Inr us \<and> ''bob'' \<in> set us
    \<and> getFriendListFromDB mem_mysql ''bob'' d' = Inr fs \<and> ''alice'' \<in> set fs"
proof -
  have "\<forall>(x, y) \<in> insert (''alice'', ''bob'') (insert (''bob'', ''alice'') (set (md_friends small_db))). length y \<le> 128"
    by (simp add: small_db_def)
  from add_friend_both_ways [OF mem_mysql_laws(2,1) this] show ?thesis by (auto simp: small_db_def)
qed

section \<open>Logins and history\<close>

text \<open>
  (C26) With a handle, a statement and passwords that are not \<open>NULL\<close>, a login succeeds exactly when the
  query for the user's account is prepared and gives a password of at most 64 bytes, the size of the
  buffer, that equals the one in the request.
\<close>

theorem login_checks_password:
  assumes "db_conn db d" and "db_stmt db d"
    and "\<forall>rows. db_select db login_sql [VStr user] d = Some rows \<longrightarrow> no_nulls rows \<and> (\<forall>row \<in> set rows. length row = 1)"
  shows "\<exists>ok s'. checkLoginFromDatabase db user pass d s = Inr (ok, s') \<and> s_reg s' = s_reg s \<and> s_ctxs s' = s_ctxs s
    \<and> (ok \<longleftrightarrow> db_prepare db login_sql d \<and> length pass \<le> 64
         \<and> (\<exists>rows. db_select db login_sql [VStr user] d = Some ([Some pass] # rows)))"
proof (cases "db_prepare db login_sql d")
  case False
  then show ?thesis using assms(1,2) by (intro exI [of _ False]) (simp add: checkLoginFromDatabase_def stmt_prepare_def)
next
  case True
  show ?thesis
  proof (cases "db_select db login_sql [VStr user] d")
    case None
    with True show ?thesis using assms(1,2)
      by (intro exI [of _ False]) (simp add: checkLoginFromDatabase_def stmt_prepare_def)
  next
    case (Some rows)
    with assms(3) have "no_nulls (take 1 rows)" by (auto simp: no_nulls_def dest: in_set_takeD)
    then have f: "db_fetch [64] [None] (take 1 rows) = Inr (map (map the) (takeWhile (fits [64]) (take 1 rows)))"
      by (rule db_fetch_no_nulls) simp
    have "map (map the) (takeWhile (fits [64]) (take 1 rows)) = [[pass]] \<longleftrightarrow>
        length pass \<le> 64 \<and> (\<exists>rest. rows = [Some pass] # rest)"
      using assms(3) Some by (cases rows) (auto simp: fits_def no_nulls_def length_Suc_conv split: option.splits)
    with True Some f show ?thesis using assms(1,2)
      by (simp add: checkLoginFromDatabase_def stmt_prepare_def)
  qed
qed

theorem login_checks_password_witness:
  "\<exists>ok s'. checkLoginFromDatabase mem_mysql ''alice'' ''secret'' small_db empty_server = Inr (ok, s') \<and> ok"
proof -
  have sel: "db_select mem_mysql login_sql [VStr ''alice''] small_db = Some [[Some ''secret'']]"
    by (simp add: mem_mysql_def mem_select_def small_db_def login_sql_def friends_sql_def)
  have "\<forall>rows. db_select mem_mysql login_sql [VStr ''alice''] small_db = Some rows \<longrightarrow>
      no_nulls rows \<and> (\<forall>row \<in> set rows. length row = 1)"
    unfolding sel by (simp add: no_nulls_def)
  from login_checks_password [OF _ _ this, of "''secret''" empty_server] show ?thesis
    unfolding sel by (auto simp: mem_mysql_def)
qed

text \<open>
  The history that a client gets ends at the first message that is longer than the
  buffer of 1024 bytes (or whose names or time do not fit theirs): this message and every
  later one is left out of the reply, although the query returned them.
\<close>

theorem history_ends_at_long_message:
  assumes "db_conn db d" and "db_stmt db d" and "db_prepare db history_sql d"
    and "db_select db history_sql [VStr sessionId, VStr lastTime, VInt 500] d = Some (old @ long # recent)"
    and "no_nulls (old @ long # recent)" and "\<forall>row \<in> set old. fits [64, 64, 1024, 64] row"
    and "length long = 4" and "\<exists>text. long ! 2 = Some text \<and> 1024 < length text"
  shows "historyQuery db sessionId lastTime d = Inr (Some (''['' @ history_rows True (map (map the) old) @ '']''))"
proof -
  have "\<not> fits [64, 64, 1024, 64] long"
    using assms(7,8) by (auto simp: fits_def list_all2_conv_all_nth intro!: exI [of _ 2])
  then have "takeWhile (fits [64, 64, 1024, 64]) (old @ long # recent) = old"
    using assms(6) by (simp add: takeWhile_append2)
  then have "db_fetch [64, 64, 1024, 64] [None, None, None, None] (old @ long # recent) = Inr (map (map the) old)"
    using db_fetch_no_nulls [OF assms(5), of "[None, None, None, None]" "[64, 64, 1024, 64]"] by simp
  then show ?thesis
    using assms(1-4) by (simp add: historyQuery_def stmt_prepare_def kHistoryMaxRows_def)
qed

theorem history_ends_at_long_message_witness:
  \<open>historyQuery mem_mysql ''s'' ''t0'' small_db =
     Inr (Some (''[{"sender":"alice","target":"bob","content":"hi","timestamp":"t1"}]''))\<close>
proof -
  let ?old = "[[Some ''alice'', Some ''bob'', Some ''hi'', Some ''t1'']]"
  let ?long = "[Some ''bob'', Some ''alice'', Some long_text, Some ''t2'']"
  let ?recent = "[[Some ''alice'', Some ''bob'', Some ''bye'', Some ''t3'']]"
  have sel: "db_select mem_mysql history_sql [VStr ''s'', VStr ''t0'', VInt 500] small_db = Some (?old @ ?long # ?recent)"
    by (simp add: mem_mysql_def mem_select_def small_db_def login_sql_def friends_sql_def user_sql_def history_sql_def)
  have "historyQuery mem_mysql ''s'' ''t0'' small_db = Inr (Some (''['' @ history_rows True (map (map the) ?old) @ '']''))"
    by (rule history_ends_at_long_message [OF _ _ _ sel])
      (auto simp: mem_mysql_def no_nulls_def fits_def)
  then show ?thesis by (simp add: history_row_def)
qed

end
