(* ===== verification/Friends.thy ===== *)
theory Friends
  imports Pending Database
begin

text \<open>
  The friend list with its cache (\<open>EpollChatServer.cpp\<close>): \<open>buildFriendListJson\<close>, \<open>getFriendListJson\<close> and
  \<open>invalidateFriendListCache\<close>. The list comes from the database, its JSON text is kept in Redis for
  300 seconds under a key of the user.
\<close>

section \<open>Operations\<close>

text \<open>The loop of \<open>buildFriendListJson\<close>: a comma behind every name but the last.\<close>

fun friend_names :: "string list \<Rightarrow> string" where
  "friend_names [] = ''''"
| \<open>friend_names (f # fs) = ''"'' @ f @ ''"'' @ (if fs \<noteq> [] then '','' else '''') @ friend_names fs\<close>

definition buildFriendListJson :: "string list \<Rightarrow> string" where
  \<open>buildFriendListJson friends = ''{"friends":['' @ friend_names friends @ '']}''\<close>

definition cacheKey :: "string \<Rightarrow> string" where "cacheKey username = ''chat:friends:'' @ username"

definition getFriendListJson :: "'r redis_api \<Rightarrow> 'd db_api \<Rightarrow> string \<Rightarrow> 'd \<Rightarrow> 'r \<Rightarrow> fault + string \<times> 'r" where
  "getFriendListJson api db username d r =
     (if username = '''' \<or> \<not> rd_conn api r
      then bindE (getFriendListFromDB db username d) (\<lambda>friends. Inr (buildFriendListJson friends, r))
      else
        case (if rd_ok api r then (rd_get api (c_str (cacheKey username)) r, r) else (None, rd_fail api r)) of
          (Some cached, r) \<Rightarrow> Inr (c_str cached, r)
        | (None, r) \<Rightarrow>
            bindE (getFriendListFromDB db username d) (\<lambda>friends.
            let jsonResponse = buildFriendListJson friends in
            Inr (jsonResponse, cmd api (rd_setex api (c_str (cacheKey username)) 300 (c_str jsonResponse)) r)))"

definition invalidateFriendListCache :: "'r redis_api \<Rightarrow> string \<Rightarrow> 'r \<Rightarrow> 'r" where
  "invalidateFriendListCache api username r =
     (if username = '''' then r
      else if \<not> rd_conn api r then r
      else cmd api (rd_del api (c_str (cacheKey username))) r)"

section \<open>Properties\<close>

lemma length_friend_names:
  assumes "\<forall>f \<in> set fs. length f \<le> 128"
  shows "length (friend_names fs) \<le> 131 * length fs"
  using assms by (induction fs) auto

lemma friend_names_no_nul: "no_nul (friend_names fs) \<longleftrightarrow> (\<forall>f \<in> set fs. no_nul f)"
  by (induction fs) (auto simp: no_nul_def)

lemma cacheKey_simps [simp]: "no_nul (cacheKey u) \<longleftrightarrow> no_nul u" "cacheKey u = cacheKey v \<longleftrightarrow> u = v"
  by (auto simp: cacheKey_def no_nul_def)

lemma getFriendListJson_up:
  assumes "redis_up api" and "u \<noteq> ''''" and "no_nul u"
  shows "getFriendListJson api db u d r =
    (case rd_get api (cacheKey u) r of
       Some cached \<Rightarrow> Inr (c_str cached, r)
     | None \<Rightarrow> bindE (getFriendListFromDB db u d) (\<lambda>friends.
         Inr (buildFriendListJson friends, rd_setex api (cacheKey u) 300 (c_str (buildFriendListJson friends)) r)))"
  using assms by (auto simp: getFriendListJson_def redis_up_def cmd_def Let_def split: option.splits)

text \<open>
  (C27) After an invalidation the friend list is that of the database, and it is cached:
  the first request reads the database and stores the text, every further request gets the same
  text from the cache, whatever the database holds by then, until the entry is invalidated (or
  expires). So a friend added meanwhile is not shown unless the invalidation runs.
\<close>

theorem friend_list_cached_until_invalidated:
  assumes "redis_laws api" and "redis_up api" and "u \<noteq> ''''" and "no_nul u"
    and "getFriendListFromDB db u d = Inr friends" and "\<forall>f \<in> set friends. no_nul f"
  shows "\<exists>r1. getFriendListJson api db u d (invalidateFriendListCache api u r) = Inr (buildFriendListJson friends, r1)
    \<and> (\<forall>d'. getFriendListJson api db u d' r1 = Inr (buildFriendListJson friends, r1))
    \<and> (\<forall>d' friends'. getFriendListFromDB db u d' = Inr friends' \<longrightarrow>
         (\<exists>r2. getFriendListJson api db u d' (invalidateFriendListCache api u r1) = Inr (buildFriendListJson friends', r2)))"
proof -
  have inv: "invalidateFriendListCache api u r = rd_del api (cacheKey u) r" for r
    using assms(2-4) by (simp add: invalidateFriendListCache_def redis_up_def cmd_def)
  have miss: "rd_get api (cacheKey u) (rd_del api (cacheKey u) r) = None" for r
    using get_del [OF assms(1)] by simp
  have nn: "c_str (buildFriendListJson friends) = buildFriendListJson friends"
    using assms(6) friend_names_no_nul [of friends] by (intro c_str_no_nul) (simp add: buildFriendListJson_def no_nul_def)
  let ?r1 = "rd_setex api (cacheKey u) 300 (buildFriendListJson friends) (rd_del api (cacheKey u) r)"
  have "getFriendListJson api db u d (invalidateFriendListCache api u r) = Inr (buildFriendListJson friends, ?r1)"
    using assms(5) nn by (simp add: getFriendListJson_up [OF assms(2-4)] inv miss)
  moreover have "getFriendListJson api db u d' ?r1 = Inr (buildFriendListJson friends, ?r1)" for d'
    using nn by (simp add: getFriendListJson_up [OF assms(2-4)] get_setex [OF assms(1)])
  moreover have "\<exists>r2. getFriendListJson api db u d' (invalidateFriendListCache api u r) = Inr (buildFriendListJson friends', r2)"
    if "getFriendListFromDB db u d' = Inr friends'" for d' friends' r
    using that by (simp add: getFriendListJson_up [OF assms(2-4)] inv miss)
  ultimately show ?thesis by blast
qed

theorem friend_list_cached_until_invalidated_witness:
  \<open>\<exists>r1. getFriendListJson mem_redis mem_mysql ''alice'' small_db (invalidateFriendListCache mem_redis ''alice'' empty_store)
      = Inr (''{"friends":[]}'', r1)
    \<and> getFriendListJson mem_redis mem_mysql ''alice'' (small_db\<lparr>md_friends := [(''alice'', ''bob'')]\<rparr>) r1 = Inr (''{"friends":[]}'', r1)
    \<and> (\<exists>r2. getFriendListJson mem_redis mem_mysql ''alice'' (small_db\<lparr>md_friends := [(''alice'', ''bob'')]\<rparr>)
          (invalidateFriendListCache mem_redis ''alice'' r1) = Inr (''{"friends":["bob"]}'', r2))\<close>
proof -
  have n: "no_nul ''alice''" by (simp add: no_nul_def)
  have f0: "getFriendListFromDB mem_mysql ''alice'' small_db = Inr []"
    by (simp add: getFriendListFromDB_def stmt_prepare_up mem_mysql_laws) (simp add: mem_mysql_def mem_select_def small_db_def)
  have f1: "getFriendListFromDB mem_mysql ''alice'' (small_db\<lparr>md_friends := [(''alice'', ''bob'')]\<rparr>) = Inr [''bob'']"
    by (simp add: getFriendListFromDB_def stmt_prepare_up mem_mysql_laws)
      (simp add: mem_mysql_def mem_select_def small_db_def fits_def bind_row_def)
  have j: \<open>buildFriendListJson [] = ''{"friends":[]}''\<close> \<open>buildFriendListJson [''bob''] = ''{"friends":["bob"]}''\<close>
    by (simp_all add: buildFriendListJson_def)
  show ?thesis
    using friend_list_cached_until_invalidated [OF mem_redis_laws _ n f0, of empty_store] f1 unfolding j(1)
    by (fastforce simp: j(2))
qed

end
