(* ===== verification/Chat.thy ===== *)
theory Chat
  imports Friends
begin

text \<open>
  The business logic (\<open>EpollChatServer.cpp\<close>): \<open>processPacket\<close> with its message types, and the tasks
  it hands to the database and Redis threads. A task is a value of the types \<open>db_task\<close> and
  \<open>redis_task\<close>, which hold what the closure captures; \<open>runDbTask\<close> and \<open>runRedisTask\<close> are the bodies.
\<close>

section \<open>What a run depends on\<close>

text \<open>
  The hash of names, the memory pool, the liveness of weak pointers, the digest function, the
  readings of the clocks and the formatted time.
\<close>

record env =
  e_hash :: "string \<Rightarrow> size_t"
  e_alloc :: allocator
  e_alive :: "ctx_ptr \<Rightarrow> bool"
  e_md5 :: "string \<Rightarrow> byte list"
  e_clock :: "u64 list"
  e_time :: string
  e_nowMs :: int
  e_dueClock :: "string \<Rightarrow> int"
  e_lookupNs :: int
  e_sendNs :: int

abbreviation reply :: "env \<Rightarrow> ctx_ptr option \<Rightarrow> u16 \<Rightarrow> string \<Rightarrow> server \<Rightarrow> fault + server" where
  "reply e \<equiv> sendPacket (e_hash e) (e_alloc e)"

definition fd_of :: "ctx_ptr option \<Rightarrow> server \<Rightarrow> int" where
  "fd_of ctx s = (case ctx of Some p \<Rightarrow> c_fd (s_ctxs s p) | None \<Rightarrow> - 1)"

definition account_of :: "ctx_ptr option \<Rightarrow> server \<Rightarrow> fault + string" where
  "account_of ctx s = bindE (deref ctx) (\<lambda>p. Inr (c_accountID (s_ctxs s p)))"

definition set_account :: "ctx_ptr option \<Rightarrow> string \<Rightarrow> server \<Rightarrow> fault + server" where
  "set_account ctx a s = bindE (deref ctx) (\<lambda>p. Inr (set_ctx p ((s_ctxs s p)\<lparr>c_accountID := a\<rparr>) s))"

section \<open>Replies\<close>

definition MSG_TYPE_ACK :: u16 where "MSG_TYPE_ACK = 13"

definition result_fail :: string where \<open>result_fail = ''{"result":"fail"}''\<close>
definition result_success :: string where \<open>result_success = ''{"result":"success"}''\<close>
definition system_busy :: string where \<open>system_busy = ''{"result":"fail","message":"system_busy"}''\<close>

text \<open>The messages in Chinese, as the bytes of their UTF-8 encoding.\<close>

definition fail_message :: "string \<Rightarrow> string" where
  \<open>fail_message m = ''{"result":"fail","message":"'' @ m @ ''"}''\<close>

definition not_yourself :: string where
  "not_yourself = fail_message
     [CHR 0xE4, CHR 0xB8, CHR 0x8D, CHR 0xE8, CHR 0x83, CHR 0xBD, CHR 0xE6, CHR 0xB7, CHR 0xBB,
      CHR 0xE5, CHR 0x8A, CHR 0xA0, CHR 0xE8, CHR 0x87, CHR 0xAA, CHR 0xE5, CHR 0xB7, CHR 0xB1]"

definition no_such_user :: string where
  "no_such_user = fail_message
     [CHR 0xE7, CHR 0x94, CHR 0xA8, CHR 0xE6, CHR 0x88, CHR 0xB7, CHR 0xE4, CHR 0xB8, CHR 0x8D,
      CHR 0xE5, CHR 0xAD, CHR 0x98, CHR 0xE5, CHR 0x9C, CHR 0xA8]"

definition already_friends :: string where
  "already_friends = fail_message
     [CHR 0xE5, CHR 0xB7, CHR 0xB2, CHR 0xE7, CHR 0xBB, CHR 0x8F, CHR 0xE6, CHR 0x98, CHR 0xAF,
      CHR 0xE5, CHR 0xA5, CHR 0xBD, CHR 0xE5, CHR 0x8F, CHR 0x8B]"

definition friend_busy :: string where
  "friend_busy = fail_message
     [CHR 0xE7, CHR 0xB3, CHR 0xBB, CHR 0xE7, CHR 0xBB, CHR 0x9F, CHR 0xE7, CHR 0xB9, CHR 0x81,
      CHR 0xE5, CHR 0xBF, CHR 0x99]"

definition friend_added :: "string \<Rightarrow> string" where
  \<open>friend_added f = ''{"result":"success","friend":"'' @ f @ ''"}''\<close>

definition ack_body :: "u64 \<Rightarrow> string" where
  \<open>ack_body msgId = ''{"result":"received","type":1,"msg_id":"'' @ to_string (unat msgId) @ ''"}''\<close>

section \<open>Packets\<close>

text \<open>Type 3: identification.\<close>

definition processIdentify :: "env \<Rightarrow> ctx_ptr option \<Rightarrow> string \<Rightarrow> server \<Rightarrow> fault + server" where
  "processIdentify e ctx body s =
     (let senderID = extractJsonValue body ''sender'' in
      if senderID \<noteq> '''' then
        set_account ctx senderID (s\<lparr>s_reg := setOnlineUser (e_hash e) senderID ctx (s_reg s)\<rparr>)
      else Inr s)"

text \<open>Type 1: a chat message, to everybody or to one user.\<close>

fun send_all :: "env \<Rightarrow> ctx_ptr list \<Rightarrow> u16 \<Rightarrow> string \<Rightarrow> server \<Rightarrow> fault + server" where
  "send_all e [] type data s = Inr s"
| "send_all e (p # targets) type data s = bindE (reply e (Some p) type data s) (send_all e targets type data)"

definition chat_fields :: "string \<Rightarrow> string \<times> string \<times> string" where
  "chat_fields body =
     (case parseChatFieldsFast body of
        Some found \<Rightarrow> found
      | None \<Rightarrow> (extractJsonValue body ''sender'', extractJsonValue body ''target'', extractJsonValue body ''message''))"

definition sendBroadcast :: "env \<Rightarrow> ctx_ptr option \<Rightarrow> string \<Rightarrow> string \<Rightarrow> server \<Rightarrow> fault + server" where
  "sendBroadcast e ctx enrichedBody ackBody s =
     bindE (send_all e (snapshotAllClients (s_reg s)) 1 enrichedBody s) (\<lambda>s.
     reply e ctx MSG_TYPE_ACK ackBody s)"

definition sendPrivate :: "env \<Rightarrow> ctx_ptr option \<Rightarrow> string \<Rightarrow> string \<Rightarrow> string \<Rightarrow> u64 \<Rightarrow> server \<Rightarrow> server" where
  "sendPrivate e ctx target enrichedBody ackBody msgId s =
     (let targetCtx = getOnlineCtx (e_hash e) (e_alive e) (s_reg s) target;
          s = count_up (\<lambda>g. g\<lparr>g_privateGetOnlineNs := g_privateGetOnlineNs g + e_lookupNs e\<rparr>) s;
          expectedSenderFd = fd_of ctx s;
          (queued, s) = enqueueRedisTask (Deliver ctx expectedSenderFd target targetCtx enrichedBody ackBody msgId) s;
          s = count_up (\<lambda>g. g\<lparr>g_privateSendNs := g_privateSendNs g + e_sendNs e\<rparr>) s
      in count_up (\<lambda>g. g\<lparr>g_privateMsgCount := g_privateMsgCount g + 1\<rparr>) s)"

definition processChat :: "env \<Rightarrow> ctx_ptr option \<Rightarrow> string \<Rightarrow> server \<Rightarrow> fault + server" where
  "processChat e ctx body s =
     (case chat_fields body of (senderID, target, content) \<Rightarrow>
      case nextId (s_ids s) (e_clock e) of
        None \<Rightarrow> Inl Diverges
      | Some (msgId, ids, _) \<Rightarrow>
          let s = s\<lparr>s_ids := ids\<rparr>;
              enrichedBody = buildEnrichedChatBodyWithMsgId msgId senderID target content (e_time e);
              ackBody = ack_body msgId
          in
          bindE (if target = ''broadcast'' then sendBroadcast e ctx enrichedBody ackBody s
                 else Inr (sendPrivate e ctx target enrichedBody ackBody msgId s)) (\<lambda>s.
          Inr (s\<lparr>s_chatLog := enqueueChatLog senderID target content (s_chatLog s)\<rparr>)))"

text \<open>Type 4: login.\<close>

definition processLogin :: "env \<Rightarrow> ctx_ptr option \<Rightarrow> string \<Rightarrow> server \<Rightarrow> fault + server" where
  "processLogin e ctx body s =
     (let s = count_up (\<lambda>g. g\<lparr>g_loginIn := g_loginIn g + 1\<rparr>) s;
          username = extractJsonValue body ''username'';
          password = extractJsonValue body ''password'';
          expectedFd = fd_of ctx s
      in case enqueueDbTask (Login ctx expectedFd username password) s of
           (True, s) \<Rightarrow> Inr s
         | (False, s) \<Rightarrow> reply e ctx 5 system_busy (count_up (\<lambda>g. g\<lparr>g_loginFail := g_loginFail g + 1\<rparr>) s))"

text \<open>Type 13: acknowledgement of messages.\<close>

definition ack_ids :: "string \<Rightarrow> u64 list" where
  "ack_ids body =
     (let msgIds = parseJsonUint64ArrayFast body ''msg_ids'' 256 in
      if msgIds \<noteq> [] then msgIds
      else
        let msgIdStr = extractJsonValue body ''msg_id'' in
        if msgIdStr = '''' then []
        else case stoull msgIdStr of None \<Rightarrow> [] | Some one \<Rightarrow> if one > 0 then [one] else [])"

definition processAck :: "ctx_ptr option \<Rightarrow> string \<Rightarrow> server \<Rightarrow> server" where
  "processAck ctx body s =
     (let user = extractJsonValue body ''user'';
          user = (if user = '''' then (case ctx of Some p \<Rightarrow> c_accountID (s_ctxs s p) | None \<Rightarrow> '''') else user)
      in if user = '''' then s
         else let msgIds = ack_ids body in
           if msgIds = [] then s else snd (enqueueRedisTask (Ack user msgIds) s))"

text \<open>Type 7: history.\<close>

definition processHistory :: "env \<Rightarrow> ctx_ptr option \<Rightarrow> string \<Rightarrow> server \<Rightarrow> fault + server" where
  "processHistory e ctx body s =
     (let lastTime = extractJsonValue body ''last_timestamp'';
          peer = extractJsonValue body ''peer'';
          peer = (if peer = '''' then extractJsonValue body ''target'' else peer)
      in bindE (account_of ctx s) (\<lambda>currentUser.
         if currentUser = '''' \<or> peer = '''' then reply e ctx 8 ''[]'' s
         else
           let expectedFd = fd_of ctx s;
               sessionId = buildSessionId (e_md5 e) currentUser peer
           in case enqueueDbTask (History ctx expectedFd lastTime currentUser sessionId) s of
                (True, s) \<Rightarrow> Inr s
              | (False, s) \<Rightarrow> reply e ctx 8 ''[]'' s))"

text \<open>Type 9: adding a friend.\<close>

definition processAddFriend :: "env \<Rightarrow> ctx_ptr option \<Rightarrow> string \<Rightarrow> server \<Rightarrow> fault + server" where
  "processAddFriend e ctx body s =
     (let targetFriend = extractJsonValue body ''friend'' in
      bindE (account_of ctx s) (\<lambda>currentUser.
      if currentUser = '''' then Inr s
      else if targetFriend = currentUser then reply e ctx 10 not_yourself s
      else
        let expectedFd = fd_of ctx s in
        case enqueueDbTask (AddFriend ctx expectedFd currentUser targetFriend) s of
          (True, s) \<Rightarrow> Inr s
        | (False, s) \<Rightarrow> if isCurrentSessionValid s ctx expectedFd then reply e ctx 10 friend_busy s else Inr s))"

text \<open>Type 11: the friend list.\<close>

definition processFriendList :: "env \<Rightarrow> ctx_ptr option \<Rightarrow> server \<Rightarrow> fault + server" where
  \<open>processFriendList e ctx s =
     bindE (account_of ctx s) (\<lambda>currentUser.
     if currentUser = '''' then Inr s
     else
       let expectedFd = fd_of ctx s in
       case enqueueRedisTask (FriendList ctx expectedFd currentUser) s of
         (True, s) \<Rightarrow> Inr s
       | (False, s) \<Rightarrow> reply e ctx 12 ''{"friends":[]}'' s)\<close>

definition processPacket :: "env \<Rightarrow> ctx_ptr option \<Rightarrow> u16 \<Rightarrow> string \<Rightarrow> server \<Rightarrow> fault + server" where
  "processPacket e ctx msgType body s =
     (if msgType = 3 then processIdentify e ctx body s
      else if msgType = 1 then processChat e ctx body s
      else if msgType = 2 then reply e ctx 2 '''' s
      else if msgType = 4 then processLogin e ctx body s
      else if msgType = MSG_TYPE_ACK then Inr (processAck ctx body s)
      else if msgType = 7 then processHistory e ctx body s
      else if msgType = 9 then processAddFriend e ctx body s
      else if msgType = 11 then processFriendList e ctx s
      else Inr s)"

section \<open>Tasks of the database threads\<close>

definition reply_valid :: "env \<Rightarrow> ctx_ptr option \<Rightarrow> int \<Rightarrow> u16 \<Rightarrow> string \<Rightarrow> server \<Rightarrow> fault + server" where
  "reply_valid e ctx expectedFd type data s =
     (if isCurrentSessionValid s ctx expectedFd then reply e ctx type data s else Inr s)"

definition runLogin :: "env \<Rightarrow> 'r redis_api \<Rightarrow> 'd db_api \<Rightarrow> ctx_ptr option \<Rightarrow> int \<Rightarrow> string \<Rightarrow> string
    \<Rightarrow> server \<Rightarrow> 'r \<Rightarrow> 'd \<Rightarrow> fault + server \<times> 'r" where
  "runLogin e api db ctx expectedFd username password s r d =
     (if \<not> isCurrentSessionValid s ctx expectedFd then Inr (s, r)
      else bindE (checkLoginFromDatabase db username password d s) (\<lambda>(ok, s).
        if \<not> ok then
          bindE (reply_valid e ctx expectedFd 5 result_fail (count_up (\<lambda>g. g\<lparr>g_loginFail := g_loginFail g + 1\<rparr>) s))
            (\<lambda>s. Inr (s, r))
        else
          let s = count_up (\<lambda>g. g\<lparr>g_loginOk := g_loginOk g + 1\<rparr>) s in
          if \<not> isCurrentSessionValid s ctx expectedFd then Inr (s, r)
          else
            bindE (set_account ctx username (s\<lparr>s_reg := setOnlineUser (e_hash e) username ctx (s_reg s)\<rparr>)) (\<lambda>s.
            bindE (reply e ctx 5 result_success s) (\<lambda>s.
            bindE (if isCurrentSessionValid s ctx expectedFd then
                     bindE (getFriendListJson api db username d r) (\<lambda>(friends, r).
                     bindE (reply e ctx 12 friends s) (\<lambda>s. Inr (s, r)))
                   else Inr (s, r)) (\<lambda>(s, r).
            if isCurrentSessionValid s ctx expectedFd then
              dispatchDueMessagesForUser api (e_hash e) (e_alloc e) (e_nowMs e) (e_dueClock e) username ctx True s r
            else Inr (s, r))))))"

definition runHistory :: "env \<Rightarrow> 'd db_api \<Rightarrow> ctx_ptr option \<Rightarrow> int \<Rightarrow> string \<Rightarrow> string \<Rightarrow> server \<Rightarrow> 'd \<Rightarrow> fault + server" where
  "runHistory e db ctx expectedFd lastTime sessionId s d =
     bindE (historyQuery db sessionId lastTime d) (\<lambda>response.
     case response of None \<Rightarrow> Inr s | Some jsonResponse \<Rightarrow> reply_valid e ctx expectedFd 8 jsonResponse s)"

definition runAddFriend :: "env \<Rightarrow> 'd db_api \<Rightarrow> ctx_ptr option \<Rightarrow> int \<Rightarrow> string \<Rightarrow> string \<Rightarrow> server \<Rightarrow> 'd
    \<Rightarrow> fault + server \<times> 'd" where
  "runAddFriend e db ctx expectedFd currentUser targetFriend s d =
     bindE (userExistsInDB db targetFriend d) (\<lambda>exists.
     if \<not> exists then bindE (reply_valid e ctx expectedFd 10 no_such_user s) (\<lambda>s. Inr (s, d))
     else
       bindE (addFriendToDB db currentUser targetFriend d) (\<lambda>(added, d).
       if added then
         let s = snd (enqueueRedisTask (Invalidate currentUser targetFriend) s) in
         bindE (reply_valid e ctx expectedFd 10 (friend_added targetFriend) s) (\<lambda>s. Inr (s, d))
       else bindE (reply_valid e ctx expectedFd 10 already_friends s) (\<lambda>s. Inr (s, d))))"

fun runDbTask :: "env \<Rightarrow> 'r redis_api \<Rightarrow> 'd db_api \<Rightarrow> db_task \<Rightarrow> server \<Rightarrow> 'r \<Rightarrow> 'd \<Rightarrow> fault + server \<times> 'r \<times> 'd" where
  "runDbTask e api db (Login ctx expectedFd username password) s r d =
     bindE (runLogin e api db ctx expectedFd username password s r d) (\<lambda>(s, r). Inr (dbTaskDone s, r, d))"
| "runDbTask e api db (History ctx expectedFd lastTime currentUser sessionId) s r d =
     bindE (runHistory e db ctx expectedFd lastTime sessionId s d) (\<lambda>s. Inr (dbTaskDone s, r, d))"
| "runDbTask e api db (AddFriend ctx expectedFd currentUser targetFriend) s r d =
     bindE (runAddFriend e db ctx expectedFd currentUser targetFriend s d) (\<lambda>(s, d). Inr (dbTaskDone s, r, d))"

section \<open>Tasks of the Redis threads\<close>

definition runDeliver :: "env \<Rightarrow> 'r redis_api \<Rightarrow> ctx_ptr option \<Rightarrow> int \<Rightarrow> string \<Rightarrow> ctx_ptr option \<Rightarrow> string \<Rightarrow> string
    \<Rightarrow> u64 \<Rightarrow> server \<Rightarrow> 'r \<Rightarrow> fault + server \<times> 'r" where
  "runDeliver e api ctx expectedSenderFd target targetCtx enrichedBody ackBody msgId s r =
     (case storePendingMessage api (e_nowMs e) target msgId enrichedBody r of
        (False, r) \<Rightarrow> Inr (s, r)
      | (True, r) \<Rightarrow>
          bindE (reply_valid e ctx expectedSenderFd MSG_TYPE_ACK ackBody s) (\<lambda>s.
          bindE (case targetCtx of
                   None \<Rightarrow> Inr s
                 | Some q \<Rightarrow> reply_valid e targetCtx (c_fd (s_ctxs s q)) 1 enrichedBody s) (\<lambda>s.
          Inr (s, r))))"

definition runFriendList :: "env \<Rightarrow> 'r redis_api \<Rightarrow> 'd db_api \<Rightarrow> ctx_ptr option \<Rightarrow> int \<Rightarrow> string \<Rightarrow> server \<Rightarrow> 'r \<Rightarrow> 'd
    \<Rightarrow> fault + server \<times> 'r" where
  "runFriendList e api db ctx expectedFd currentUser s r d =
     bindE (getFriendListJson api db currentUser d r) (\<lambda>(friendList, r).
     bindE (reply_valid e ctx expectedFd 12 friendList s) (\<lambda>s. Inr (s, r)))"

fun runRedisTask :: "env \<Rightarrow> 'r redis_api \<Rightarrow> 'd db_api \<Rightarrow> redis_task \<Rightarrow> server \<Rightarrow> 'r \<Rightarrow> 'd \<Rightarrow> fault + server \<times> 'r" where
  "runRedisTask e api db (Deliver ctx expectedSenderFd target targetCtx enrichedBody ackBody msgId) s r d =
     bindE (runDeliver e api ctx expectedSenderFd target targetCtx enrichedBody ackBody msgId s r)
       (\<lambda>(s, r). Inr (redisTaskDone s, r))"
| "runRedisTask e api db (Ack user msgIds) s r d = Inr (redisTaskDone s, ackPendingMessage api user msgIds r)"
| "runRedisTask e api db (Invalidate currentUser targetFriend) s r d =
     Inr (redisTaskDone s, invalidateFriendListCache api targetFriend (invalidateFriendListCache api currentUser r))"
| "runRedisTask e api db (FriendList ctx expectedFd currentUser) s r d =
     bindE (runFriendList e api db ctx expectedFd currentUser s r d) (\<lambda>(s, r). Inr (redisTaskDone s, r))"

end
