(* ===== verification/Bounds.thy ===== *)
theory Bounds
  imports Frame
begin

text \<open>
  How long the texts are that the program handles: values the scanners cut out of a text, encoded
  bodies, and the texts of the packets that come out of the framing loop.
\<close>

section \<open>Values\<close>

lemma scanValue_length: "scanValue prev s = Some v \<Longrightarrow> length v \<le> length s"
  by (induction prev s arbitrary: v rule: scanValue.induct) (auto split: if_splits)

lemma length_takeWhile_dropWhile: "length (takeWhile P (dropWhile Q xs)) \<le> length xs"
  using length_takeWhile_le [of P "dropWhile Q xs"] length_dropWhile_le [of Q xs] by linarith

lemma keyedValue_length: "keyedValue s = Some v \<Longrightarrow> length v \<le> length s"
proof -
  assume "keyedValue s = Some v"
  then obtain c p c' p' where "dropWhile is_ws s = c # p" "dropWhile is_ws p = c' # p'" "scanValue None p' = Some v"
    by (auto simp: keyedValue_def split: list.splits if_splits)
  then show ?thesis
    using length_dropWhile_le [of is_ws s] length_dropWhile_le [of is_ws p] scanValue_length [of None p' v] by auto
qed

lemma extractFast_length: "extractFast_loop key s = Some v \<Longrightarrow> length v \<le> length s"
proof (induction key s rule: extractFast_loop.induct)
  case (2 key c cs)
  then have "extractFast_loop key cs = Some v \<and> length v \<le> length cs \<or> keyedValue (drop (length key + 1) cs) = Some v"
    by (simp add: extractFast_loop.simps(2) split: if_splits)
  then show ?case using keyedValue_length [of "drop (length key + 1) cs" v] by auto
qed simp

lemma find_sub_length: "find_sub needle s = Some rest \<Longrightarrow> length rest \<le> length s"
  by (induction needle s rule: find_sub.induct) (auto split: if_splits)

lemma extractLite_length: "length (extractJsonValueLite json key) \<le> length json"
proof -
  have "length (takeWhile P (dropWhile Q (tl b))) \<le> length json"
    if "find_sub k json = Some a" and "find_sub c a = Some b" for P Q k a b c
    using length_takeWhile_dropWhile [of P Q "tl b"] find_sub_length [OF that(1)] find_sub_length [OF that(2)]
    by simp
  then show ?thesis by (auto simp: extractJsonValueLite_def Let_def split: option.splits)
qed

lemma extractJsonValue_length: "length (extractJsonValue json key) \<le> length json"
  unfolding extractJsonValue_eq by (rule extractLite_length)

lemma extractJsonStringFast_length: "extractJsonStringFast json key = Some v \<Longrightarrow> length v \<le> length json"
  by (auto simp: extractJsonStringFast_def dest: extractFast_length split: if_splits)

lemma getField_length: "length (getField json k) \<le> length json"
  by (auto simp: getField_def Let_def extractLite_length dest: extractJsonStringFast_length split: option.splits)

lemma parseArray_loop_length: "length out \<le> m \<Longrightarrow> length (parseArray_loop m rest out) \<le> m"
proof (induction m rest out rule: parseArray_loop.induct)
  case (1 m rest out)
  let ?r1 = "dropWhile is_sep rest"
  let ?num = "takeWhile isdigit ?r1" and ?r2 = "to_delim (dropWhile isdigit ?r1)"
  let ?out = "case stoull_digits ?num of Some v \<Rightarrow> out @ [v] | None \<Rightarrow> out"
  show ?case
  proof (cases "rest \<noteq> [] \<and> length out < m \<and> \<not> (?r1 = [] \<or> hd ?r1 = CHR '']'')")
    case False
    then show ?thesis using 1(3) by (subst parseArray_loop.simps) (auto simp: Let_def)
  next
    case True
    then have len: "length ?out \<le> m" by (auto split: option.splits)
    have IH: "length (parseArray_loop m ?r2 out) \<le> m" if "?num = []" "\<not> (?r2 \<noteq> [] \<and> hd ?r2 = CHR '']'')"
      using 1(1) [OF _ refl _ refl refl that] True 1(3) by blast
    have IH2: "length (parseArray_loop m ?r2 ?out) \<le> m" if "?num \<noteq> []" "\<not> (?r2 \<noteq> [] \<and> hd ?r2 = CHR '']'')"
      using 1(2) [OF _ refl _ refl refl that(1) refl that(2)] True len by blast
    show ?thesis
      unfolding parseArray_loop.simps [of m rest out] Let_def using True 1(3) len IH IH2
      by (cases "?r2 = []"; cases "?num = []") simp_all
  qed
qed

lemma parseJsonUint64ArrayFast_length: "length (parseJsonUint64ArrayFast json key m) \<le> m"
  by (auto simp: parseJsonUint64ArrayFast_def Let_def parseArray_loop_length split: option.splits)

lemma to_string_length: "n < 10 ^ k \<Longrightarrow> 0 < k \<Longrightarrow> length (to_string n) \<le> k"
proof (induction n arbitrary: k rule: to_string.induct)
  case (1 n)
  show ?case
  proof (cases "n < 10")
    case True
    then show ?thesis using 1(3) by (subst to_string.simps) simp
  next
    case False
    then have "k \<noteq> 1" using 1(2) by auto
    then obtain k' where k: "k = Suc k'" "0 < k'" using 1(3) by (cases k) auto
    with 1(1) [OF False, of k'] 1(2) False show ?thesis by (subst to_string.simps) auto
  qed
qed

lemma to_string_u64: "length (to_string (unat (v :: u64))) \<le> 20"
  using unat_lt_64 [of v] by (intro to_string_length) simp_all

section \<open>Encoded bodies\<close>

lemma wire_msg_nil: "wire_msg [] = []"
  by (simp add: wire_msg_def)

lemma put_length:
  "length (putString n v out) \<le> length out + 20 + length v" "length (putUint64 n i out) \<le> length out + 20"
  using wire_msg_length [of "opt_str n v"] wire_msg_length [of "opt_int n i"]
  by (auto simp: put_append opt_str_def opt_int_def wire_msg_nil split: if_splits)

lemma fold_put_length: "length (fold (putUint64 n) vs out) \<le> length out + 20 * length vs"
proof (induction vs arbitrary: out)
  case (Cons v vs)
  show ?case using Cons [of "putUint64 n v out"] put_length(2) [of n v out] by simp
qed simp

text \<open>Texts made of at most \<open>k\<close> fields with values of at most \<open>n\<close> bytes.\<close>

definition within :: "nat \<Rightarrow> nat \<Rightarrow> string \<Rightarrow> bool" where
  "within n k out \<longleftrightarrow> length out \<le> k * (20 + n)"

lemma within_nil: "within n k ''''" by (simp add: within_def)

lemma within_str: "within n k out \<Longrightarrow> length v \<le> n \<Longrightarrow> within n (Suc k) (putString i v out)"
  using put_length(1) [of i v out] by (simp add: within_def)

lemma within_int: "within n k out \<Longrightarrow> within n (Suc k) (putUint64 i v out)"
  using put_length(2) [of i v out] by (simp add: within_def)

lemma within_5: "within n (Suc (Suc (Suc (Suc (Suc 0))))) out \<Longrightarrow> length out \<le> 5 * n + 6000"
  by (simp add: within_def)

lemma within_ids:
  "within n (Suc (Suc (Suc (Suc (Suc 0))))) out \<Longrightarrow> length vs \<le> 256 \<Longrightarrow> length (fold (putUint64 i) vs out) \<le> 5 * n + 6000"
  using fold_put_length [of i vs out] by (simp add: within_def)

lemma length_if: "length x \<le> b \<Longrightarrow> length y \<le> b \<Longrightarrow> length (if c then x else y) \<le> b"
  by simp

text \<open>A body is at most five times as long as its JSON text, up to a constant.\<close>

lemma encode_length: "length (encodeJsonToProto t json) \<le> 5 * length json + 6000"
  unfolding encodeJsonToProto_def Let_def
  by (intro length_if; (simp; fail)?; (rule within_ids within_5)?;
      (intro within_str within_int within_nil length_if getField_length parseJsonUint64ArrayFast_length)?; simp)

lemma small_body: "length json \<le> 2 ^ 29 \<Longrightarrow> length (encodeJsonToProto t json) + 6 < 2 ^ 32"
  using encode_length [of t json] by simp


section \<open>Decoded bodies\<close>

definition decoded_small :: "nat \<Rightarrow> decoded \<Rightarrow> bool" where
  "decoded_small n d \<longleftrightarrow> length (d_sender d) \<le> n \<and> length (d_target d) \<le> n \<and> length (d_message d) \<le> n
     \<and> length (d_timestamp d) \<le> n \<and> length (d_friendName d) \<le> n"

lemma assign_small:
  "length v \<le> n \<Longrightarrow> decoded_small n d \<Longrightarrow> decoded_small n (assign_str t i v d)"
  "decoded_small n d \<Longrightarrow> decoded_small n (assign_int t i w d)"
  by (simp_all add: decoded_small_def assign_str_def assign_int_def Let_def)

lemma decodeLoop_small:
  assumes "decodeLoop t body 0 decoded_init = Some (Some d)"
  shows "decoded_small (length body) d"
  using assms
  by (rule decodeLoop_keeps [where Q = "decoded_small (length body)"])
    (auto intro: assign_small simp: decoded_small_def [of "length body" decoded_init], simp_all add: decoded_init_def)

lemma addKV_length:
  "length (fst st) \<le> n \<Longrightarrow> length v \<le> m \<Longrightarrow> length (fst (addKV k v st)) \<le> n + length k + m + 6"
  "length (fst st) \<le> n \<Longrightarrow> length (fst (addKVNum k w st)) \<le> n + length k + 26"
  using to_string_u64 [of w] by (auto simp: addKV_def addKVNum_def split: prod.splits)

lemma decode_length:
  assumes "decodeProtoToJson t body = Some json" and "t = 1 \<or> t = 9"
  shows "length json \<le> 4 * length body + 200"
proof (cases "body = [] \<or> json = []")
  case True
  with assms show ?thesis by (auto simp: decodeProtoToJson_def)
next
  case False
  with assms obtain d where d: "decodeLoop t body 0 decoded_init = Some (Some d)" "json = renderJson t d"
    by (auto simp: decodeProtoToJson_def split: option.splits)
  note small = decodeLoop_small [OF d(1), unfolded decoded_small_def]
  let ?n = "length body"
  let ?s = "addKV ''sender'' (d_sender d) (''{'', True)"
  let ?t = "addKV ''target'' (d_target d) ?s"
  let ?m = "addKV ''message'' (d_message d) ?t"
  let ?ts = "addKV ''timestamp'' (d_timestamp d) ?m"
  have "d_target d = []"
    using decodeLoop_target [OF d(1)] by (simp add: decoded_init_def)
  then have t: "?t = ?s" by (simp add: addKV_def split: prod.splits)
  have "length (fst ?s) \<le> ?n + 13" using addKV_length(1) [of "(''{'', True)" 1 "d_sender d" ?n "''sender''"] small by simp
  from addKV_length(1) [OF this, of "d_message d" ?n "''message''"] small
  have "length (fst ?m) \<le> 2 * ?n + 26" unfolding t by simp
  from addKV_length(1) [OF this, of "d_timestamp d" ?n "''timestamp''"] small
  have "length (fst ?ts) \<le> 3 * ?n + 41" by simp
  from addKV_length(2) [OF this, of "''msg_id''" "d_msgId d"]
  have one: "length (fst (addKVNum ''msg_id'' (d_msgId d) ?ts)) \<le> 3 * ?n + 73" by simp
  have nine: "length (fst (addKV ''friend'' (d_friendName d) (''{'', True))) \<le> ?n + 13"
    using addKV_length(1) [of "(''{'', True)" 1 "d_friendName d" ?n "''friend''"] small by simp
  show ?thesis
    using assms(2) one nine by (auto simp: d(2) renderJson_def Let_def)
qed

section \<open>Packets\<close>

lemma frames_small: "frames bs = (ps, bad, rest) \<Longrightarrow> \<forall>(t, b) \<in> set ps. length b \<le> 1024 * 1024"
proof (induction bs arbitrary: ps bad rest rule: frames.induct)
  case (1 bs)
  show ?case
  proof (cases "length bs < 4 \<or> be32 (take 4 bs) < 6 \<or> be32 (take 4 bs) > 1024 * 1024 \<or> length bs < be32 (take 4 bs)")
    case True
    with 1(2) show ?thesis by (subst (asm) frames.simps) (auto simp: Let_def split: if_splits)
  next
    case False
    obtain ps' bad' rest' where f: "frames (drop (be32 (take 4 bs)) bs) = (ps', bad', rest')"
      by (cases "frames (drop (be32 (take 4 bs)) bs)")
    with 1(1) [OF _ refl _ _ f] False have "\<forall>(t, b) \<in> set ps'. length b \<le> 1024 * 1024" by blast
    moreover have "frames bs = ((ntohs (load16 (take 2 (drop 4 bs))), take (be32 (take 4 bs) - 6) (drop 6 bs)) # ps', bad', rest')"
      using False f by (subst frames.simps) (simp add: Let_def)
    ultimately show ?thesis using 1(2) False by auto
  qed
qed

lemma decode_all_set: "decode_all ps = Some qs \<Longrightarrow> (t, j) \<in> set qs \<Longrightarrow> \<exists>b. (t, b) \<in> set ps \<and> decodeProtoToJson t b = Some j"
proof (induction ps arbitrary: qs)
  case (Cons p ps)
  obtain t' b where p: "p = (t', b)" by (cases p)
  with Cons.prems(1) obtain j' qs' where "decodeProtoToJson t' b = Some j'" "decode_all ps = Some qs'" "qs = (t', j') # qs'"
    by (auto split: option.splits)
  with Cons p show ?case by auto
qed simp

text \<open>The chat and friend texts that the framing loop hands on.\<close>

definition text_small :: "u16 \<times> string \<Rightarrow> bool" where
  "text_small q \<longleftrightarrow> (fst q = 1 \<or> fst q = 9 \<longrightarrow> length (snd q) \<le> 2 ^ 23)"

lemma splitPackets_small:
  assumes "rb_inv rb" and "splitPackets rb = Inr (bad, rb', qs)"
  shows "\<forall>q \<in> set qs. text_small q"
proof
  fix q
  assume q: "q \<in> set qs"
  obtain ps b rest where fr: "frames (rb_bytes rb) = (ps, b, rest)" by (cases "frames (rb_bytes rb)")
  from splitPackets_frames [OF assms(1) fr] assms(2) have "decode_all ps = Some qs"
    by (auto split: option.splits)
  with q obtain body where "(fst q, body) \<in> set ps" "decodeProtoToJson (fst q) body = Some (snd q)"
    using decode_all_set [of ps qs "fst q" "snd q"] by auto
  with frames_small [OF fr] decode_length [of "fst q" body "snd q"] show "text_small q"
    unfolding text_small_def by fastforce
qed

end
