(* ===== verification/World.thy ===== *)
theory World
  imports Chat Bounds
begin

text \<open>
  The whole running server: the server object, Redis and the database, and the threads that work on
  them. The accepting thread, the sub-reactors, the workers of the three pools, the retry thread and
  the chat-log thread take turns in the step relation \<open>world_step\<close>; a turn is one handler call, one
  task, one round or one batch. The theorem is that this system stays well-formed.
\<close>

section \<open>Tasks that may run\<close>

text \<open>
  The contexts a task captured exist, and the texts it carries are short enough to be sent. The
  number is that of the contexts made so far.
\<close>

definition ctx_ok :: "nat \<Rightarrow> ctx_ptr option \<Rightarrow> bool" where
  "ctx_ok n ctx \<longleftrightarrow> (\<exists>p. ctx = Some p \<and> p < n)"

fun biz_ok :: "nat \<Rightarrow> biz_task \<Rightarrow> bool" where
  "biz_ok n (ProcessPacket ctx t body) \<longleftrightarrow> ctx_ok n ctx \<and> text_small (t, body)"

fun db_ok :: "nat \<Rightarrow> db_task \<Rightarrow> bool" where
  "db_ok n (Login ctx fd u p) \<longleftrightarrow> ctx_ok n ctx"
| "db_ok n (History ctx fd t u i) \<longleftrightarrow> ctx_ok n ctx"
| "db_ok n (AddFriend ctx fd u f) \<longleftrightarrow> ctx_ok n ctx \<and> length f \<le> 2 ^ 23"

fun redis_ok :: "nat \<Rightarrow> redis_task \<Rightarrow> bool" where
  "redis_ok n (Deliver ctx fd target targetCtx enriched ack i) \<longleftrightarrow>
     ctx_ok n ctx \<and> (targetCtx = None \<or> ctx_ok n targetCtx) \<and> length enriched \<le> 2 ^ 29 \<and> length ack \<le> 2 ^ 29"
| "redis_ok n (Ack u is) \<longleftrightarrow> True"
| "redis_ok n (Invalidate u f) \<longleftrightarrow> True"
| "redis_ok n (FriendList ctx fd u) \<longleftrightarrow> ctx_ok n ctx"

lemma ctx_ok_mono: "ctx_ok n ctx \<Longrightarrow> n \<le> m \<Longrightarrow> ctx_ok m ctx"
  by (auto simp: ctx_ok_def)

lemma task_ok_mono:
  assumes "n \<le> m"
  shows "biz_ok n b \<Longrightarrow> biz_ok m b" and "db_ok n d \<Longrightarrow> db_ok m d" and "redis_ok n r \<Longrightarrow> redis_ok m r"
proof -
  note mono = ctx_ok_mono [OF _ assms]
  show "biz_ok n b \<Longrightarrow> biz_ok m b" by (cases b) (simp add: mono)
  show "db_ok n d \<Longrightarrow> db_ok m d" by (cases d) (simp_all add: mono)
  show "redis_ok n r \<Longrightarrow> redis_ok m r" by (cases r) (auto simp: mono)
qed

text \<open>The tasks of a pool that are still to be run or are running.\<close>

definition pool_tasks :: "'a thread_pool \<Rightarrow> 'a set" where
  "pool_tasks p = set (tp_tasks p) \<union> set (tp_running p)"

definition online :: "(string \<Rightarrow> size_t) \<Rightarrow> server \<Rightarrow> string \<Rightarrow> ctx_ptr option" where
  "online hash s u = getOnlineCtx hash (\<lambda>_. True) (s_reg s) u"

text \<open>The invariant of the running server.\<close>

definition run_inv :: "(string \<Rightarrow> size_t) \<Rightarrow> server \<Rightarrow> bool" where
  "run_inv hash s \<longleftrightarrow> srv_inv hash s
     \<and> (\<forall>u p. online hash s u = Some p \<longrightarrow> p < s_nextCtx s)
     \<and> (\<forall>t \<in> pool_tasks (s_pool s). biz_ok (s_nextCtx s) t)
     \<and> (\<forall>t \<in> pool_tasks (s_dbPool s). db_ok (s_nextCtx s) t)
     \<and> (\<forall>t \<in> pool_tasks (s_redisPool s). redis_ok (s_nextCtx s) t)"

section \<open>What the handlers leave alone\<close>

text \<open>
  A step that makes no context invalid, brings no user online, starts no task and adds only tasks
  that may run.
\<close>

definition grows :: "(nat \<Rightarrow> 'a \<Rightarrow> bool) \<Rightarrow> nat \<Rightarrow> 'a thread_pool \<Rightarrow> 'a thread_pool \<Rightarrow> bool" where
  "grows ok n p p' \<longleftrightarrow> tp_workers p' = tp_workers p \<and> (\<forall>t \<in> set (tp_tasks p'). t \<in> set (tp_tasks p) \<or> ok n t)"

definition adds :: "(string \<Rightarrow> size_t) \<Rightarrow> server \<Rightarrow> server \<Rightarrow> bool" where
  "adds hash s s' \<longleftrightarrow> reg_inv hash (s_reg s') \<and> s_nextCtx s \<le> s_nextCtx s'
     \<and> (\<forall>u p. online hash s' u = Some p \<longrightarrow> online hash s u = Some p \<or> p < s_nextCtx s')
     \<and> grows biz_ok (s_nextCtx s') (s_pool s) (s_pool s')
     \<and> grows db_ok (s_nextCtx s') (s_dbPool s) (s_dbPool s')
     \<and> grows redis_ok (s_nextCtx s') (s_redisPool s) (s_redisPool s')"

lemma grows_refl [simp]: "grows ok n p p" by (simp add: grows_def)

lemma grows_trans:
  assumes "grows ok n p q" and "grows ok m q r" and "\<And>t. ok n t \<Longrightarrow> ok m t"
  shows "grows ok m p r"
  using assms by (auto simp: grows_def)

lemma adds_trans:
  assumes "adds hash s t" and "adds hash t u"
  shows "adds hash s u"
proof -
  have "s_nextCtx t \<le> s_nextCtx u" using assms(2) by (simp add: adds_def)
  note mono = task_ok_mono [OF this]
  have "grows biz_ok (s_nextCtx u) (s_pool s) (s_pool u)" "grows db_ok (s_nextCtx u) (s_dbPool s) (s_dbPool u)"
    "grows redis_ok (s_nextCtx u) (s_redisPool s) (s_redisPool u)"
    using assms mono unfolding adds_def by (auto intro: grows_trans)
  then show ?thesis using assms unfolding adds_def by fastforce
qed

lemma adds_frame:
  assumes "reg_inv hash (s_reg s)" and "s_reg s' = s_reg s" and "s_nextCtx s' = s_nextCtx s"
    and "s_pool s' = s_pool s" and "s_dbPool s' = s_dbPool s" and "s_redisPool s' = s_redisPool s"
  shows "adds hash s s'"
  using assms by (simp add: adds_def online_def)

lemma adds_refl: "reg_inv hash (s_reg s) \<Longrightarrow> adds hash s s"
  by (rule adds_frame) simp_all

lemma adds_reg: "adds hash s s' \<Longrightarrow> reg_inv hash (s_reg s')"
  by (simp add: adds_def)

lemma grows_tasks:
  assumes "grows ok m p p'" and "\<forall>t \<in> pool_tasks p. ok n t" and "\<And>t. ok n t \<Longrightarrow> ok m t"
  shows "\<forall>t \<in> pool_tasks p'. ok m t"
  using assms by (auto simp: pool_tasks_def grows_def tp_running_def)

lemma run_inv_adds:
  assumes "run_inv hash s" and "adds hash s s'" and "srv_inv hash s'"
  shows "run_inv hash s'"
proof -
  have le: "s_nextCtx s \<le> s_nextCtx s'" using assms(2) by (simp add: adds_def)
  have "\<forall>t \<in> pool_tasks (s_pool s'). biz_ok (s_nextCtx s') t"
    using assms(1,2) task_ok_mono(1) [OF le] unfolding run_inv_def adds_def by (intro grows_tasks) auto
  moreover have "\<forall>t \<in> pool_tasks (s_dbPool s'). db_ok (s_nextCtx s') t"
    using assms(1,2) task_ok_mono(2) [OF le] unfolding run_inv_def adds_def by (intro grows_tasks) auto
  moreover have "\<forall>t \<in> pool_tasks (s_redisPool s'). redis_ok (s_nextCtx s') t"
    using assms(1,2) task_ok_mono(3) [OF le] unfolding run_inv_def adds_def by (intro grows_tasks) auto
  moreover have "\<forall>u p. online hash s' u = Some p \<longrightarrow> p < s_nextCtx s'"
    using assms(1,2) le unfolding run_inv_def adds_def by (metis less_le_trans)
  ultimately show ?thesis using assms(3) by (simp add: run_inv_def)
qed

section \<open>The I/O handlers\<close>

lemma epoll_pools [simp]:
  "s_dbPool (epoll_mod e fd ev s) = s_dbPool s" "s_redisPool (epoll_mod e fd ev s) = s_redisPool s"
  "s_dbPool (epoll_del e fd s) = s_dbPool s" "s_redisPool (epoll_del e fd s) = s_redisPool s"
  "s_dbPool (epoll_add e fd ev s) = s_dbPool s" "s_redisPool (epoll_add e fd ev s) = s_redisPool s"
  "s_dbPool (set_ctx p c s) = s_dbPool s" "s_redisPool (set_ctx p c s) = s_redisPool s"
  "s_dbPool (count_up f s) = s_dbPool s" "s_redisPool (count_up f s) = s_redisPool s"
  "s_dbPool (handleDisconnect hash fd s) = s_dbPool s" "s_redisPool (handleDisconnect hash fd s) = s_redisPool s"
  by (auto simp: epoll_mod_def epoll_del_def epoll_add_def set_ctx_def count_up_def handleDisconnect_def Let_def
      split: option.splits)

lemma handleDisconnect_adds:
  assumes "reg_inv hash (s_reg s)"
  shows "adds hash s (handleDisconnect hash fd s)"
  using handleDisconnect_lookup(1) [OF assms, of fd] handleDisconnect_lookup(3) [OF assms, of "\<lambda>_. True" fd]
  by (auto simp: adds_def online_def split: option.splits if_splits)

text \<open>A step that changes no registry and no pool and perhaps closes a connection in the end.\<close>

definition same :: "server \<Rightarrow> server \<Rightarrow> bool" where
  "same s t \<longleftrightarrow> s_reg t = s_reg s \<and> s_nextCtx t = s_nextCtx s \<and> s_pool t = s_pool s
     \<and> s_dbPool t = s_dbPool s \<and> s_redisPool t = s_redisPool s"

lemma same_adds:
  assumes "reg_inv hash (s_reg s)" and "same s t"
  shows "adds hash s t" and "adds hash s (handleDisconnect hash fd t)"
proof -
  show a: "adds hash s t" using assms by (intro adds_frame) (simp_all add: same_def)
  show "adds hash s (handleDisconnect hash fd t)"
    using adds_trans [OF a handleDisconnect_adds [OF adds_reg [OF a]]] .
qed

lemma sendPacket_adds:
  assumes "reg_inv hash (s_reg s)" and "sendPacket hash alloc ctx t data s = Inr s'"
  shows "adds hash s s'"
proof (cases ctx)
  case None
  then show ?thesis using assms by (simp add: sendPacket_def adds_refl)
next
  case (Some p)
  from assms(2) Some obtain c need fatal where e: "sp_enqueue alloc t data (s_ctxs s p) = Inr (c, need, fatal)"
    by (auto simp: sendPacket_def Let_def bindE_eq_Inr)
  let ?s = "set_ctx p c (count_up (\<lambda>g. g\<lparr>g_sendCalled := g_sendCalled g + 1\<rparr>) s)"
  have "same s ?s" "same s (count_up f ?s)" "same s (epoll_mod ep fd ev ?s)" for f ep fd ev
    by (simp_all add: same_def)
  then show ?thesis
    using assms(2) Some e same_adds [OF assms(1)]
    by (cases fatal) (auto simp: sendPacket_def Let_def split: if_splits)
qed

lemma handleWrite_adds:
  assumes "reg_inv hash (s_reg s)" and "handleWrite hash answers ctx s = Inr s'"
  shows "adds hash s s'"
proof (cases ctx)
  case None
  then show ?thesis using assms by (simp add: handleWrite_def adds_refl)
next
  case (Some p)
  from assms(2) Some obtain r c out where l: "hw_loop answers 0 (s_ctxs s p) [] = Inr (r, c, out)"
    by (auto simp: handleWrite_def Let_def bindE_eq_Inr)
  let ?s = "(set_ctx p c s)\<lparr>s_net := (s_net s)(c_fd (s_ctxs s p) := s_net s (c_fd (s_ctxs s p)) @ out)\<rparr>"
  have "same s ?s" "same s (set_ctx q d ?s)" "same s (epoll_mod ep fd ev (set_ctx q d ?s))" for q d ep fd ev
    by (simp_all add: same_def)
  then show ?thesis
    using assms(2) Some l same_adds [OF assms(1)]
    by (cases r) (auto simp: handleWrite_def Let_def split: if_splits prod.splits)
qed

lemma dispatch_adds:
  assumes "reg_inv hash (s_reg s)" and "p < s_nextCtx s" and "\<forall>q \<in> set qs. text_small q"
    and "dispatch_packets hash alloc p qs s = Inr s'"
  shows "adds hash s s'"
  using assms
proof (induction qs arbitrary: s)
  case (Cons q qs)
  obtain t b where q: "q = (t, b)" by (cases q)
  let ?one = "if t = 2 then sendPacket hash alloc (Some p) 2 '''' s
       else case tp_try_enqueue (ProcessPacket (Some p) t b) (s_pool s) of
              (True, pool) \<Rightarrow> Inr (s\<lparr>s_pool := pool\<rparr>)
            | (False, pool) \<Rightarrow> sendPacket hash alloc (Some p) 13 server_busy s"
  from Cons.prems(4) q obtain s1 where one: "?one = Inr s1" and rest: "dispatch_packets hash alloc p qs s1 = Inr s'"
    by (auto simp: bindE_eq_Inr)
  have s1: "adds hash s s1"
  proof (cases "t = 2")
    case True
    with one show ?thesis using sendPacket_adds [OF Cons.prems(1)] by simp
  next
    case False
    have "biz_ok (s_nextCtx s) (ProcessPacket (Some p) t b)" using Cons.prems(2,3) q by (simp add: ctx_ok_def)
    then have "adds hash s (s\<lparr>s_pool := tp_enqueue (ProcessPacket (Some p) t b) (s_pool s)\<rparr>)"
      using Cons.prems(1) by (simp add: adds_def online_def grows_def tp_enqueue_def)
    with False one show ?thesis
      using sendPacket_adds [OF Cons.prems(1)] by (auto simp: tp_try_enqueue_def split: if_splits)
  qed
  have "p < s_nextCtx s1" using s1 Cons.prems(2) by (simp add: adds_def)
  with Cons.IH [OF adds_reg [OF s1]] rest Cons.prems(3) have "adds hash s1 s'" by simp
  with s1 show ?case by (rule adds_trans)
qed (simp add: adds_refl)


lemma handleRead_adds:
  assumes inv: "srv_inv hash s" and p: "getClientCtxByFd (s_reg s) fd = Some p"
    and len: "length (received answers) \<le> 2 ^ 61"
    and out: "handleRead hash alloc answers (Some p) s = Inr s'"
  shows "adds hash s s'"
proof -
  let ?c = "s_ctxs s p"
  have reg: "p < s_nextCtx s" "rb_inv (c_buffer ?c)" "length (rb_bytes (c_buffer ?c)) \<le> 1024 * 1024"
    using srv_invD(3) [OF inv p] by (auto simp: recv_ok_def)
  note r = srv_invD(1) [OF inv]
  have "length (rb_bytes (c_buffer ?c)) + length (received answers) \<le> 2 ^ 62" using reg(3) len by simp
  from recv_loop_ok [OF reg(2) this] obtain rb n where
    rl: "recv_loop answers (c_buffer ?c) = Inr (recv_closes answers, rb, n)" "rb_inv rb" by blast
  let ?s = "set_ctx p (?c\<lparr>c_buffer := rb\<rparr>) (count_up (\<lambda>g. g\<lparr>g_readCount := g_readCount g + n\<rparr>) s)"
  have same: "same s ?s" "same s (set_ctx q d ?s)" for q d by (simp_all add: same_def)
  show ?thesis
  proof (cases "recv_closes answers")
    case True
    then show ?thesis using out rl(1) same_adds(2) [OF r same(1)] by (auto simp: handleRead_def Let_def)
  next
    case False
    then obtain bad rb' qs where sp: "splitPackets rb = Inr (bad, rb', qs)"
      using out rl(1) by (auto simp: handleRead_def Let_def bindE_eq_Inr)
    let ?s2 = "set_ctx p ((s_ctxs ?s p)\<lparr>c_buffer := rb'\<rparr>) ?s"
    have a: "adds hash s ?s2" using same_adds(1) [OF r same(2)] .
    show ?thesis
    proof (cases bad)
      case True
      then show ?thesis
        using False out rl(1) sp same_adds(2) [OF r same(2)] by (auto simp: handleRead_def Let_def)
    next
      case good: False
      have "dispatch_packets hash alloc p qs ?s2 = Inr s'"
        using False good out rl(1) sp by (simp add: handleRead_def Let_def)
      then have "adds hash ?s2 s'"
        using dispatch_adds [OF adds_reg [OF a], of p qs] reg(1) splitPackets_small [OF rl(2) sp] by simp
      with a show ?thesis by (rule adds_trans)
    qed
  qed
qed

lemma handleEvent_adds:
  assumes inv: "srv_inv hash s"
    and len: "case ev_in e of Some answers \<Rightarrow> length (received answers) \<le> 2 ^ 61 | None \<Rightarrow> True"
    and out: "handleEvent hash (block_of junk) e s = Inr s'"
  shows "adds hash s s'"
proof (cases "ev_fd e \<le> 0 \<or> getClientCtxByFd (s_reg s) (ev_fd e) = None")
  case True
  then show ?thesis using out adds_refl [OF srv_invD(1) [OF inv]] by (auto simp: handleEvent_def split: if_splits)
next
  case False
  then obtain p where p: "getClientCtxByFd (s_reg s) (ev_fd e) = Some p" by auto
  let ?r = "case ev_in e of Some answers \<Rightarrow> handleRead hash (block_of junk) answers (Some p) s | None \<Rightarrow> Inr s"
  from out False p obtain s1 s2 where s1: "?r = Inr s1"
    and s2: "(case ev_out e of Some answers \<Rightarrow> handleWrite hash answers (Some p) s1 | None \<Rightarrow> Inr s1) = Inr s2"
    and s': "s' = (if ev_err e then handleDisconnect hash (ev_fd e) s2 else s2)"
    by (auto simp: handleEvent_def bindE_eq_Inr)
  have a1: "adds hash s s1"
    using s1 len handleRead_adds [OF inv p] adds_refl [OF srv_invD(1) [OF inv]] by (auto split: option.splits)
  have "adds hash s1 s2"
    using s2 handleWrite_adds [OF adds_reg [OF a1]] adds_refl [OF adds_reg [OF a1]] by (auto split: option.splits)
  with a1 have a2: "adds hash s s2" by (rule adds_trans)
  show ?thesis
    using s' a2 adds_trans [OF a2 handleDisconnect_adds [OF adds_reg [OF a2]]] by simp
qed

lemma handleAccept_adds:
  assumes "reg_inv hash (s_reg s)" and "handleAccept alloc answers s = Inr s'"
  shows "adds hash s s'"
  using assms
proof (induction answers arbitrary: s)
  case (Cons a answers)
  show ?case
  proof (cases a)
    case NoConnection
    then show ?thesis using Cons.prems by (simp add: adds_refl)
  next
    case (NewConnection fd ip)
    from Cons.prems(2) NewConnection obtain c where c: "ClientContext alloc fd ip = Inr c"
      by (auto simp: bindE_eq_Inr)
    let ?p = "s_nextCtx s"
    let ?s = "set_ctx ?p c (s\<lparr>s_nextCtx := ?p + 1\<rparr>)"
    let ?reg = "addClientCtx (s_ctxs ?s) (Some ?p) (s_reg ?s)"
    note r = registry_ops_inv(1) [OF Cons.prems(1)]
    have step: "adds hash s t" if "s_reg t = ?reg \<or> s_reg t = removeClientCtx fd ?reg" "s_nextCtx t = ?p + 1"
      "s_pool t = s_pool s" "s_dbPool t = s_dbPool s" "s_redisPool t = s_redisPool s" for t
      using that r registry_ops_inv(2) [OF r] online_lookup(3) [OF Cons.prems(1)] online_lookup(4) [OF r]
      by (auto simp: adds_def online_def)
    have "\<exists>t. adds hash s t \<and> handleAccept alloc answers t = Inr s'"
    proof (cases "s_subReactors s = []")
      case True
      show ?thesis
        using Cons.prems(2) NewConnection c True
        by (intro exI conjI) (rule step, auto simp: Let_def)
    next
      case False
      show ?thesis
        using Cons.prems(2) NewConnection c False
        by (intro exI conjI) (rule step, auto simp: Let_def addFd_def)
    qed
    then obtain t where t: "adds hash s t" "handleAccept alloc answers t = Inr s'" by blast
    from Cons.IH [OF adds_reg [OF t(1)] t(2)] t(1) show ?thesis by (rule adds_trans [rotated])
  qed
qed (simp add: adds_refl)


section \<open>Results without a fault\<close>

text \<open>
  A computation that ends with a result that satisfies \<open>Q\<close>, or does not end, or stops with one of the
  faults in \<open>A\<close>. The rules follow the structure of the handlers. Where \<open>A\<close> is not restricted the code
  has no fault at all.
\<close>

definition good :: "fault set \<Rightarrow> ('a \<Rightarrow> bool) \<Rightarrow> fault + 'a \<Rightarrow> bool" where
  "good A Q m \<longleftrightarrow> (case m of Inl f \<Rightarrow> f = Diverges \<or> f \<in> A | Inr x \<Rightarrow> Q x)"

lemma good_simps [simp]: "good A Q (Inr x) = Q x" "good A Q (Inl f) \<longleftrightarrow> f = Diverges \<or> f \<in> A"
  by (simp_all add: good_def)

lemma good_bind: "good A P m \<Longrightarrow> (\<And>x. P x \<Longrightarrow> good A Q (f x)) \<Longrightarrow> good A Q (bindE m f)"
  by (cases m) simp_all

lemma good_if: "(c \<Longrightarrow> good A Q a) \<Longrightarrow> (\<not> c \<Longrightarrow> good A Q b) \<Longrightarrow> good A Q (if c then a else b)"
  by simp

lemma good_pair:
  "good A (\<lambda>(s, r). P s) m \<Longrightarrow> (\<And>s r. P s \<Longrightarrow> good A Q (f s r)) \<Longrightarrow> good A Q (bindE m (\<lambda>(s, r). f s r))"
  by (cases m) auto

lemma good_mono: "good A P m \<Longrightarrow> (\<And>x. P x \<Longrightarrow> Q x) \<Longrightarrow> good A Q m"
  by (cases m) simp_all

text \<open>A running server with \<open>n\<close> contexts.\<close>

definition runs :: "(string \<Rightarrow> size_t) \<Rightarrow> nat \<Rightarrow> server \<Rightarrow> bool" where
  "runs hash n s \<longleftrightarrow> run_inv hash s \<and> s_nextCtx s = n"

text \<open>
  \<open>MemoryPool::allocate\<close> answers every request with a block, of unknown contents. The program does not
  check its answers: what it does with a null pointer is the subject of \<open>send_append_unchecked_null\<close>.
\<close>

definition memory_available :: "allocator \<Rightarrow> bool" where
  "memory_available alloc \<longleftrightarrow> (\<exists>junk. alloc = block_of junk)"

definition env_ok :: "env \<Rightarrow> bool" where
  "env_ok e \<longleftrightarrow> memory_available (e_alloc e) \<and> length (e_time e) \<le> 100"

lemma runs_iff:
  "runs hash n s \<longleftrightarrow> s_nextCtx s = n \<and> srv_inv hash s \<and> (\<forall>u p. online hash s u = Some p \<longrightarrow> p < n)
     \<and> (\<forall>t \<in> pool_tasks (s_pool s). biz_ok n t) \<and> (\<forall>t \<in> pool_tasks (s_dbPool s). db_ok n t)
     \<and> (\<forall>t \<in> pool_tasks (s_redisPool s). redis_ok n t)"
  by (auto simp: runs_def run_inv_def)

lemma runs_frame:
  assumes "runs hash n s" and "s_reg s' = s_reg s" and "s_ctxs s' = s_ctxs s" and "s_nextCtx s' = s_nextCtx s"
    and "s_pool s' = s_pool s" and "s_dbPool s' = s_dbPool s" and "s_redisPool s' = s_redisPool s"
  shows "runs hash n s'"
  using assms srv_inv_frame [of hash s s'] by (simp add: runs_iff online_def)

lemma runs_count [intro]: "runs hash n s \<Longrightarrow> runs hash n (count_up f s)"
  by (erule runs_frame) simp_all

lemma runs_online: "runs hash n s \<Longrightarrow> getOnlineCtx hash alive (s_reg s) u = Some p \<Longrightarrow> p < n"
proof -
  assume "runs hash n s" and "getOnlineCtx hash alive (s_reg s) u = Some p"
  moreover from this(2) have "online hash s u = Some p"
    by (auto simp: online_def getOnlineCtx_def split: if_splits option.splits)
  ultimately show ?thesis by (auto simp: runs_def run_inv_def)
qed

lemma runs_reply:
  assumes "env_ok e" and "ctx_ok n ctx" and "length data \<le> 2 ^ 29" and "runs (e_hash e) n s"
  shows "good A (runs (e_hash e) n) (reply e ctx t data s)"
proof -
  obtain junk where j: "e_alloc e = block_of junk" using assms(1) by (auto simp: env_ok_def memory_available_def)
  obtain p where p: "ctx = Some p" "p < s_nextCtx s" using assms(2,4) by (auto simp: ctx_ok_def runs_def)
  have inv: "run_inv (e_hash e) s" "srv_inv (e_hash e) s" using assms(4) by (auto simp: runs_def run_inv_def)
  obtain s' where s': "reply e ctx t data s = Inr s'" "srv_inv (e_hash e) s'" "s_nextCtx s' = s_nextCtx s"
    using sendPacket_ok [OF inv(2) p(2) small_body [OF assms(3)], of junk] p(1) j by auto
  have "adds (e_hash e) s s'" using sendPacket_adds [OF srv_invD(1) [OF inv(2)] s'(1)] .
  then have "run_inv (e_hash e) s'" using run_inv_adds [OF inv(1) _ s'(2)] by blast
  then show ?thesis using s' assms(4) by (simp add: runs_def)
qed

lemma pool_tasks_enqueue [simp]: "pool_tasks (tp_enqueue t p) = insert t (pool_tasks p)"
  by (auto simp: pool_tasks_def tp_enqueue_def tp_running_def)

lemma runs_enqueueDb:
  assumes "db_ok n task" and "runs hash n s"
  shows "runs hash n (snd (enqueueDbTask task s))"
proof -
  have "runs hash n (s\<lparr>s_dbPool := tp_enqueue task (s_dbPool s)\<rparr>)"
    using assms srv_inv_frame [of hash s "s\<lparr>s_dbPool := tp_enqueue task (s_dbPool s)\<rparr>"]
    by (simp add: runs_iff online_def)
  note queued = this
  show ?thesis
  proof (cases "s_dbDepth s + 1 > kWorkerQueueLimit")
    case True
    show ?thesis by (rule runs_frame [OF assms(2)]) (use True in \<open>simp_all add: enqueueDbTask_def Let_def\<close>)
  next
    case False
    show ?thesis by (rule runs_frame [OF queued]) (use False in \<open>simp_all add: enqueueDbTask_def Let_def\<close>)
  qed
qed

lemma runs_enqueueRedis:
  assumes "redis_ok n task" and "runs hash n s"
  shows "runs hash n (snd (enqueueRedisTask task s))"
proof -
  have "runs hash n (s\<lparr>s_redisPool := tp_enqueue task (s_redisPool s)\<rparr>)"
    using assms srv_inv_frame [of hash s "s\<lparr>s_redisPool := tp_enqueue task (s_redisPool s)\<rparr>"]
    by (simp add: runs_iff online_def)
  note queued = this
  show ?thesis
  proof (cases "s_redisDepth s + 1 > kWorkerQueueLimit")
    case True
    show ?thesis by (rule runs_frame [OF assms(2)]) (use True in \<open>simp_all add: enqueueRedisTask_def Let_def\<close>)
  next
    case False
    show ?thesis by (rule runs_frame [OF queued]) (use False in \<open>simp_all add: enqueueRedisTask_def Let_def\<close>)
  qed
qed

text \<open>Binding a user to a connection.\<close>

lemma runs_bind_user:
  assumes "ctx_ok n ctx" and "runs hash n s"
  shows "good A (runs hash n) (set_account ctx u (s\<lparr>s_reg := setOnlineUser hash u ctx (s_reg s)\<rparr>))"
proof -
  obtain p where p: "ctx = Some p" "p < n" using assms(1) by (auto simp: ctx_ok_def)
  let ?s = "s\<lparr>s_reg := setOnlineUser hash u ctx (s_reg s)\<rparr>"
  let ?c = "(s_ctxs s p)\<lparr>c_accountID := u\<rparr>"
  have inv: "srv_inv hash s" using assms(2) by (simp add: runs_def run_inv_def)
  note r = srv_invD(1) [OF inv]
  have "srv_inv hash ?s"
    using inv client_lookup(3) [OF r] registry_ops_inv(3) [OF r] by (simp add: srv_inv_def)
  moreover have "ctx_inv ?c"
    using srv_invD(2) [OF inv] p assms(2) by (simp add: ctx_inv_def unsent_def runs_def)
  ultimately have "srv_inv hash (set_ctx p ?c ?s)"
    by (rule set_ctx_inv) (simp_all add: recv_ok_def)
  moreover have "q < n" if "online hash (set_ctx p ?c ?s) v = Some q" for v q
  proof (cases "u = ''''")
    case True
    with that show ?thesis
      using assms(2) by (auto simp: online_def setOnlineUser_def runs_def run_inv_def)
  next
    case False
    with that show ?thesis
      using online_lookup(1) [OF r False, of "\<lambda>_. True" p v] p assms(2)
      by (auto simp: online_def runs_def run_inv_def split: if_splits)
  qed
  ultimately show ?thesis
    using assms(2) p(1) by (simp add: set_account_def deref_def runs_iff)
qed


section \<open>Packets\<close>

lemma ctx_ok_account: "ctx_ok n ctx \<Longrightarrow> \<exists>a. account_of ctx s = Inr a"
  by (auto simp: ctx_ok_def account_of_def deref_def)

lemma fixed_replies:
  "length system_busy \<le> 2 ^ 29" "length not_yourself \<le> 2 ^ 29" "length no_such_user \<le> 2 ^ 29"
  "length already_friends \<le> 2 ^ 29" "length friend_busy \<le> 2 ^ 29" "length result_fail \<le> 2 ^ 29"
  "length result_success \<le> 2 ^ 29" "length ''[]'' \<le> (2 :: nat) ^ 29" \<open>length ''{"friends":[]}'' \<le> (2 :: nat) ^ 29\<close>
  by (simp_all add: system_busy_def not_yourself_def no_such_user_def already_friends_def friend_busy_def
      result_fail_def result_success_def fail_message_def)

lemma ack_body_length: "length (ack_body i) \<le> 2 ^ 29"
  using to_string_u64 [of i] by (simp add: ack_body_def)

lemma chat_fields_length:
  assumes "chat_fields body = (sender, target, content)"
  shows "length sender \<le> length body" "length target \<le> length body" "length content \<le> length body"
proof -
  have "length sender \<le> length body \<and> length target \<le> length body \<and> length content \<le> length body"
  proof (cases "parseChatFieldsFast body")
    case None
    with assms show ?thesis using extractJsonValue_length by (auto simp: chat_fields_def)
  next
    case (Some f)
    with assms have "parseChatFieldsFast body = Some (sender, target, content)" by (simp add: chat_fields_def)
    then show ?thesis
      using extractJsonStringFast_length [of body] by (auto simp: parseChatFieldsFast_def split: option.splits)
  qed
  then show "length sender \<le> length body" "length target \<le> length body" "length content \<le> length body" by auto
qed

lemma enriched_length:
  assumes "length body \<le> 2 ^ 23" and "chat_fields body = (sender, target, content)" and "length ts \<le> 100"
  shows "length (buildEnrichedChatBodyWithMsgId i sender target content ts) \<le> 2 ^ 29"
  using to_string_u64 [of i] chat_fields_length [OF assms(2)] assms(1,3)
  by (simp add: buildEnrichedChatBodyWithMsgId_def)

lemma send_all_good:
  assumes "env_ok e" and "\<forall>p \<in> set ps. p < n" and "length data \<le> 2 ^ 29" and "runs (e_hash e) n s"
  shows "good A (runs (e_hash e) n) (send_all e ps t data s)"
  using assms(2,4)
proof (induction ps arbitrary: s)
  case (Cons p ps)
  have "good A (runs (e_hash e) n) (reply e (Some p) t data s)"
    using Cons.prems by (intro runs_reply assms) (simp_all add: ctx_ok_def)
  then show ?case using Cons.IH Cons.prems(1) by (auto intro: good_bind)
qed simp

lemma processIdentify_good:
  assumes "ctx_ok n ctx" and "runs (e_hash e) n s"
  shows "good A (runs (e_hash e) n) (processIdentify e ctx body s)"
  using assms runs_bind_user [OF assms] by (simp add: processIdentify_def Let_def)

lemma sendPrivate_good:
  assumes "ctx_ok n ctx" and "length enriched \<le> 2 ^ 29" and "length ack \<le> 2 ^ 29" and "runs (e_hash e) n s"
  shows "runs (e_hash e) n (sendPrivate e ctx target enriched ack i s)"
proof -
  let ?tc = "getOnlineCtx (e_hash e) (e_alive e) (s_reg s) target"
  have "?tc = None \<or> ctx_ok n ?tc"
    using runs_online [OF assms(4)] by (cases ?tc) (auto simp: ctx_ok_def)
  then have "runs (e_hash e) n (snd (enqueueRedisTask (Deliver ctx fd target ?tc enriched ack i) (count_up f s)))" for f fd
    using assms by (intro runs_enqueueRedis runs_count) auto
  then show ?thesis by (auto simp: sendPrivate_def Let_def case_prod_beta)
qed

lemma processChat_good:
  assumes e: "env_ok e" and ctx: "ctx_ok n ctx" and len: "length body \<le> 2 ^ 23" and run: "runs (e_hash e) n s"
  shows "good A (runs (e_hash e) n) (processChat e ctx body s)"
proof -
  obtain sender target content where f: "chat_fields body = (sender, target, content)" by (cases "chat_fields body")
  show ?thesis
  proof (cases "nextId (s_ids s) (e_clock e)")
    case None
    then show ?thesis by (simp add: processChat_def f)
  next
    case (Some r)
    obtain i ids clock where r: "r = (i, ids, clock)" by (cases r)
    let ?s = "s\<lparr>s_ids := ids\<rparr>"
    let ?en = "buildEnrichedChatBodyWithMsgId i sender target content (e_time e)"
    have run': "runs (e_hash e) n ?s" by (rule runs_frame [OF run]) simp_all
    have en: "length ?en \<le> 2 ^ 29" using e by (intro enriched_length [OF len f]) (simp add: env_ok_def)
    have inv: "srv_inv (e_hash e) ?s" "s_nextCtx ?s = n" using run' by (auto simp: runs_iff)
    have "\<forall>p \<in> set (snapshotAllClients (s_reg ?s)). p < n"
      using snapshotAllClients_set [OF srv_invD(1) [OF inv(1)]] srv_invD(3) [OF inv(1)] inv(2) by auto
    then have "good A (runs (e_hash e) n) (sendBroadcast e ctx ?en (ack_body i) ?s)"
      unfolding sendBroadcast_def
      by (intro good_bind [OF send_all_good [OF e _ en run']] runs_reply e ctx ack_body_length)
    then have "good A (runs (e_hash e) n) (if target = ''broadcast'' then sendBroadcast e ctx ?en (ack_body i) ?s
        else Inr (sendPrivate e ctx target ?en (ack_body i) i ?s))"
      using sendPrivate_good [OF ctx en ack_body_length run'] by (intro good_if) simp_all
    then show ?thesis
      unfolding processChat_def f prod.case Some option.case r Let_def
      by (rule good_bind) (auto intro: runs_frame)
  qed
qed

lemma queue_or_reply:
  assumes "\<And>q. runs h n (snd q) \<Longrightarrow> fst q \<Longrightarrow> good A Q (f (snd q))" and "\<And>q. runs h n (snd q) \<Longrightarrow> \<not> fst q \<Longrightarrow> good A Q (g (snd q))"
    and "runs h n (snd r)"
  shows "good A Q (case r of (True, s) \<Rightarrow> f s | (False, s) \<Rightarrow> g s)"
  using assms by (cases r) (auto split: bool.splits)

lemma processLogin_good:
  assumes e: "env_ok e" and ctx: "ctx_ok n ctx" and run: "runs (e_hash e) n s"
  shows "good A (runs (e_hash e) n) (processLogin e ctx body s)"
  unfolding processLogin_def Let_def
  by (rule queue_or_reply [where h = "e_hash e" and n = n])
    (auto intro!: runs_reply runs_enqueueDb runs_count e ctx run fixed_replies simp: ctx)

lemma processAck_good:
  assumes "runs h n s"
  shows "runs h n (processAck ctx body s)"
  using assms by (auto simp: processAck_def Let_def intro!: runs_enqueueRedis)

lemma processHistory_good:
  assumes e: "env_ok e" and ctx: "ctx_ok n ctx" and run: "runs (e_hash e) n s"
  shows "good A (runs (e_hash e) n) (processHistory e ctx body s)"
proof -
  obtain a where a: "account_of ctx s = Inr a" using ctx_ok_account [OF ctx] by blast
  have "good A (runs (e_hash e) n) (reply e ctx 8 ''[]'' s)" by (intro runs_reply e ctx run fixed_replies)
  moreover have "good A (runs (e_hash e) n) (case enqueueDbTask (History ctx fd t a i) s of
      (True, s) \<Rightarrow> Inr s | (False, s) \<Rightarrow> reply e ctx 8 ''[]'' s)" for fd t i
    by (rule queue_or_reply [where h = "e_hash e" and n = n])
      (auto intro!: runs_reply runs_enqueueDb e ctx run fixed_replies(8) simp: ctx)
  ultimately show ?thesis by (simp add: processHistory_def Let_def a)
qed

lemma processAddFriend_good:
  assumes e: "env_ok e" and ctx: "ctx_ok n ctx" and run: "runs (e_hash e) n s" and len: "length body \<le> 2 ^ 23"
  shows "good A (runs (e_hash e) n) (processAddFriend e ctx body s)"
proof -
  obtain a where a: "account_of ctx s = Inr a" using ctx_ok_account [OF ctx] by blast
  let ?f = "extractJsonValue body ''friend''"
  have f: "length ?f \<le> 2 ^ 23" using extractJsonValue_length [of body "''friend''"] len by linarith
  have "good A (runs (e_hash e) n) (reply e ctx 10 not_yourself s)" by (intro runs_reply e ctx run fixed_replies)
  moreover have "good A (runs (e_hash e) n) (case enqueueDbTask (AddFriend ctx fd a ?f) s of (True, s) \<Rightarrow> Inr s
      | (False, s) \<Rightarrow> if isCurrentSessionValid s ctx fd then reply e ctx 10 friend_busy s else Inr s)" for fd
    by (rule queue_or_reply [where h = "e_hash e" and n = n])
      (auto intro!: runs_reply runs_enqueueDb e ctx run fixed_replies simp: ctx f [simplified])
  ultimately show ?thesis using run by (simp add: processAddFriend_def Let_def a)
qed

lemma processFriendList_good:
  assumes e: "env_ok e" and ctx: "ctx_ok n ctx" and run: "runs (e_hash e) n s"
  shows "good A (runs (e_hash e) n) (processFriendList e ctx s)"
proof -
  obtain a where a: "account_of ctx s = Inr a" using ctx_ok_account [OF ctx] by blast
  have \<open>good A (runs (e_hash e) n) (case enqueueRedisTask (FriendList ctx fd a) s of
      (True, s) \<Rightarrow> Inr s | (False, s) \<Rightarrow> reply e ctx 12 ''{"friends":[]}'' s)\<close> for fd
    by (rule queue_or_reply [where h = "e_hash e" and n = n])
      (auto intro!: runs_reply runs_enqueueRedis e ctx run fixed_replies(9) simp: ctx)
  then show ?thesis using run by (simp add: processFriendList_def Let_def a)
qed

lemma processPacket_good:
  assumes "env_ok e" and "biz_ok n (ProcessPacket ctx t body)" and "runs (e_hash e) n s"
  shows "good A (runs (e_hash e) n) (processPacket e ctx t body s)"
proof -
  have ctx: "ctx_ok n ctx" and len: "t = 1 \<or> t = 9 \<Longrightarrow> length body \<le> 2 ^ 23"
    using assms(2) by (simp_all add: text_small_def)
  have "good A (runs (e_hash e) n) (reply e ctx 2 '''' s)" by (intro runs_reply assms ctx) simp
  then show ?thesis
    unfolding processPacket_def
    using processIdentify_good [OF ctx assms(3)] processChat_good [OF assms(1) ctx _ assms(3)] len
      processLogin_good [OF assms(1) ctx assms(3)] processAck_good [OF assms(3)]
      processHistory_good [OF assms(1) ctx assms(3)] processAddFriend_good [OF assms(1) ctx assms(3)]
      processFriendList_good [OF assms(1) ctx assms(3)] assms(3)
    by auto
qed


section \<open>Answers of the stores\<close>

text \<open>
  Limits on sizes: Redis values have at most 512 MB, which is its documented limit, and a query returns
  at most \<open>2 ^ 18\<close> rows.
\<close>

definition redis_values_ok :: "'r redis_api \<Rightarrow> bool" where
  "redis_values_ok api \<longleftrightarrow> (\<forall>k f r v. rd_hget api k f r = Some v \<longrightarrow> length v \<le> 2 ^ 29)
     \<and> (\<forall>k r v. rd_get api k r = Some v \<longrightarrow> length v \<le> 2 ^ 29)"

definition db_sizes_ok :: "'d db_api \<Rightarrow> bool" where
  "db_sizes_ok db \<longleftrightarrow> (\<forall>sql ps d rows. db_select db sql ps d = Some rows \<longrightarrow> length rows \<le> 2 ^ 18)"

text \<open>
  The faults that answers of the database can cause: the code uses a null handle or a null
  statement, which it does not check, and reads the length of a \<open>NULL\<close> column, which nobody sets.
\<close>

definition db_faults :: "'d db_api \<Rightarrow> 'd \<Rightarrow> fault set" where
  "db_faults db d = {f. f = NullPointer \<and> (\<not> db_conn db d \<or> \<not> db_stmt db d)
     \<or> f = Uninitialised \<and> (\<exists>sql ps rows. db_select db sql ps d = Some rows \<and> \<not> no_nulls rows)}"

lemma stmt_prepare_good: "good (db_faults db d) (\<lambda>_. True) (stmt_prepare db sql d)"
  by (simp add: stmt_prepare_def db_faults_def)

text \<open>What is fetched fits the buffers.\<close>

lemma bind_row_fits:
  assumes "fits sizes bufs" and "fits sizes row"
  shows "fits sizes (bind_row bufs row)"
  using assms unfolding fits_def bind_row_def list_all2_conv_all_nth by (auto split: option.splits)

lemma fits_the:
  assumes "fits sizes bufs" and "None \<notin> set bufs"
  shows "list_all2 (\<lambda>n v. length v \<le> n) sizes (map the bufs)"
  using assms unfolding fits_def by (induction rule: list_all2_induct) (auto split: option.splits)

lemma db_fetch_fits:
  assumes "fits sizes bufs"
  shows "good {Uninitialised} (\<lambda>rs. length rs \<le> length rows \<and> (\<forall>r \<in> set rs. list_all2 (\<lambda>n v. length v \<le> n) sizes r))
    (db_fetch sizes bufs rows)"
  using assms
proof (induction rows arbitrary: bufs)
  case (Cons row rows)
  show ?case
  proof (cases "fits sizes row \<and> None \<notin> set (bind_row bufs row)")
    case True
    then have f: "fits sizes (bind_row bufs row)" using bind_row_fits [OF Cons.prems] by blast
    from True Cons.IH [OF f] fits_the [OF f] show ?thesis
      by (cases "db_fetch sizes (bind_row bufs row) rows") (auto simp: Let_def)
  qed (auto simp: Let_def)
qed simp

lemma db_fetch_good:
  assumes "db_select db sql ps d = Some rows" and "set rows' \<subseteq> set rows" and "fits sizes bufs"
  shows "good (db_faults db d) (\<lambda>rs. length rs \<le> length rows' \<and> (\<forall>r \<in> set rs. list_all2 (\<lambda>n v. length v \<le> n) sizes r))
    (db_fetch sizes bufs rows')"
proof (cases "no_nulls rows'")
  case True
  have "length bufs = length sizes" using fits_length [OF assms(3)] .
  from db_fetch_no_nulls [OF True this] db_fetch_fits [OF assms(3), of rows'] show ?thesis by simp
next
  case False
  then have "\<not> no_nulls rows" using assms(2) by (auto simp: no_nulls_def)
  with assms(1) have "Uninitialised \<in> db_faults db d" by (auto simp: db_faults_def)
  with db_fetch_fits [OF assms(3), of rows'] show ?thesis by (cases "db_fetch sizes bufs rows'") auto
qed

lemma checkLogin_good:
  assumes "runs h n s"
  shows "good (db_faults db d) (\<lambda>(ok, s). runs h n s) (checkLoginFromDatabase db u p d s)"
proof -
  let ?s = "count_up (\<lambda>g. g\<lparr>g_loginDB := g_loginDB g + 1\<rparr>) s"
  have run: "runs h n ?s" using assms by (rule runs_count)
  have "good (db_faults db d) (\<lambda>(ok, s). runs h n s)
      (bindE (db_fetch [64] [None] (take 1 rows)) (\<lambda>rs. Inr (rs = [[p]], ?s)))"
    if "db_select db login_sql [VStr u] d = Some rows" for rows
    by (rule good_bind [OF db_fetch_good [OF that set_take_subset]]) (simp_all add: run fits_def)
  then show ?thesis
    unfolding checkLoginFromDatabase_def Let_def
    by (intro good_if good_bind [OF stmt_prepare_good]) (simp_all add: assms run split: option.split)
qed

lemma friend_list_good:
  assumes "db_sizes_ok db"
  shows "good (db_faults db d) (\<lambda>fs. length (buildFriendListJson fs) \<le> 2 ^ 29) (getFriendListFromDB db u d)"
proof -
  have names: "length (buildFriendListJson (map hd rs)) \<le> 2 ^ 29"
    if "length rs \<le> 2 ^ 18" and "\<forall>r \<in> set rs. list_all2 (\<lambda>n v. length v \<le> n) [128] r" for rs
  proof -
    have "\<forall>f \<in> set (map hd rs). length f \<le> 128" using that(2) by (auto simp: list_all2_Cons1)
    from length_friend_names [OF this] show ?thesis using that(1) by (simp add: buildFriendListJson_def)
  qed
  have "good (db_faults db d) (\<lambda>fs. length (buildFriendListJson fs) \<le> 2 ^ 29)
      (bindE (db_fetch [128] [Some ''''] rows) (\<lambda>rs. Inr (map hd rs)))"
    if "db_select db friends_sql [VStr u] d = Some rows" for rows
  proof (rule good_bind [OF db_fetch_good [OF that subset_refl]])
    have "length rows \<le> 2 ^ 18" using assms that by (simp add: db_sizes_ok_def)
    then show "good (db_faults db d) (\<lambda>fs. length (buildFriendListJson fs) \<le> 2 ^ 29) (Inr (map hd rs))"
      if "length rs \<le> length rows \<and> (\<forall>r \<in> set rs. list_all2 (\<lambda>n v. length v \<le> n) [128] r)" for rs
      using that names [of rs] by simp
  qed (simp add: fits_def)
  then show ?thesis
    unfolding getFriendListFromDB_def
    by (intro good_bind [OF stmt_prepare_good] good_if) (simp_all add: buildFriendListJson_def split: option.split)
qed

lemma getFriendListJson_good:
  assumes "redis_values_ok api" and "db_sizes_ok db"
  shows "good (db_faults db d) (\<lambda>(j, r). length j \<le> 2 ^ 29) (getFriendListJson api db u d r)"
proof -
  have "length (c_str v) \<le> 2 ^ 29" if "rd_get api k r = Some v" for k r v
    using that assms(1) length_takeWhile_le [of "\<lambda>c. c \<noteq> CHR 0x00" v]
    unfolding redis_values_ok_def c_str_def by (meson order_trans)
  then show ?thesis
    using friend_list_good [OF assms(2), of d u] unfolding getFriendListJson_def
    by (cases "getFriendListFromDB db u d") (auto simp: Let_def split: option.splits)
qed

lemma history_rows_length:
  assumes "\<forall>r \<in> set rs. list_all2 (\<lambda>n v. length v \<le> n) [64, 64, 1024, 64] r"
  shows "length (history_rows first rs) \<le> 1300 * length rs"
  using assms
proof (induction rs arbitrary: first)
  case (Cons r rs)
  then have "length (history_row r) \<le> 1299" by (auto simp: history_row_def list_all2_Cons1)
  moreover have "length (history_rows False rs) \<le> 1300 * length rs" using Cons by simp
  ultimately show ?case by simp
qed simp

lemma historyQuery_good:
  assumes "db_sizes_ok db"
  shows "good (db_faults db d) (\<lambda>j. case j of None \<Rightarrow> True | Some j \<Rightarrow> length j \<le> 2 ^ 29) (historyQuery db i t d)"
proof -
  let ?ps = "[VStr i, VStr t, VInt (int kHistoryMaxRows)]" and ?sizes = "[64, 64, 1024, 64]"
  let ?rows = "case db_select db history_sql ?ps d of None \<Rightarrow> [] | Some rows \<Rightarrow> rows"
  have "good (db_faults db d) (\<lambda>rs. length rs \<le> 2 ^ 18 \<and> (\<forall>r \<in> set rs. list_all2 (\<lambda>n v. length v \<le> n) ?sizes r))
      (db_fetch ?sizes [None, None, None, None] ?rows)"
  proof (cases "db_select db history_sql ?ps d")
    case (Some rows)
    then have "length rows \<le> 2 ^ 18" using assms by (simp add: db_sizes_ok_def)
    then show ?thesis
      using good_mono [OF db_fetch_good [OF Some subset_refl, of ?sizes "[None, None, None, None]"]] Some
      by (auto simp: fits_def)
  qed simp
  note fetch = this
  have "good (db_faults db d) (\<lambda>j. case j of None \<Rightarrow> True | Some j \<Rightarrow> length j \<le> 2 ^ 29)
      (bindE (db_fetch ?sizes [None, None, None, None] ?rows) (\<lambda>rs. Inr (Some (''['' @ history_rows True rs @ '']''))))"
  proof (rule good_bind [OF fetch], goal_cases)
    case (1 rs)
    then show ?case using history_rows_length [of rs True] by simp
  qed
  then show ?thesis
    unfolding historyQuery_def Let_def by (intro good_bind [OF stmt_prepare_good] good_if) simp_all
qed


section \<open>Tasks\<close>

lemma reply_valid_good:
  assumes "env_ok e" and "ctx_ok n ctx" and "length data \<le> 2 ^ 29" and "runs (e_hash e) n s"
  shows "good A (runs (e_hash e) n) (reply_valid e ctx fd t data s)"
  using runs_reply [OF assms] assms(4) by (simp add: reply_valid_def)

lemma c_str_length: "length (c_str s) \<le> length s"
  unfolding c_str_def by (rule length_takeWhile_le)

lemma fetch_loop_small:
  assumes "redis_values_ok api" and "fetch_loop api u is ms r = (ms', r')" and "\<forall>m \<in> set ms. length m \<le> 2 ^ 29"
  shows "\<forall>m \<in> set ms'. length m \<le> 2 ^ 29"
  using assms(2,3)
proof (induction "is" arbitrary: ms r)
  case (Cons i "is")
  let ?v = "rd_hget api (c_str (keyPayload u)) (c_str i) r"
  consider r1 where "fetch_loop api u is ms r1 = (ms', r')"
    | v where "?v = Some v" "fetch_loop api u is (ms @ [c_str v]) r = (ms', r')"
    using Cons.prems(1) by (cases "rd_ok api r"; cases ?v) (auto simp: Let_def)
  then show ?case
  proof cases
    case 1
    then show ?thesis using Cons by blast
  next
    case (2 v)
    have "length (c_str v) \<le> 2 ^ 29"
      using assms(1) 2(1) c_str_length [of v] unfolding redis_values_ok_def by (meson order_trans)
    then show ?thesis using Cons.IH [OF 2(2)] Cons.prems(2) by simp
  qed
qed simp

lemma dispatch_loop_good:
  assumes "env_ok e" and "p < n" and "\<forall>m \<in> set ms. length m \<le> 2 ^ 29" and "runs (e_hash e) n s"
  shows "good A (\<lambda>(s, r). runs (e_hash e) n s) (dispatch_loop api (e_hash e) (e_alloc e) clock u p all ms s r)"
  using assms(3,4)
proof (induction ms arbitrary: s r)
  case (Cons m ms)
  let ?i = "extractJsonValue m ''msg_id''"
  let ?go = "dispatch_loop api (e_hash e) (e_alloc e) clock u p all ms"
  obtain a r1 where a: "getPendingAttempt api u ?i r = (a, r1)" by (cases "getPendingAttempt api u ?i r")
  have IH: "good A (\<lambda>(s, r). runs (e_hash e) n s) (?go s r)" if "runs (e_hash e) n s" for s r
    using Cons.IH [OF _ that] Cons.prems(1) by simp
  have m: "good A (runs (e_hash e) n) (reply e (Some p) 1 m s)"
    using Cons.prems assms(2) by (intro runs_reply [OF assms(1)]) (simp_all add: ctx_ok_def)
  show ?case
    unfolding dispatch_loop.simps Let_def a prod.case
    by (intro good_if IH Cons.prems(2) good_bind [OF m]) assumption+
qed simp

lemma dispatchDue_good:
  assumes "env_ok e" and "redis_values_ok api" and "p < n" and "runs (e_hash e) n s"
  shows "good A (\<lambda>(s, r). runs (e_hash e) n s)
    (dispatchDueMessagesForUser api (e_hash e) (e_alloc e) now clock u (Some p) all s r)"
proof -
  obtain ms r' where f: "fetchPendingMessages api now u kRetryBatchPerUser (\<not> all) r = (ms, r')"
    by (cases "fetchPendingMessages api now u kRetryBatchPerUser (\<not> all) r")
  then have "\<forall>m \<in> set ms. length m \<le> 2 ^ 29"
    using fetch_loop_small [OF assms(2)] by (auto simp: fetchPendingMessages_def split: if_splits)
  from dispatch_loop_good [OF assms(1,3) this assms(4), of A api clock u all r'] show ?thesis
    using f assms(4) by (simp add: dispatchDueMessagesForUser_def)
qed

lemma checked_reply:
  assumes "env_ok e" and "ctx_ok n ctx" and "length data \<le> 2 ^ 29" and "runs (e_hash e) n s"
  shows "good A (\<lambda>(s, x). runs (e_hash e) n s) (bindE (reply_valid e ctx fd t data s) (\<lambda>s. Inr (s, x)))"
  by (rule good_bind [OF reply_valid_good [OF assms]]) simp

lemma login_friends:
  assumes "env_ok e" and "redis_values_ok api" and "db_sizes_ok db" and "ctx_ok n ctx" and "runs (e_hash e) n s"
  shows "good (db_faults db d) (\<lambda>(s, r). runs (e_hash e) n s)
    (bindE (getFriendListJson api db u d r) (\<lambda>(j, r). bindE (reply e ctx 12 j s) (\<lambda>s. Inr (s, r))))"
  by (rule good_pair [where P = "\<lambda>j. length j \<le> 2 ^ 29"], rule getFriendListJson_good [OF assms(2,3)],
      rule good_bind [OF runs_reply [OF assms(1,4) _ assms(5)]], assumption, simp)

lemma runLogin_good:
  assumes e: "env_ok e" and api: "redis_values_ok api" and db: "db_sizes_ok db"
    and ctx: "ctx_ok n ctx" and run: "runs (e_hash e) n s"
  shows "good (db_faults db d) (\<lambda>(s, r). runs (e_hash e) n s) (runLogin e api db ctx fd u pw s r d)"
proof -
  obtain p where p: "ctx = Some p" "p < n" using ctx by (auto simp: ctx_ok_def)
  have fail: "good (db_faults db d) (\<lambda>(s, r). runs (e_hash e) n s)
      (bindE (reply_valid e ctx fd 5 result_fail (count_up f s)) (\<lambda>s. Inr (s, r)))"
    if "runs (e_hash e) n s" for s f
    by (rule checked_reply [OF e ctx fixed_replies(6) runs_count [OF that]])
  have pending: "good (db_faults db d) (\<lambda>(s, r). runs (e_hash e) n s)
      (dispatchDueMessagesForUser api (e_hash e) (e_alloc e) (e_nowMs e) (e_dueClock e) u ctx True s r)"
    if "runs (e_hash e) n s" for s r
    unfolding p(1) by (rule dispatchDue_good [OF e api p(2) that])
  have rest: "good (db_faults db d) (\<lambda>(s, r). runs (e_hash e) n s)
      (bindE (if isCurrentSessionValid s ctx fd
              then bindE (getFriendListJson api db u d r) (\<lambda>(j, r). bindE (reply e ctx 12 j s) (\<lambda>s. Inr (s, r)))
              else Inr (s, r)) (\<lambda>(s, r).
       if isCurrentSessionValid s ctx fd
       then dispatchDueMessagesForUser api (e_hash e) (e_alloc e) (e_nowMs e) (e_dueClock e) u ctx True s r
       else Inr (s, r)))" if "runs (e_hash e) n s" for s r
    by (rule good_pair, rule good_if, rule login_friends [OF e api db ctx that], simp add: that,
        rule good_if, rule pending, assumption, simp)
  let ?done = "\<lambda>s. bindE (set_account ctx u (s\<lparr>s_reg := setOnlineUser (e_hash e) u ctx (s_reg s)\<rparr>)) (\<lambda>s.
      bindE (reply e ctx 5 result_success s) (\<lambda>s.
      bindE (if isCurrentSessionValid s ctx fd
              then bindE (getFriendListJson api db u d r) (\<lambda>(j, r). bindE (reply e ctx 12 j s) (\<lambda>s. Inr (s, r)))
              else Inr (s, r)) (\<lambda>(s, r).
       if isCurrentSessionValid s ctx fd
       then dispatchDueMessagesForUser api (e_hash e) (e_alloc e) (e_nowMs e) (e_dueClock e) u ctx True s r
       else Inr (s, r))))"
  have success: "good (db_faults db d) (\<lambda>(s, r). runs (e_hash e) n s) (?done s)" if "runs (e_hash e) n s" for s
    by (rule good_bind [OF runs_bind_user [OF ctx that]], rule good_bind [OF runs_reply [OF e ctx fixed_replies(7)]],
        assumption, rule rest, assumption)
  have "good (db_faults db d) (\<lambda>(s, r). runs (e_hash e) n s) (case x of (ok, s) \<Rightarrow>
      if \<not> ok then bindE (reply_valid e ctx fd 5 result_fail (count_up (\<lambda>g. g\<lparr>g_loginFail := g_loginFail g + 1\<rparr>) s)) (\<lambda>s. Inr (s, r))
      else if \<not> isCurrentSessionValid (count_up (\<lambda>g. g\<lparr>g_loginOk := g_loginOk g + 1\<rparr>) s) ctx fd
      then Inr (count_up (\<lambda>g. g\<lparr>g_loginOk := g_loginOk g + 1\<rparr>) s, r)
      else ?done (count_up (\<lambda>g. g\<lparr>g_loginOk := g_loginOk g + 1\<rparr>) s))" if "case x of (ok, s) \<Rightarrow> runs (e_hash e) n s" for x
  proof -
    obtain ok s where x: "x = (ok, s)" by (cases x)
    with that have "runs (e_hash e) n s" by simp
    then show ?thesis unfolding x prod.case
      by (intro good_if fail success runs_count) (simp_all add: runs_count)
  qed
  then show ?thesis
    unfolding runLogin_def Let_def
    by (intro good_if good_bind [OF checkLogin_good [OF run]]) (simp_all add: run)
qed


lemma runHistory_good:
  assumes "env_ok e" and "db_sizes_ok db" and "ctx_ok n ctx" and "runs (e_hash e) n s"
  shows "good (db_faults db d) (runs (e_hash e) n) (runHistory e db ctx fd t i s d)"
  unfolding runHistory_def
  by (rule good_bind [OF historyQuery_good [OF assms(2)]])
    (use assms(4) reply_valid_good [OF assms(1,3) _ assms(4)] in \<open>simp split: option.splits\<close>)

lemma user_exists_good: "good (db_faults db d) (\<lambda>_. True) (userExistsInDB db f d)"
  unfolding userExistsInDB_def
  by (intro good_bind [OF stmt_prepare_good] good_if) (simp_all split: option.split)

lemma add_friend_good: "good (db_faults db d) (\<lambda>(b, d). True) (addFriendToDB db u f d)"
  unfolding addFriendToDB_def
  by (intro good_bind [OF stmt_prepare_good] good_if) (simp_all split: prod.split)

lemma runAddFriend_good:
  assumes e: "env_ok e" and db: "db_sizes_ok db" and ctx: "ctx_ok n ctx" and f: "length f \<le> 2 ^ 23"
    and run: "runs (e_hash e) n s"
  shows "good (db_faults db d) (\<lambda>(s, d). runs (e_hash e) n s) (runAddFriend e db ctx fd u f s d)"
proof -
  note rep = checked_reply [OF e ctx]
  have added: "length (friend_added f) \<le> 2 ^ 29" using f by (simp add: friend_added_def)
  have queued: "runs (e_hash e) n (snd (enqueueRedisTask (Invalidate u f) s))"
    by (rule runs_enqueueRedis [OF _ run]) simp
  show ?thesis
    unfolding runAddFriend_def Let_def
    by (intro good_bind [OF user_exists_good] good_if rep fixed_replies run good_pair [OF add_friend_good] added queued)
qed

lemma taskDone_runs:
  assumes "runs h n s"
  shows "runs h n (dbTaskDone s)" and "runs h n (redisTaskDone s)"
  by (rule runs_frame [OF assms]; simp add: dbTaskDone_def redisTaskDone_def Let_def)+

lemma runDbTask_good:
  assumes "env_ok e" and "redis_values_ok api" and "db_sizes_ok db" and "db_ok n task" and "runs (e_hash e) n s"
  shows "good (db_faults db d) (\<lambda>(s, r, d). runs (e_hash e) n s) (runDbTask e api db task s r d)"
proof (cases task)
  case (Login ctx fd u pw)
  then have "good (db_faults db d) (\<lambda>(s, r). runs (e_hash e) n s) (runLogin e api db ctx fd u pw s r d)"
    using assms by (intro runLogin_good) simp_all
  then show ?thesis unfolding Login runDbTask.simps by (rule good_pair) (simp add: taskDone_runs)
next
  case (History ctx fd t u i)
  then have "good (db_faults db d) (runs (e_hash e) n) (runHistory e db ctx fd t i s d)"
    using assms by (intro runHistory_good) simp_all
  then show ?thesis unfolding History runDbTask.simps by (rule good_bind) (simp add: taskDone_runs)
next
  case (AddFriend ctx fd u f)
  then have "good (db_faults db d) (\<lambda>(s, d). runs (e_hash e) n s) (runAddFriend e db ctx fd u f s d)"
    using assms by (intro runAddFriend_good) simp_all
  then show ?thesis unfolding AddFriend runDbTask.simps by (rule good_pair) (simp add: taskDone_runs)
qed

lemma runDeliver_good:
  assumes e: "env_ok e" and task: "redis_ok n (Deliver ctx fd target tctx en ack i)" and run: "runs (e_hash e) n s"
  shows "good A (\<lambda>(s, r). runs (e_hash e) n s) (runDeliver e api ctx fd target tctx en ack i s r)"
proof -
  have ok: "ctx_ok n ctx" "tctx = None \<or> ctx_ok n tctx" "length en \<le> 2 ^ 29" "length ack \<le> 2 ^ 29"
    using task by auto
  obtain b r' where st: "storePendingMessage api (e_nowMs e) target i en r = (b, r')"
    by (cases "storePendingMessage api (e_nowMs e) target i en r")
  have target: "good A (runs (e_hash e) n) (case tctx of None \<Rightarrow> Inr s
      | Some q \<Rightarrow> reply_valid e tctx (c_fd (s_ctxs s q)) 1 en s)" if "runs (e_hash e) n s" for s
    using reply_valid_good [OF e _ ok(3) that, of tctx] ok(2) that by (auto split: option.splits)
  have "good A (\<lambda>(s, r). runs (e_hash e) n s) (bindE (reply_valid e ctx fd MSG_TYPE_ACK ack s) (\<lambda>s.
      bindE (case tctx of None \<Rightarrow> Inr s | Some q \<Rightarrow> reply_valid e tctx (c_fd (s_ctxs s q)) 1 en s) (\<lambda>s. Inr (s, r'))))"
    by (rule good_bind [OF reply_valid_good [OF e ok(1,4) run]], rule good_bind [OF target]) simp_all
  then show ?thesis unfolding runDeliver_def st prod.case using run by (cases b) simp_all
qed

lemma runRedisTask_good:
  assumes "env_ok e" and "redis_values_ok api" and "db_sizes_ok db" and "redis_ok n task" and "runs (e_hash e) n s"
  shows "good (db_faults db d) (\<lambda>(s, r). runs (e_hash e) n s) (runRedisTask e api db task s r d)"
proof (cases task)
  case (Deliver ctx fd target tctx en ack i)
  then have "good (db_faults db d) (\<lambda>(s, r). runs (e_hash e) n s) (runDeliver e api ctx fd target tctx en ack i s r)"
    using assms by (intro runDeliver_good) simp_all
  then show ?thesis unfolding Deliver runRedisTask.simps by (rule good_pair) (simp add: taskDone_runs)
next
  case (FriendList ctx fd u)
  then have ctx: "ctx_ok n ctx" using assms(4) by simp
  have "good (db_faults db d) (\<lambda>(s, r). runs (e_hash e) n s) (runFriendList e api db ctx fd u s r d)"
    unfolding runFriendList_def
    by (rule good_pair [OF getFriendListJson_good [OF assms(2,3)]], rule checked_reply [OF assms(1) ctx _ assms(5)])
  then show ?thesis unfolding FriendList runRedisTask.simps by (rule good_pair) (simp add: taskDone_runs)
qed (use taskDone_runs [OF assms(5)] in simp_all)

lemma retry_users_good:
  assumes "env_ok e" and "redis_values_ok api" and "runs (e_hash e) n s"
  shows "good A (\<lambda>(s, r). runs (e_hash e) n s) (retry_users api (e_hash e) (e_alloc e) alive now clock users s r)"
  using assms(3)
proof (induction users arbitrary: s r)
  case (Cons u users)
  show ?case
  proof (cases "getOnlineCtx (e_hash e) alive (s_reg s) (c_str u)")
    case None
    with Cons show ?thesis by (simp add: Let_def)
  next
    case (Some p)
    have "good A (\<lambda>(s, r). runs (e_hash e) n s)
        (dispatchDueMessagesForUser api (e_hash e) (e_alloc e) now clock (c_str u) (Some p) False s r)"
      by (rule dispatchDue_good [OF assms(1,2) runs_online [OF Cons.prems Some] Cons.prems])
    then show ?thesis unfolding retry_users.simps Let_def Some option.case by (rule good_pair) (rule Cons.IH)
  qed
qed simp

lemma retry_round_good:
  assumes "env_ok e" and "redis_values_ok api" and "runs (e_hash e) n s"
  shows "good A (\<lambda>(s, r). runs (e_hash e) n s) (retry_round api (e_hash e) (e_alloc e) alive now clock s r)"
  unfolding retry_round_def using retry_users_good [OF assms] assms(3) by (intro good_if) simp_all


section \<open>The running system\<close>

record ('r, 'd) world =
  w_srv :: server
  w_redis :: 'r
  w_db :: 'd

text \<open>
  One step of a thread, with the state after it or the fault that stops it. Every step has its own
  environment out of the set \<open>envs\<close>: the answers of the memory pool and of the clocks. One event brings at
  most \<open>2 ^ 61\<close> bytes. Taking a task and running it are separate steps, so that tasks of different workers
  overlap; the text of a task runs as a unit.
\<close>

inductive world_step :: "env set \<Rightarrow> 'r redis_api \<Rightarrow> 'd db_api \<Rightarrow> ('r, 'd) world \<Rightarrow> fault + ('r, 'd) world \<Rightarrow> bool"
  for envs api db where
  accept: "e \<in> envs \<Longrightarrow>
     world_step envs api db w (bindE (handleAccept (e_alloc e) conns (w_srv w)) (\<lambda>s. Inr (w\<lparr>w_srv := s\<rparr>)))"
| event: "e \<in> envs \<Longrightarrow>
     (case ev_in ev of Some answers \<Rightarrow> length (received answers) \<le> 2 ^ 61 | None \<Rightarrow> True) \<Longrightarrow>
     world_step envs api db w (bindE (handleEvent (e_hash e) (e_alloc e) ev (w_srv w)) (\<lambda>s. Inr (w\<lparr>w_srv := s\<rparr>)))"
| biz_take: "i < length (tp_workers (s_pool (w_srv w))) \<Longrightarrow> tp_workers (s_pool (w_srv w)) ! i = Waiting \<Longrightarrow>
     tp_take i (s_pool (w_srv w)) = Some p \<Longrightarrow> world_step envs api db w (Inr (w\<lparr>w_srv := (w_srv w)\<lparr>s_pool := p\<rparr>\<rparr>))"
| biz_run: "e \<in> envs \<Longrightarrow> i < length (tp_workers (s_pool (w_srv w))) \<Longrightarrow>
     tp_workers (s_pool (w_srv w)) ! i = Running (ProcessPacket ctx t body) \<Longrightarrow>
     world_step envs api db w (bindE (processPacket e ctx t body (w_srv w)) (\<lambda>s.
       Inr (w\<lparr>w_srv := s\<lparr>s_pool := tp_done i (ProcessPacket ctx t body) (s_pool s)\<rparr>\<rparr>)))"
| db_take: "i < length (tp_workers (s_dbPool (w_srv w))) \<Longrightarrow> tp_workers (s_dbPool (w_srv w)) ! i = Waiting \<Longrightarrow>
     tp_take i (s_dbPool (w_srv w)) = Some p \<Longrightarrow> world_step envs api db w (Inr (w\<lparr>w_srv := (w_srv w)\<lparr>s_dbPool := p\<rparr>\<rparr>))"
| db_run: "e \<in> envs \<Longrightarrow> i < length (tp_workers (s_dbPool (w_srv w))) \<Longrightarrow>
     tp_workers (s_dbPool (w_srv w)) ! i = Running task \<Longrightarrow>
     world_step envs api db w (bindE (runDbTask e api db task (w_srv w) (w_redis w) (w_db w)) (\<lambda>(s, r, d).
       Inr (w\<lparr>w_srv := s\<lparr>s_dbPool := tp_done i task (s_dbPool s)\<rparr>, w_redis := r, w_db := d\<rparr>)))"
| redis_take: "i < length (tp_workers (s_redisPool (w_srv w))) \<Longrightarrow> tp_workers (s_redisPool (w_srv w)) ! i = Waiting \<Longrightarrow>
     tp_take i (s_redisPool (w_srv w)) = Some p \<Longrightarrow> world_step envs api db w (Inr (w\<lparr>w_srv := (w_srv w)\<lparr>s_redisPool := p\<rparr>\<rparr>))"
| redis_run: "e \<in> envs \<Longrightarrow> i < length (tp_workers (s_redisPool (w_srv w))) \<Longrightarrow>
     tp_workers (s_redisPool (w_srv w)) ! i = Running task \<Longrightarrow>
     world_step envs api db w (bindE (runRedisTask e api db task (w_srv w) (w_redis w) (w_db w)) (\<lambda>(s, r).
       Inr (w\<lparr>w_srv := s\<lparr>s_redisPool := tp_done i task (s_redisPool s)\<rparr>, w_redis := r\<rparr>)))"
| retry: "e \<in> envs \<Longrightarrow>
     world_step envs api db w (bindE (retry_round api (e_hash e) (e_alloc e) (e_alive e) (e_nowMs e) (e_dueClock e) (w_srv w) (w_redis w))
       (\<lambda>(s, r). Inr (w\<lparr>w_srv := s, w_redis := r\<rparr>)))"
| log_swap: "cl_flush (s_chatLog (w_srv w)) = [] \<Longrightarrow>
     world_step envs api db w (Inr (w\<lparr>w_srv := (w_srv w)\<lparr>s_chatLog := cl_swap (s_chatLog (w_srv w))\<rparr>\<rparr>))"
| log_batch: "cl_flush (s_chatLog (w_srv w)) \<noteq> [] \<Longrightarrow> take_batch (s_chatLog (w_srv w)) = (batch, cl) \<Longrightarrow>
     world_step envs api db w (Inr (w\<lparr>w_srv := (w_srv w)\<lparr>s_chatLog := cl\<rparr>,
       w_db := flush_to_db db md5 bound batch (w_db w)\<rparr>))"

inductive_cases world_stepE: "world_step envs api db w x"

text \<open>What taking and finishing a task does to the tasks of a pool.\<close>

lemma running_update:
  assumes "x \<in> set (concat (map running (ws[i := v])))"
  shows "x \<in> set (running v) \<or> x \<in> set (concat (map running ws))"
proof -
  obtain w where "w \<in> set (ws[i := v])" and x: "x \<in> set (running w)" using assms by auto
  then have "w = v \<or> w \<in> set ws" using set_update_subset_insert [of ws i v] by blast
  with x show ?thesis by auto
qed

lemma take_tasks:
  assumes "tp_take i p = Some p'"
  shows "pool_tasks p' \<subseteq> pool_tasks p"
proof
  fix x
  assume x: "x \<in> pool_tasks p'"
  show "x \<in> pool_tasks p"
  proof (cases "tp_tasks p = []")
    case True
    then have "p' = p\<lparr>tp_workers := (tp_workers p)[i := Exited]\<rparr>"
      using assms by (auto simp: tp_take_def split: if_splits)
    with True x show ?thesis
      using running_update [of x "tp_workers p" i Exited] by (simp add: pool_tasks_def tp_running_def)
  next
    case False
    let ?t = "hd (tp_tasks p)"
    from False have t: "?t \<in> set (tp_tasks p)" "set (tl (tp_tasks p)) \<subseteq> set (tp_tasks p)"
      by (auto dest: list.set_sel(2))
    have p': "tp_tasks p' = tl (tp_tasks p)" "tp_workers p' = (tp_workers p)[i := Running ?t]"
      using assms False by (auto simp: tp_take_def split: if_splits)
    with x consider "x \<in> set (tl (tp_tasks p))" | "x \<in> set (concat (map running ((tp_workers p)[i := Running ?t])))"
      by (auto simp: pool_tasks_def tp_running_def)
    then show ?thesis
      using t running_update [of x "tp_workers p" i "Running ?t"] by cases (auto simp: pool_tasks_def tp_running_def)
  qed
qed

lemma done_tasks: "pool_tasks (tp_done i t p) \<subseteq> pool_tasks p"
proof
  fix x
  assume "x \<in> pool_tasks (tp_done i t p)"
  then show "x \<in> pool_tasks p"
    using running_update [of x "tp_workers p" i Waiting] by (auto simp: tp_done_def pool_tasks_def tp_running_def)
qed

lemma running_task:
  assumes "i < length (tp_workers p)" and "tp_workers p ! i = Running t"
  shows "t \<in> pool_tasks p"
proof -
  have "Running t \<in> set (tp_workers p)" using assms nth_mem [of i "tp_workers p"] by simp
  then have "t \<in> set (tp_running p)" unfolding tp_running_def by (force simp: running_def)
  then show ?thesis by (simp add: pool_tasks_def)
qed

lemma runs_pools:
  assumes "runs h n s" and "s_reg s' = s_reg s" and "s_ctxs s' = s_ctxs s" and "s_nextCtx s' = s_nextCtx s"
    and "pool_tasks (s_pool s') \<subseteq> pool_tasks (s_pool s)" and "pool_tasks (s_dbPool s') \<subseteq> pool_tasks (s_dbPool s)"
    and "pool_tasks (s_redisPool s') \<subseteq> pool_tasks (s_redisPool s)"
  shows "runs h n s'"
  using assms srv_inv_frame [of h s s'] unfolding runs_iff online_def by (auto dest: subsetD)


lemma runs_done:
  assumes "runs h n s"
  shows "runs h n (s\<lparr>s_pool := tp_done i b (s_pool s)\<rparr>)" and "runs h n (s\<lparr>s_dbPool := tp_done i d (s_dbPool s)\<rparr>)"
    and "runs h n (s\<lparr>s_redisPool := tp_done i r (s_redisPool s)\<rparr>)"
  by (rule runs_pools [OF assms]; simp add: done_tasks)+

text \<open>
  The assumption on the environments of a run: one hash function for the whole run, as in one
  process, memory for every request, and a time text of at most 100 characters.
\<close>

definition run_env :: "(string \<Rightarrow> size_t) \<Rightarrow> env \<Rightarrow> bool" where
  "run_env hash e \<longleftrightarrow> e_hash e = hash \<and> memory_available (e_alloc e) \<and> length (e_time e) \<le> 100"

lemma run_envD: "run_env hash e \<Longrightarrow> env_ok e \<and> e_hash e = hash \<and> (\<exists>junk. e_alloc e = block_of junk)"
  by (auto simp: run_env_def env_ok_def memory_available_def)

lemma world_step_ok:
  assumes "redis_values_ok api" and "db_sizes_ok db" and "\<forall>e \<in> envs. run_env hash e" and "run_inv hash (w_srv w)"
    and "world_step envs api db w x"
  shows "case x of Inl f \<Rightarrow> f = Diverges \<or> f \<in> db_faults db (w_db w) | Inr w' \<Rightarrow> run_inv hash (w_srv w')"
proof -
  define n where "n = s_nextCtx (w_srv w)"
  let ?A = "db_faults db (w_db w)"
  have run: "runs hash n (w_srv w)" using assms(4) by (simp add: runs_def n_def)
  have inv: "srv_inv hash (w_srv w)" using assms(4) by (simp add: run_inv_def)
  note reg = srv_invD(1) [OF inv]
  have R: "runs hash n s \<Longrightarrow> run_inv hash s" for s by (simp add: runs_def)
  have env: "env_ok e" "e_hash e = hash" "\<exists>junk. e_alloc e = block_of junk" if "e \<in> envs" for e
    using run_envD assms(3) that by blast+
  from assms(5) have "good ?A (\<lambda>w'. run_inv hash (w_srv w')) x"
  proof cases
    case (accept e conns)
    then obtain junk where j: "e_alloc e = block_of junk" using env by blast
    obtain s' where s': "handleAccept (e_alloc e) conns (w_srv w) = Inr s'" "srv_inv hash s'"
      using handleAccept_ok [OF inv] unfolding j by blast
    then show ?thesis using accept run_inv_adds [OF assms(4) handleAccept_adds [OF reg s'(1)]] by simp
  next
    case (event e ev)
    then obtain junk where j: "e_alloc e = block_of junk" using env by blast
    from handleEvent_ok [OF inv event(3), of junk] show ?thesis
      using event(1) run_inv_adds [OF assms(4) handleEvent_adds [OF inv event(3)]] by (auto simp: j env(2) [OF event(2)])
  next
    case (biz_take i p)
    show ?thesis unfolding biz_take(1) using take_tasks [OF biz_take(4)] by (auto intro!: R runs_pools [OF run])
  next
    case (biz_run e i ctx t body)
    have "biz_ok n (ProcessPacket ctx t body)" using run running_task [OF biz_run(3,4)] by (auto simp: runs_iff)
    from processPacket_good [OF env(1) [OF biz_run(2)] this] run env(2) [OF biz_run(2)]
    have "good ?A (runs hash n) (processPacket e ctx t body (w_srv w))" by simp
    then show ?thesis unfolding biz_run(1)
      by (rule good_bind) (auto intro!: R runs_done)
  next
    case (db_take i p)
    show ?thesis unfolding db_take(1) using take_tasks [OF db_take(4)] by (auto intro!: R runs_pools [OF run])
  next
    case (db_run e i task)
    have "db_ok n task" using run running_task [OF db_run(3,4)] by (auto simp: runs_iff)
    from runDbTask_good [OF env(1) [OF db_run(2)] assms(1,2) this] run env(2) [OF db_run(2)]
    have "good ?A (\<lambda>(s, r, d). runs hash n s) (runDbTask e api db task (w_srv w) (w_redis w) (w_db w))" by simp
    then show ?thesis unfolding db_run(1)
      by (rule good_bind) (auto intro!: R runs_done)
  next
    case (redis_take i p)
    show ?thesis unfolding redis_take(1) using take_tasks [OF redis_take(4)] by (auto intro!: R runs_pools [OF run])
  next
    case (redis_run e i task)
    have "redis_ok n task" using run running_task [OF redis_run(3,4)] by (auto simp: runs_iff)
    from runRedisTask_good [OF env(1) [OF redis_run(2)] assms(1,2) this] run env(2) [OF redis_run(2)]
    have "good ?A (\<lambda>(s, r). runs hash n s) (runRedisTask e api db task (w_srv w) (w_redis w) (w_db w))" by simp
    then show ?thesis unfolding redis_run(1)
      by (rule good_bind) (auto intro!: R runs_done)
  next
    case (retry e)
    have "good ?A (\<lambda>(s, r). runs hash n s)
        (retry_round api (e_hash e) (e_alloc e) (e_alive e) (e_nowMs e) (e_dueClock e) (w_srv w) (w_redis w))"
      using retry_round_good [OF env(1) [OF retry(2)] assms(1)] run env(2) [OF retry(2)] by metis
    then show ?thesis unfolding retry(1) by (rule good_bind) (auto intro!: R)
  qed (auto intro!: R runs_pools [OF run])
  then show ?thesis by (simp add: good_def)
qed

text \<open>Steps that end with a state.\<close>

definition world_next :: "env set \<Rightarrow> 'r redis_api \<Rightarrow> 'd db_api \<Rightarrow> ('r, 'd) world \<Rightarrow> ('r, 'd) world \<Rightarrow> bool" where
  "world_next envs api db w w' \<longleftrightarrow> world_step envs api db w (Inr w')"

lemma world_reach_ok:
  assumes "(world_next envs api db)\<^sup>*\<^sup>* w w'" and "redis_values_ok api" and "db_sizes_ok db"
    and "\<forall>e \<in> envs. run_env hash e" and "run_inv hash (w_srv w)"
  shows "run_inv hash (w_srv w')"
  using assms(1)
proof (induction rule: rtranclp_induct)
  case (step y z)
  then show ?case using world_step_ok [OF assms(2-4) step.IH, of "Inr z"] by (simp add: world_next_def)
qed (rule assms(5))

text \<open>
  (C1) The running server stays well-formed, given memory. Assume that the memory pool answers every request
  with a block (\<open>run_env\<close>), that Redis values and query results keep to their size limits, and that one event
  brings at most \<open>2 ^ 61\<close> bytes. Then from a well-formed state, after any number of steps, every step of
  every thread (accepting, events with any bytes and any answers of the kernel, packets of every type,
  logins, history and friend requests, deliveries, acknowledgements, retry rounds, log batches, in
  any interleaving) leads to a well-formed state again, or is stopped by one of three faults. Well-formed means:
  registries, contexts and buffers fit together, every task waiting or running in a pool refers to
  contexts that exist and carries texts that can be sent, and every user who is online is bound to a
  context that exists. The faults are: a loop that does not end (a hostile body, or a clock that stands
  still while a message number is awaited); the use of a null pointer, only when in this very step the
  database library gives no handle or no statement, which the code does not check; the use of an
  uninitialised length, only when a query returns a \<open>NULL\<close> column. No step ever reads or writes
  outside a buffer or through a dangling pointer.
\<close>

theorem chat_server_stays_wellformed:
  assumes "redis_values_ok api" and "db_sizes_ok db" and "\<forall>e \<in> envs. run_env hash e" and "run_inv hash (w_srv w0)"
    and "(world_next envs api db)\<^sup>*\<^sup>* w0 w" and "world_step envs api db w x"
  shows "run_inv hash (w_srv w)
    \<and> (case x of
         Inr w' \<Rightarrow> run_inv hash (w_srv w')
       | Inl f \<Rightarrow> f = Diverges
           \<or> f = NullPointer \<and> (\<not> db_conn db (w_db w) \<or> \<not> db_stmt db (w_db w))
           \<or> f = Uninitialised \<and> (\<exists>sql ps rows. db_select db sql ps (w_db w) = Some rows \<and> \<not> no_nulls rows))"
proof -
  have inv: "run_inv hash (w_srv w)" using world_reach_ok [OF assms(5,1-4)] .
  from world_step_ok [OF assms(1-3) this assms(6)] inv show ?thesis
    by (simp add: db_faults_def split: sum.splits)
qed

text \<open>Stores that meet the hypotheses, and the server before its first connection.\<close>

definition capped_redis :: "mem_store redis_api" where
  "capped_redis = mem_redis\<lparr>
     rd_hget := (\<lambda>k f r. case ms_hashes r k f of Some v \<Rightarrow> if length v \<le> 2 ^ 29 then Some v else None | None \<Rightarrow> None),
     rd_get := (\<lambda>k r. case ms_strings r k of Some v \<Rightarrow> if length v \<le> 2 ^ 29 then Some v else None | None \<Rightarrow> None)\<rparr>"

definition capped_mysql :: "mem_db db_api" where
  "capped_mysql = mem_mysql\<lparr>db_select := (\<lambda>sql ps d. case mem_select sql ps d of
     Some rows \<Rightarrow> if length rows \<le> 2 ^ 18 then Some rows else None | None \<Rightarrow> None)\<rparr>"

lemma capped_ok: "redis_values_ok capped_redis" "db_sizes_ok capped_mysql"
  by (auto simp: redis_values_ok_def capped_redis_def db_sizes_ok_def capped_mysql_def mem_mysql_def
      split: option.splits if_splits)

lemma empty_server_run: "run_inv hash empty_server"
proof -
  have "online hash empty_server u = None" for u
    using online_shards.idx_less [of hash u]
    by (auto simp: online_def getOnlineCtx_def empty_server_def empty_registry_def sh_find_def)
  moreover have "tp_running (ThreadPool k m) = []" for k and m
    by (simp add: tp_running_def ThreadPool_def concat_eq_Nil_conv)
  ultimately show ?thesis
    using empty_server_inv
    by (auto simp: run_inv_def pool_tasks_def empty_server_def ThreadPool_def tp_running_def)
qed

definition start_world :: "(mem_store, mem_db) world" where
  "start_world = \<lparr>w_srv = empty_server, w_redis = empty_store, w_db = small_db\<rparr>"

definition witness_env :: env where
  "witness_env = \<lparr>e_hash = (\<lambda>_. 0), e_alloc = block_of (\<lambda>_. CHR 0x00), e_alive = (\<lambda>_. True), e_md5 = (\<lambda>_. []),
     e_clock = [1704067200001], e_time = ''now'', e_nowMs = 1000, e_dueClock = (\<lambda>_. 1000), e_lookupNs = 1, e_sendNs = 1\<rparr>"

lemma witness_run_env: "\<forall>e \<in> {witness_env}. run_env (\<lambda>_. 0) e"
  by (auto simp: run_env_def memory_available_def witness_env_def)

text \<open>The first step of the run: a connection is accepted.\<close>

lemma witness_step:
  "\<exists>s. handleAccept (e_alloc witness_env) [NewConnection 7 ''10.0.0.1''] empty_server = Inr s
     \<and> getClientCtxByFd (s_reg s) 7 = Some 0
     \<and> world_step {witness_env} capped_redis capped_mysql start_world (Inr (start_world\<lparr>w_srv := s\<rparr>))"
proof -
  obtain s where s: "handleAccept (e_alloc witness_env) [NewConnection 7 ''10.0.0.1''] empty_server = Inr s"
      "getClientCtxByFd (s_reg s) 7 = Some 0"
    using accepted_server [of "\<lambda>_. CHR 0x00" "\<lambda>_. 0"] by (auto simp: witness_env_def)
  from world_step.accept [of witness_env "{witness_env}" capped_redis capped_mysql start_world "[NewConnection 7 ''10.0.0.1'']"] s
  show ?thesis by (auto simp: start_world_def)
qed

theorem chat_server_stays_wellformed_witness:
  "\<exists>s. handleAccept (e_alloc witness_env) [NewConnection 7 ''10.0.0.1''] empty_server = Inr s
     \<and> getClientCtxByFd (s_reg s) 7 = Some 0 \<and> run_inv (\<lambda>_. 0) s"
proof -
  have "run_inv (\<lambda>_. 0) (w_srv start_world)" by (simp add: start_world_def empty_server_run)
  note ok = chat_server_stays_wellformed [OF capped_ok witness_run_env this rtranclp.rtrancl_refl]
  obtain s where s: "handleAccept (e_alloc witness_env) [NewConnection 7 ''10.0.0.1''] empty_server = Inr s"
      "getClientCtxByFd (s_reg s) 7 = Some 0"
      "world_step {witness_env} capped_redis capped_mysql start_world (Inr (start_world\<lparr>w_srv := s\<rparr>))"
    using witness_step by blast
  from ok [OF s(3)] s(1,2) show ?thesis by auto
qed

end
