(* ===== verification/Delivery.thy ===== *)
theory Delivery
  imports Chat
begin

text \<open>
  What the business logic achieves: private messages from the packet of the sender to the connection
  of the receiver, logins, and whose name a connection acts in.
\<close>

section \<open>Sending touches one connection\<close>

lemma sendPacket_others:
  assumes "sendPacket hash alloc (Some p) t data s = Inr s'" and "q \<noteq> p"
  shows "s_ctxs s' q = s_ctxs s q"
proof -
  obtain c need fatal where "sp_enqueue alloc t data (s_ctxs s p) = Inr (c, need, fatal)"
    using assms(1) by (auto simp: sendPacket_def Let_def bindE_eq_Inr)
  then show ?thesis
    using assms by (cases fatal) (auto simp: sendPacket_def Let_def split: if_splits)
qed

lemma sendPacket_account:
  assumes "sendPacket hash (block_of junk) (Some p) t data s = Inr s'" and "ctx_inv (s_ctxs s p)"
    and "length (encodeJsonToProto t data) + 6 < 2 ^ 32"
  shows "c_fd (s_ctxs s' p) = c_fd (s_ctxs s p) \<and> c_accountID (s_ctxs s' p) = c_accountID (s_ctxs s p)"
proof -
  obtain c need fatal where "sp_enqueue (block_of junk) t data (s_ctxs s p) = Inr (c, need, fatal)"
      "c_fd c = c_fd (s_ctxs s p)" "c_accountID c = c_accountID (s_ctxs s p)"
    using sp_enqueue_keeps [OF assms(2,3), of junk] by blast
  then show ?thesis
    using assms(1) by (cases fatal) (auto simp: sendPacket_def Let_def split: if_splits)
qed

text \<open>There is room for a packet behind what a connection still has to send.\<close>

definition room :: "server \<Rightarrow> ctx_ptr \<Rightarrow> u16 \<Rightarrow> string \<Rightarrow> bool" where
  "room s p t data \<longleftrightarrow> length (unsent (s_ctxs s p)) + 6 + length (encodeJsonToProto t data) \<le> 16777216"

lemma reply_room:
  assumes "srv_inv (e_hash e) s" and "p < s_nextCtx s" and "e_alloc e = block_of junk" and "room s p t data"
  shows "\<exists>s'. reply e (Some p) t data s = Inr s' \<and> srv_inv (e_hash e) s' \<and> s_nextCtx s' = s_nextCtx s
    \<and> s_reg s' = s_reg s \<and> unsent (s_ctxs s' p) = unsent (s_ctxs s p) @ packet t (encodeJsonToProto t data)
    \<and> c_fd (s_ctxs s' p) = c_fd (s_ctxs s p) \<and> c_accountID (s_ctxs s' p) = c_accountID (s_ctxs s p)
    \<and> (\<forall>q. q \<noteq> p \<longrightarrow> s_ctxs s' q = s_ctxs s q)"
proof -
  have len: "length (encodeJsonToProto t data) + 6 < 2 ^ 32" using assms(4) by (simp add: room_def)
  from sendPacket_ok [OF assms(1,2) len, of junk] assms(4) obtain s' where
    s': "sendPacket (e_hash e) (block_of junk) (Some p) t data s = Inr s'" "srv_inv (e_hash e) s'"
      "s_nextCtx s' = s_nextCtx s" "s_reg s' = s_reg s"
      "unsent (s_ctxs s' p) = unsent (s_ctxs s p) @ packet t (encodeJsonToProto t data)"
    unfolding room_def by blast
  have "\<forall>q. q \<noteq> p \<longrightarrow> s_ctxs s' q = s_ctxs s q" using sendPacket_others [OF s'(1)] by blast
  then show ?thesis
    using s' sendPacket_account [OF s'(1) srv_invD(2) [OF assms(1,2)] len] unfolding assms(3) by blast
qed

section \<open>Private messages\<close>

text \<open>
  (C12) No confirmation without storage: whenever the delivery of a private message changes the
  server (a confirmation to the sender or the message itself is queued), the message is in Redis
  under its receiver and its number, due in three seconds. This holds whatever the connections, the
  sessions and the answers of Redis are.
\<close>

theorem confirmed_messages_are_stored:
  assumes "redis_laws api" and "msgId \<noteq> 0"
    and "runDeliver e api ctx fd target targetCtx enriched ack msgId s r = Inr (s', r')" and "s' \<noteq> s"
  shows "pending api r' target (to_string (unat msgId)) = (Some enriched, Some (e_nowMs e + 3000), Some ''0'')"
proof -
  obtain b r1 where st: "storePendingMessage api (e_nowMs e) target msgId enriched r = (b, r1)"
    by (cases "storePendingMessage api (e_nowMs e) target msgId enriched r")
  have b: b
  proof (rule ccontr)
    assume "\<not> b"
    with st assms(3,4) show False by (simp add: runDeliver_def)
  qed
  with st have r1: "r1 = lua_store api target (to_string (unat msgId)) enriched (e_nowMs e + 3000) r"
    using assms(2) by (auto simp: storePendingMessage_def kRetryDelayMs_def split: if_splits)
  have "r' = r1" using assms(3) b st by (auto simp: runDeliver_def bindE_eq_Inr)
  then show ?thesis using r1 pending_store [OF assms(1)] by simp
qed



text \<open>Alice and Bob, online on connections 0 and 1.\<close>

definition two_env :: env where
  "two_env = \<lparr>e_hash = (\<lambda>_. 0), e_alloc = block_of (\<lambda>_. CHR 0x00), e_alive = (\<lambda>_. True), e_md5 = (\<lambda>_. []),
     e_clock = [1704067200001], e_time = ''now'', e_nowMs = 1000, e_dueClock = (\<lambda>_. 1000), e_lookupNs = 0, e_sendNs = 0\<rparr>"


lemma two_online:
  "\<exists>s. srv_inv (\<lambda>_. 0) s \<and> 0 < s_nextCtx s \<and> 1 < s_nextCtx s \<and> s_redisDepth s = 0
     \<and> s_ids s = s_ids empty_server \<and> unsent (s_ctxs s 0) = [] \<and> unsent (s_ctxs s 1) = []
     \<and> tp_tasks (s_redisPool s) = [] \<and> getOnlineCtx (\<lambda>_. 0) (\<lambda>_. True) (s_reg s) ''bob'' = Some 1"
proof -
  let ?h = "\<lambda>_ :: string. 0 :: size_t" and ?j = "\<lambda>_ :: nat. CHR 0x00"
  let ?acc = "[NewConnection 7 ''10.0.0.1'', NewConnection 8 ''10.0.0.2'']"
  obtain c where c: "ClientContext (block_of ?j) 7 ''10.0.0.1'' = Inr c" "c_fd c = 7" "unsent c = []"
    using ClientContext_ok [of ?j 7 "''10.0.0.1''"] by blast
  obtain d where d: "ClientContext (block_of ?j) 8 ''10.0.0.2'' = Inr d" "c_fd d = 8" "unsent d = []"
    using ClientContext_ok [of ?j 8 "''10.0.0.2''"] by blast
  obtain s where s: "handleAccept (block_of ?j) ?acc empty_server = Inr s" "srv_inv ?h s"
    using handleAccept_ok [OF empty_server_inv] by blast
  have f: "s_nextCtx s = 2" "s_redisDepth s = 0" "s_ids s = s_ids empty_server" "tp_tasks (s_redisPool s) = []"
      "s_ctxs s 0 = c\<lparr>c_reactorEpollFd := 5\<rparr>" "s_ctxs s 1 = d\<lparr>c_reactorEpollFd := 5\<rparr>"
    using s(1) c(1,2) d(1,2) by (auto simp: Let_def empty_server_def addFd_def count_up_def epoll_add_def ThreadPool_def set_ctx_def)
  then have u: "unsent (s_ctxs s 0) = []" "unsent (s_ctxs s 1) = []" using c(3) d(3) by (simp_all add: unsent_def)
  note r = srv_invD(1) [OF s(2)]
  let ?s = "s\<lparr>s_reg := setOnlineUser ?h ''bob'' (Some 1) (s_reg s)\<rparr>"
  have "srv_inv ?h ?s" using s(2) client_lookup(3) [OF r] registry_ops_inv(3) [OF r] by (simp add: srv_inv_def)
  then show ?thesis using f u online_lookup(1) [OF r, of "''bob''"] by (intro exI [of _ ?s]) simp
qed



lemma two_number: "to_string (unat (4198400 :: u64)) = ''4198400''" "to_string 4198400 = ''4198400''"
  by (simp_all add: to_string.simps digit_char_def char_of_def bit_iff_odd)

lemma two_texts:
  "length (encodeJsonToProto 13 (ack_body 4198400)) \<le> 1000"
  "length (encodeJsonToProto 1 (buildEnrichedChatBodyWithMsgId 4198400 ''alice'' ''bob'' ''hi'' ''now'')) \<le> 1000"
  unfolding ack_body_def buildEnrichedChatBodyWithMsgId_def two_number by code_simp+

theorem confirmed_messages_are_stored_witness:
  "\<exists>s s' r'. runDeliver two_env mem_redis (Some 0) (c_fd (s_ctxs s 0)) ''carol'' None ''{}'' (ack_body 4198400) 4198400 s empty_store
       = Inr (s', r') \<and> s' \<noteq> s
     \<and> pending mem_redis r' ''carol'' ''4198400'' = (Some ''{}'', Some 4000, Some ''0'')"
proof -
  obtain s where s: "srv_inv (\<lambda>_. 0) s" "0 < s_nextCtx s" "unsent (s_ctxs s 0) = []"
    using two_online by blast
  have "srv_inv (e_hash two_env) s" and "e_alloc two_env = block_of (\<lambda>_. CHR 0x00)" and "room s 0 13 (ack_body 4198400)"
    using s two_texts by (simp_all add: two_env_def room_def)
  from reply_room [OF this(1) s(2) this(2,3)] obtain s' where
    s': "reply two_env (Some 0) 13 (ack_body 4198400) s = Inr s'"
      "unsent (s_ctxs s' 0) = unsent (s_ctxs s 0) @ packet 13 (encodeJsonToProto 13 (ack_body 4198400))" by blast
  then have "s' \<noteq> s" using s(3) by (auto dest: arg_cong [of _ _ length])
  moreover have "storePendingMessage mem_redis (e_nowMs two_env) ''carol'' 4198400 ''{}'' empty_store
      = (True, lua_store mem_redis ''carol'' ''4198400'' ''{}'' 4000 empty_store)"
    by (simp add: storePendingMessage_def mem_redis_def kRetryDelayMs_def two_env_def two_number)
  then have "runDeliver two_env mem_redis (Some 0) (c_fd (s_ctxs s 0)) ''carol'' None ''{}'' (ack_body 4198400) 4198400 s empty_store
      = Inr (s', lua_store mem_redis ''carol'' ''4198400'' ''{}'' 4000 empty_store)"
    using s'(1) by (simp add: runDeliver_def reply_valid_def isCurrentSessionValid_def MSG_TYPE_ACK_def)
  moreover note confirmed_messages_are_stored [OF mem_redis_laws(1) _ this]
  ultimately show ?thesis by (auto simp: two_number two_env_def)
qed






section \<open>Whose name a connection acts in\<close>

text \<open>
  (C40) Nobody checks an identification: a packet of type 3 with any non-empty name free of the
  scanner's delimiters (double quote, backslash, comma, closing brace, leading blank) makes the
  connection act under that name, with no login, and takes over the messages sent to it, also when
  its owner is online on another connection.
\<close>

theorem identity_is_not_checked:
  assumes "srv_inv (e_hash e) s" and "p < s_nextCtx s" and "scannable victim" and "victim \<noteq> ''''"
    and "length (wire_msg [WStr 1 victim]) < 2 ^ 64" and "e_alive e p"
  shows "\<exists>json s1. decodeProtoToJson 3 (wire_msg [WStr 1 victim]) = Some json
    \<and> processPacket e (Some p) 3 json s = Inr s1 \<and> c_accountID (s_ctxs s1 p) = victim
    \<and> getOnlineCtx (e_hash e) (e_alive e) (s_reg s1) victim = Some p"
proof -
  let ?kvs = "[(''sender'', victim)]"
  have "decodeProtoToJson 3 (wire_msg [WStr 1 victim]) = Some (json_obj ?kvs)"
    using decode_obj [of "[WStr 1 victim]" 3] assms(4,5) by (simp add: json_kvs_def assign_str_def decoded_init_def)
  moreover have "extractJsonValue (json_obj ?kvs) ''sender'' = victim"
    using assms(3,4) unfolding extractJsonValue_eq
    by (intro extractLite_obj(2)) (auto simp: scannable_def not_imitated_Cons key_ok_def)
  ultimately show ?thesis
    using assms(4,6) online_lookup(1) [OF srv_invD(1) [OF assms(1)], of victim]
    by (simp add: processPacket_def processIdentify_def set_account_def deref_def)
qed

theorem identity_is_not_checked_witness:
  "\<exists>s json s1. getOnlineCtx (\<lambda>_. 0) (\<lambda>_. True) (s_reg s) ''bob'' = Some 1
    \<and> decodeProtoToJson 3 (wire_msg [WStr 1 ''bob'']) = Some json
    \<and> processPacket two_env (Some 0) 3 json s = Inr s1 \<and> c_accountID (s_ctxs s1 0) = ''bob''
    \<and> getOnlineCtx (\<lambda>_. 0) (\<lambda>_. True) (s_reg s1) ''bob'' = Some 0"
proof -
  obtain s where s: "srv_inv (\<lambda>_. 0) s" "0 < s_nextCtx s" "getOnlineCtx (\<lambda>_. 0) (\<lambda>_. True) (s_reg s) ''bob'' = Some 1"
    using two_online by blast
  have "length (wire_msg [WStr 1 ''bob'']) < 2 ^ 64" by (rule wire_msg_fits) simp
  from identity_is_not_checked [OF _ s(2) _ _ this, of two_env] s(1,3) show ?thesis
    by (auto simp: two_env_def scannable_def plain_def)
qed


section \<open>Logins\<close>

lemma login_binds:
  assumes "srv_inv hash s" and "p < s_nextCtx s" and "checkLoginFromDatabase db user pass d s = Inr (ok, s0)"
  shows "\<exists>s1. set_account (Some p) user (count_up f s0\<lparr>s_reg := setOnlineUser hash user (Some p) (s_reg s)\<rparr>) = Inr s1
    \<and> s_ctxs s0 = s_ctxs s \<and> s_reg s0 = s_reg s \<and> srv_inv hash s1 \<and> c_fd (s_ctxs s1 p) = c_fd (s_ctxs s p)
    \<and> unsent (s_ctxs s1 p) = unsent (s_ctxs s p) \<and> s_nextCtx s1 = s_nextCtx s
    \<and> s_reg s1 = setOnlineUser hash user (Some p) (s_reg s)"
proof -
  let ?t = "count_up f s0\<lparr>s_reg := setOnlineUser hash user (Some p) (s_reg s)\<rparr>"
  have s0: "s_ctxs s0 = s_ctxs s" "s_reg s0 = s_reg s" "s_nextCtx s0 = s_nextCtx s"
    using assms(3) by (auto simp: checkLoginFromDatabase_def Let_def bindE_eq_Inr split: if_splits option.splits)
  note reg = srv_invD(1) [OF assms(1)] and ctx = srv_invD(2) [OF assms(1,2)]
  have "srv_inv hash ?t" using assms(1) client_lookup(3) [OF reg] registry_ops_inv(3) [OF reg] by (simp add: srv_inv_def s0)
  then have "srv_inv hash (set_ctx p ((s_ctxs s p)\<lparr>c_accountID := user\<rparr>) ?t)"
    using ctx by (intro set_ctx_inv) (auto simp: ctx_inv_def unsent_def recv_ok_def s0)
  then show ?thesis by (simp add: set_account_def deref_def s0 unsent_def)
qed

text \<open>
  (C11) What a login queues: when the database confirms the password, Redis is up and the send buffer
  has room for all of it, the task makes the user reachable on the connection and queues, in this
  order, the success reply, the friend list and the at most fifty waiting messages with the earliest
  due times, due or not and however often they were sent before. Of a backlog of more than fifty messages the rest is
  left to the retry rounds. The stored payloads are taken to be texts without a null character that carry their own number.
\<close>

theorem login_delivers_backlog:
  assumes "redis_laws api" and "redis_up api" and "user \<noteq> ''''" and "no_nul user"
    and "srv_inv (e_hash e) s" and "p < s_nextCtx s" and "e_alloc e = block_of junk" and "e_alive e p"
    and "checkLoginFromDatabase db user pass d s = Inr (True, s0)"
    and "getFriendListJson api db user d r = Inr (friends, r0)"
    and "ids = due_ids (e_nowMs e) 50 False (rd_zset api (keySchedule user) r0)"
    and "\<forall>i \<in> set ids. no_nul i \<and> i \<noteq> '''' \<and> rd_hget api (keyPayload user) i r0 = Some (m i) \<and> no_nul (m i)
      \<and> extractJsonValue (m i) ''msg_id'' = i"
    and "out = packet 5 (encodeJsonToProto 5 result_success) @ packet 12 (encodeJsonToProto 12 friends)
      @ concat (map (\<lambda>i. msg_packet (m i)) (sendable api user True r0 ids))"
    and "length (unsent (s_ctxs s p)) + length out \<le> 16777216"
  shows "\<exists>s' r'. runLogin e api db (Some p) (c_fd (s_ctxs s p)) user pass s r d = Inr (s', r')
    \<and> srv_inv (e_hash e) s' \<and> unsent (s_ctxs s' p) = unsent (s_ctxs s p) @ out
    \<and> getOnlineCtx (e_hash e) (e_alive e) (s_reg s') user = Some p"
proof -
  obtain s1 where acc: "set_account (Some p) user (count_up (\<lambda>g. g\<lparr>g_loginOk := g_loginOk g + 1\<rparr>) s0
      \<lparr>s_reg := setOnlineUser (e_hash e) user (Some p) (s_reg s)\<rparr>) = Inr s1"
    and s0: "s_ctxs s0 = s_ctxs s" "s_reg s0 = s_reg s"
    and s1: "srv_inv (e_hash e) s1" "c_fd (s_ctxs s1 p) = c_fd (s_ctxs s p)" "unsent (s_ctxs s1 p) = unsent (s_ctxs s p)"
      "s_nextCtx s1 = s_nextCtx s" "s_reg s1 = setOnlineUser (e_hash e) user (Some p) (s_reg s)"
    using login_binds [OF assms(5,6,9)] by blast
  have "room s1 p 5 result_success" using assms(13,14) s1(3) by (simp add: room_def)
  then obtain s2 where s2: "reply e (Some p) 5 result_success s1 = Inr s2" "srv_inv (e_hash e) s2"
      "s_nextCtx s2 = s_nextCtx s" "s_reg s2 = s_reg s1"
      "unsent (s_ctxs s2 p) = unsent (s_ctxs s p) @ packet 5 (encodeJsonToProto 5 result_success)"
      "c_fd (s_ctxs s2 p) = c_fd (s_ctxs s p)"
    using reply_room [OF s1(1) _ assms(7), of p 5 result_success] assms(6) s1(2-4) by auto
  have "room s2 p 12 friends" using assms(13,14) s2(5) by (simp add: room_def)
  then obtain s3 where s3: "reply e (Some p) 12 friends s2 = Inr s3" "srv_inv (e_hash e) s3"
      "s_nextCtx s3 = s_nextCtx s" "s_reg s3 = s_reg s1"
      "unsent (s_ctxs s3 p) = unsent (s_ctxs s2 p) @ packet 12 (encodeJsonToProto 12 friends)"
      "c_fd (s_ctxs s3 p) = c_fd (s_ctxs s p)"
    using reply_room [OF s2(2) _ assms(7), of p 12 friends] assms(6) s2(3,4,6) by auto
  have len: "length (unsent (s_ctxs s3 p)) + length (concat (map (\<lambda>i. msg_packet (m i)) (sendable api user True r0 ids))) \<le> 16777216"
    using assms(13,14) s2(5) s3(5) by simp
  have "\<exists>s' r'. dispatchDueMessagesForUser api (e_hash e) (block_of junk) (e_nowMs e) (e_dueClock e) user (Some p) True s3 r0 = Inr (s', r')
      \<and> srv_inv (e_hash e) s' \<and> s_reg s' = s_reg s3
      \<and> unsent (s_ctxs s' p) = unsent (s_ctxs s3 p) @ concat (map (\<lambda>i. msg_packet (m i)) (sendable api user True r0 ids))"
    using dispatch_due [OF assms(1-4) s3(2) _ _ assms(12) len, of "e_nowMs e" junk "e_dueClock e"] s3(3) assms(6,11) by auto
  then obtain s' r' where s': "dispatchDueMessagesForUser api (e_hash e) (e_alloc e) (e_nowMs e) (e_dueClock e) user (Some p) True s3 r0 = Inr (s', r')"
      "srv_inv (e_hash e) s'" "s_reg s' = s_reg s3"
      "unsent (s_ctxs s' p) = unsent (s_ctxs s3 p) @ concat (map (\<lambda>i. msg_packet (m i)) (sendable api user True r0 ids))"
    unfolding assms(7) by blast
  have "runLogin e api db (Some p) (c_fd (s_ctxs s p)) user pass s r d = Inr (s', r')"
    using assms(9,10) s0 acc s2(1,6) s3(1,6) s'(1)
    by (simp add: runLogin_def isCurrentSessionValid_def)
  moreover have "getOnlineCtx (e_hash e) (e_alive e) (s_reg s') user = Some p"
    using online_lookup(1) [OF srv_invD(1) [OF assms(5)] assms(3), of "e_alive e" p user] assms(8) s'(3) s3(4) s1(5) by simp
  ultimately show ?thesis using s'(2,4) s2(5) s3(5) assms(13) by auto
qed


lemma bob_friends:
  \<open>getFriendListJson mem_redis mem_mysql ''bob'' small_db one_store =
     Inr (''{"friends":[]}'', one_store\<lparr>ms_strings := [cacheKey ''bob'' \<mapsto> ''{"friends":[]}'']\<rparr>)\<close>
proof -
  have "getFriendListFromDB mem_mysql ''bob'' small_db = Inr []"
    by (simp add: getFriendListFromDB_def stmt_prepare_up mem_mysql_laws) (simp add: mem_mysql_def mem_select_def small_db_def)
  then show ?thesis
    by (simp add: getFriendListJson_up [OF mem_redis_laws(2)] no_nul_def)
      (simp add: mem_redis_def one_store_def buildFriendListJson_def c_str_def)
qed

lemma bob_login:
  "checkLoginFromDatabase mem_mysql ''bob'' ''hidden'' small_db s
     = Inr (True, count_up (\<lambda>g. g\<lparr>g_loginDB := g_loginDB g + 1\<rparr>) s)"
  by (simp add: checkLoginFromDatabase_def stmt_prepare_up mem_mysql_laws Let_def)
    (simp add: mem_mysql_def mem_select_def small_db_def login_sql_def friends_sql_def fits_def bind_row_def)


theorem login_delivers_backlog_witness:
  "\<exists>s s' r'. runLogin two_env mem_redis mem_mysql (Some 0) (c_fd (s_ctxs s 0)) ''bob'' ''hidden'' s one_store small_db = Inr (s', r')
     \<and> getOnlineCtx (\<lambda>_. 0) (\<lambda>_. True) (s_reg s) ''bob'' = Some 1
     \<and> getOnlineCtx (\<lambda>_. 0) (\<lambda>_. True) (s_reg s') ''bob'' = Some 0
     \<and> (\<exists>friends. unsent (s_ctxs s' 0) = packet 5 (encodeJsonToProto 5 result_success) @ friends @ msg_packet (id_payload ''42''))"
proof -
  let ?r0 = "one_store\<lparr>ms_strings := [cacheKey ''bob'' \<mapsto> ''{\"friends\":[]}'']\<rparr>"
  obtain s where s: "srv_inv (\<lambda>_. 0) s" "0 < s_nextCtx s" "unsent (s_ctxs s 0) = []"
      "getOnlineCtx (\<lambda>_. 0) (\<lambda>_. True) (s_reg s) ''bob'' = Some 1"
    using two_online by blast
  have same: "rd_zset mem_redis k ?r0 = rd_zset mem_redis k one_store" "rd_hget mem_redis k i ?r0 = rd_hget mem_redis k i one_store" for k i
    by (simp_all add: mem_redis_def)
  have ids: "due_ids (e_nowMs two_env) 50 False (rd_zset mem_redis (keySchedule ''bob'') ?r0) = [''42'']"
    unfolding same by (simp add: one_store_def mem_redis_def due_ids_def)
  have send: "sendable mem_redis ''bob'' True ?r0 [''42''] = [''42'']"
    using one_store_attempts by (simp add: sendable_def attempts_of_def same)
  have "length (encodeJsonToProto 5 result_success) \<le> 1000" "length (encodeJsonToProto 12 ''{\"friends\":[]}'') \<le> 1000"
    by code_simp+
  then have "length (unsent (s_ctxs s 0)) + length (packet 5 (encodeJsonToProto 5 result_success)
      @ packet 12 (encodeJsonToProto 12 ''{\"friends\":[]}'') @ concat (map (\<lambda>i. msg_packet (id_payload i))
        (sendable mem_redis ''bob'' True ?r0 [''42'']))) \<le> 16777216"
    using one_store_packet s(3) unfolding send by simp
  from login_delivers_backlog [OF mem_redis_laws _ _ _ s(2) _ _ bob_login bob_friends ids [symmetric] _ refl this, of "\<lambda>_. CHR 0x00"]
  show ?thesis using s(1,3,4) one_store_messages unfolding send same
    by (auto simp: two_env_def no_nul_def)
qed


end
