(* ===== verification/Lifecycle.thy ===== *)
theory Lifecycle
  imports World ConnPool
begin

text \<open>
  The life of the process (\<open>main.cpp\<close>, and the constructor, \<open>start\<close>, \<open>run\<close> and the destructor of the
  server, with the destructors that run after it when \<open>main\<close> returns): the port on the command line, the sequence
  of steps that may fail, the threads, descriptors and connections that each of them opens, and their release.
\<close>

section \<open>The port\<close>

text \<open>
  \<open>std::stoi\<close>: white space, a sign, digits. No digits and values outside the range of \<open>int\<close> are
  exceptions; text behind the digits is ignored.
\<close>

datatype stoi_error = invalid_argument | out_of_range

definition stoi :: "string \<Rightarrow> stoi_error + int" where
  "stoi s =
     (let t = dropWhile is_space s;
          neg = (t \<noteq> [] \<and> hd t = CHR ''-'');
          t = (if t \<noteq> [] \<and> hd t \<in> {CHR ''-'', CHR ''+''} then tl t else t);
          ds = takeWhile isdigit t;
          v = (if neg then - int (digits_val 0 ds) else int (digits_val 0 ds))
      in if ds = [] then Inl invalid_argument
         else if v < - (2 ^ 31) \<or> 2 ^ 31 \<le> v then Inl out_of_range else Inr v)"

definition main_port :: "string list \<Rightarrow> stoi_error + u16" where
  "main_port argv =
     (if length argv > 1 then case stoi (argv ! 1) of Inl e \<Rightarrow> Inl e | Inr v \<Rightarrow> Inr (word_of_int v)
      else Inr 12345)"

section \<open>Construction\<close>

record ('c, 'r) process =
  l_port :: u16
  l_listenFd :: int
  l_epollFd :: int
  l_srv :: server
  l_dbConns :: "'c db_pool"
  l_redisConns :: "'r redis_pool"
  l_flushThread :: bool
  l_retryThread :: bool
  l_retryStop :: bool
  l_reactorThreads :: nat
  l_open :: "int list"
  l_written :: "pending_log list list"

text \<open>
  \<open>l_open\<close> are the descriptors that \<open>start\<close> itself has opened (the connections of the two pools are the
  handles in \<open>l_dbConns\<close> and \<open>l_redisConns\<close>, the worker threads those of the pools of \<open>l_srv\<close>), \<open>l_flushThread\<close> and \<open>l_retryThread\<close> whether the
  two threads can be joined, \<open>l_reactorThreads\<close> the number of threads in \<open>SubReactor::run\<close>, \<open>l_written\<close>
  the batches of the chat log that the flush thread wrote when it was stopped.
\<close>

definition EpollChatServer :: "u64 \<Rightarrow> u16 \<Rightarrow> 'c db_pool \<Rightarrow> 'r redis_pool \<Rightarrow> ('c, 'r) process" where
  "EpollChatServer thread port dbConns redisConns =
     \<lparr>l_port = port, l_listenFd = - 1, l_epollFd = - 1,
      l_srv = empty_server\<lparr>s_subReactors := [], s_ids := SnowflakeIdGenerator thread\<rparr>,
      l_dbConns = dbConns, l_redisConns = redisConns, l_flushThread = False, l_retryThread = False,
      l_retryStop = False, l_reactorThreads = 0, l_open = [], l_written = []\<rparr>"

section \<open>Starting\<close>

text \<open>What the operating system, the client libraries and the environment answer.\<close>

record ('c, 'r) boot =
  b_socket :: int
  b_bind :: "int \<Rightarrow> u16 \<Rightarrow> bool"
  b_listen :: "int \<Rightarrow> bool"
  b_mysql_init :: "nat \<Rightarrow> 'c option"
  b_mysql_connect :: "'c \<Rightarrow> bool"
  b_getenv :: "string \<Rightarrow> string option"
  b_redisConnect :: "nat \<Rightarrow> 'r option"
  b_redisErr :: "'r \<Rightarrow> bool"
  b_epoll :: int
  b_cores :: nat
  b_subEpoll :: "nat \<Rightarrow> int"

text \<open>\<open>start\<close> returns \<open>false\<close>, throws, or enters the loop of \<open>run\<close>, which it never leaves.\<close>

datatype start_result = StartFailed | StartThrows | Serving

definition SubReactor :: "int \<Rightarrow> ('c, 'r) process \<Rightarrow> ('c, 'r) process option" where
  "SubReactor fd l =
     (if fd < 0 then None
      else Some (l\<lparr>l_srv := (l_srv l)\<lparr>s_subReactors := s_subReactors (l_srv l) @ [fd]\<rparr>,
                   l_reactorThreads := l_reactorThreads l + 1, l_open := l_open l @ [fd]\<rparr>))"

fun add_reactors :: "(nat \<Rightarrow> int) \<Rightarrow> nat \<Rightarrow> nat \<Rightarrow> ('c, 'r) process \<Rightarrow> start_result \<times> ('c, 'r) process" where
  "add_reactors fds i 0 l = (Serving, l)"
| "add_reactors fds i (Suc n) l =
     (case SubReactor (fds i) l of None \<Rightarrow> (StartThrows, l) | Some l \<Rightarrow> add_reactors fds (Suc i) n l)"

definition start :: "('c, 'r) boot \<Rightarrow> ('c, 'r) process \<Rightarrow> start_result \<times> ('c, 'r) process" where
  "start os l =
     (let fd = b_socket os; l = l\<lparr>l_listenFd := fd\<rparr> in
      if fd < 0 then (StartFailed, l)
      else let l = l\<lparr>l_open := l_open l @ [fd]\<rparr> in
      if \<not> b_bind os fd (l_port l) then (StartFailed, l)
      else if \<not> b_listen os fd then (StartFailed, l)
      else case initDB (b_mysql_init os) (b_mysql_connect os) (l_dbConns l) of (ok, dbConns) \<Rightarrow>
      let l = l\<lparr>l_dbConns := dbConns\<rparr> in
      if \<not> ok then (StartFailed, l)
      else case initRedis (b_getenv os ''REDIS_HOST'') (b_getenv os ''REDIS_PORT'') (b_getenv os ''REDIS_POOL_SIZE'')
        (b_redisConnect os) (b_redisErr os) (l_redisConns l) of (ok, redisConns) \<Rightarrow>
      let l = l\<lparr>l_redisConns := redisConns\<rparr> in
      if \<not> ok then (StartFailed, l)
      else
        let l = l\<lparr>l_srv := (l_srv l)\<lparr>s_chatLog := (s_chatLog (l_srv l))\<lparr>cl_stop := False\<rparr>\<rparr>, l_flushThread := True\<rparr>;
            l = l\<lparr>l_retryStop := False, l_retryThread := True\<rparr>;
            epfd = b_epoll os;
            l = l\<lparr>l_epollFd := epfd\<rparr>
        in
        if epfd < 0 then (StartFailed, l)
        else
          let l = l\<lparr>l_open := l_open l @ [epfd], l_srv := epoll_add epfd (l_listenFd l) {EPOLLIN, EPOLLET} (l_srv l)\<rparr>;
              numSubReactors = (if b_cores os = 0 then 4 else b_cores os)
          in add_reactors (b_subEpoll os) 0 numSubReactors l)"

text \<open>One round of \<open>run\<close>: the events of the listening socket, each with the answers of \<open>accept4\<close>.\<close>

fun run_events :: "allocator \<Rightarrow> (int \<times> bool \<times> accept_answer list) list \<Rightarrow> ('c, 'r) process \<Rightarrow> fault + ('c, 'r) process" where
  "run_events alloc [] l = Inr l"
| "run_events alloc ((fd, epollin, conns) # events) l =
     (if fd = l_listenFd l \<and> epollin then
        bindE (handleAccept alloc conns (l_srv l)) (\<lambda>s. run_events alloc events (l\<lparr>l_srv := s\<rparr>))
      else run_events alloc events l)"

section \<open>Destruction\<close>

definition close_fd :: "int \<Rightarrow> ('c, 'r) process \<Rightarrow> ('c, 'r) process" where
  "close_fd fd l = l\<lparr>l_open := remove1 fd (l_open l)\<rparr>"

definition SubReactor_destroy :: "int \<Rightarrow> ('c, 'r) process \<Rightarrow> ('c, 'r) process" where
  "SubReactor_destroy epfd l = (if epfd \<noteq> - 1 then close_fd epfd l else l)"

definition stop_threads :: "('c, 'r) process \<Rightarrow> ('c, 'r) process" where
  "stop_threads l =
     (let l = l\<lparr>l_retryStop := True, l_retryThread := False\<rparr>;
          log = (s_chatLog (l_srv l))\<lparr>cl_stop := True\<rparr>
      in if l_flushThread l then
           case final_flush log of (batches, log) \<Rightarrow>
             l\<lparr>l_srv := (l_srv l)\<lparr>s_chatLog := log\<rparr>, l_written := l_written l @ batches, l_flushThread := False\<rparr>
         else l\<lparr>l_srv := (l_srv l)\<lparr>s_chatLog := log\<rparr>\<rparr>)"

definition destroy :: "('c, 'r) process \<Rightarrow> ('c, 'r) process" where
  "destroy l =
     (let l = stop_threads l;
          l = fold SubReactor_destroy (s_subReactors (l_srv l)) l;
          l = l\<lparr>l_srv := (l_srv l)\<lparr>s_subReactors := []\<rparr>\<rparr>;
          l = (if l_listenFd l \<noteq> - 1 then close_fd (l_listenFd l) l else l);
          l = (if l_epollFd l \<noteq> - 1 then close_fd (l_epollFd l) l else l)
      in l\<lparr>l_srv := (l_srv l)\<lparr>s_closed := s_closed (l_srv l)
             @ map (\<lambda>p. c_fd (s_ctxs (l_srv l) p)) (snapshotAllClients (s_reg (l_srv l)))\<rparr>\<rparr>)"

text \<open>
  The end of the process when \<open>main\<close> returns: the destructor of the server runs its body, then the
  destructors of its members, the three thread pools in the reverse order of their declaration; after
  that the static objects are destroyed, the Redis pool before the database pool. \<open>None\<close> is a thread
  pool with tasks, which no server has that \<open>start\<close> has given up.
\<close>

definition exit_process :: "('c, 'r) process \<Rightarrow> ('c, 'r) process option" where
  "exit_process l =
     (let l = destroy l; s = l_srv l in
      case ThreadPool_destroy (s_redisPool s) of None \<Rightarrow> None | Some redisPool \<Rightarrow>
      case ThreadPool_destroy (s_dbPool s) of None \<Rightarrow> None | Some dbPool \<Rightarrow>
      case ThreadPool_destroy (s_pool s) of None \<Rightarrow> None | Some pool \<Rightarrow>
      let l = l\<lparr>l_srv := s\<lparr>s_redisPool := redisPool, s_dbPool := dbPool, s_pool := pool\<rparr>\<rparr>;
          l = l\<lparr>l_redisConns := redis_closeAll (l_redisConns l)\<rparr>
      in Some (l\<lparr>l_dbConns := db_closeAll (l_dbConns l)\<rparr>))"

section \<open>The port\<close>

lemma digits_val_append: "digits_val v (a @ b) = digits_val (digits_val v a) b"
  by (induction a arbitrary: v) auto

lemma digits_val_to_string: "digits_val 0 (to_string n) = n"
proof (induction n rule: to_string.induct)
  case (1 n)
  then show ?case
    by (cases "n < 10") (simp_all add: to_string.simps [of n] digits_val_append of_char_digit)
qed

lemma stoi_to_string: "stoi (to_string n) = (if n < 2 ^ 31 then Inr (int n) else Inl out_of_range)"
proof -
  obtain c cs where n: "to_string n = c # cs" by (cases "to_string n") simp_all
  have d: "isdigit x" if "x \<in> set (c # cs)" for x using that to_string_digits [of x n] unfolding n by simp
  have "isdigit c" by (rule d) simp
  then have c: "\<not> is_space c" "c \<noteq> CHR ''-''" "c \<noteq> CHR ''+''" by (auto simp: is_space_def isdigit_def)
  have "takeWhile isdigit (c # cs) = c # cs" using d by (simp add: takeWhile_eq_all_conv)
  then show ?thesis
    using c digits_val_to_string [of n] by (simp add: stoi_def n Let_def)
qed

text \<open>
  (C30) The port on the command line: a decimal number up to the largest \<open>int\<close> is taken modulo
  65536 (\<open>static_cast\<close>), a larger one ends the program with an exception. In particular every valid
  port is taken as it is.
\<close>

theorem port_of_number:
  "main_port [prog, to_string n] = (if n < 2 ^ 31 then Inr (word_of_nat (n mod 2 ^ 16)) else Inl out_of_range)"
proof -
  have "(word_of_int (int n) :: u16) = word_of_nat (n mod 2 ^ 16)"
    by (rule word_unat_eq_iff [THEN iffD2]) (simp add: unat_of_nat)
  then show ?thesis by (simp add: main_port_def stoi_to_string)
qed

section \<open>Starting\<close>

lemma add_reactors_result:
  "fst (add_reactors fds i n l) = (if \<exists>j. i \<le> j \<and> j < i + n \<and> fds j < 0 then StartThrows else Serving)"
proof (induction n arbitrary: i l)
  case (Suc n)
  have "(\<exists>j. i \<le> j \<and> j < i + Suc n \<and> fds j < 0) \<longleftrightarrow> fds i < 0 \<or> (\<exists>j. Suc i \<le> j \<and> j < Suc i + n \<and> fds j < 0)"
    by (auto simp: Suc_le_eq) (metis le_neq_implies_less less_imp_le)+
  with Suc show ?case by (auto simp: SubReactor_def)
qed simp

lemma add_reactors_state:
  assumes "add_reactors fds i n l = (Serving, l')"
  shows "l' = l\<lparr>l_srv := (l_srv l)\<lparr>s_subReactors := s_subReactors (l_srv l) @ map fds [i..<i + n]\<rparr>,
    l_reactorThreads := l_reactorThreads l + n, l_open := l_open l @ map fds [i..<i + n]\<rparr>"
  using assms
proof (induction n arbitrary: i l)
  case 0
  then show ?case by simp
next
  case (Suc n)
  let ?l = "l\<lparr>l_srv := (l_srv l)\<lparr>s_subReactors := s_subReactors (l_srv l) @ [fds i]\<rparr>,
    l_reactorThreads := l_reactorThreads l + 1, l_open := l_open l @ [fds i]\<rparr>"
  have "add_reactors fds (Suc i) n ?l = (Serving, l')"
    using Suc.prems by (auto simp: SubReactor_def split: if_splits)
  moreover have "map fds [i..<i + Suc n] = fds i # map fds [Suc i..<Suc i + n]" by (simp add: upt_conv_Cons del: upt_Suc)
  ultimately show ?case using Suc.IH [of "Suc i" ?l] by (simp del: upt_Suc)
qed

definition reactors :: "('c, 'r) boot \<Rightarrow> nat" where
  "reactors os = (if b_cores os = 0 then 4 else b_cores os)"

definition db_starts :: "('c, 'r) boot \<Rightarrow> 'c db_pool \<Rightarrow> bool" where
  "db_starts os p = fst (initDB (b_mysql_init os) (b_mysql_connect os) p)"

definition redis_starts :: "('c, 'r) boot \<Rightarrow> 'r redis_pool \<Rightarrow> bool" where
  "redis_starts os p = fst (initRedis (b_getenv os ''REDIS_HOST'') (b_getenv os ''REDIS_PORT'') (b_getenv os ''REDIS_POOL_SIZE'')
     (b_redisConnect os) (b_redisErr os) p)"

definition boot_up :: "('c, 'r) boot \<Rightarrow> u16 \<Rightarrow> 'c db_pool \<Rightarrow> 'r redis_pool \<Rightarrow> bool" where
  "boot_up os port db redis \<longleftrightarrow> 0 \<le> b_socket os \<and> b_bind os (b_socket os) port \<and> b_listen os (b_socket os)
     \<and> db_starts os db \<and> redis_starts os redis \<and> 0 \<le> b_epoll os"

lemmas start_simps = start_def Let_def db_starts_def redis_starts_def reactors_def EpollChatServer_def

lemma start_result:
  "fst (start os (EpollChatServer h port db redis)) =
     (if \<not> boot_up os port db redis then StartFailed
      else if \<exists>i < reactors os. b_subEpoll os i < 0 then StartThrows else Serving)"
  by (auto simp: start_simps boot_up_def add_reactors_result split: prod.split)

text \<open>
  Starting succeeds exactly when every call does: the server enters its loop if and only if
  the socket is created, bound and listened on, both connection pools fill, the descriptor of the
  main reactor is created and so is the one of each sub-reactor, one per core or four. If one of these
  descriptors alone is missing it throws instead of returning \<open>false\<close>.
\<close>

theorem start_serves_iff:
  "fst (start os (EpollChatServer h port db redis)) =
     (if \<not> boot_up os port db redis then StartFailed
      else if \<exists>i < reactors os. b_subEpoll os i < 0 then StartThrows else Serving)"
  by (rule start_result)

lemma start_serving_state:
  assumes "start os (EpollChatServer h port db redis) = (Serving, l)"
  shows "l_srv l = epoll_add (b_epoll os) (b_socket os) {EPOLLIN, EPOLLET}
      (empty_server\<lparr>s_subReactors := map (b_subEpoll os) [0..<reactors os], s_ids := SnowflakeIdGenerator h\<rparr>)
    \<and> l_open l = b_socket os # b_epoll os # map (b_subEpoll os) [0..<reactors os]
    \<and> l_listenFd l = b_socket os \<and> l_epollFd l = b_epoll os \<and> l_flushThread l \<and> l_retryThread l
    \<and> l_reactorThreads l = reactors os \<and> l_written l = []"
  using assms
  by (auto simp: start_simps epoll_add_def empty_server_def chat_log_init_def split: if_splits prod.splits
      dest!: add_reactors_state)

lemma started_run_inv: "run_inv hash (epoll_add epfd fd ev (empty_server\<lparr>s_subReactors := rs, s_ids := ids\<rparr>))"
  using empty_server_run [of hash] by (simp add: run_inv_def srv_inv_def epoll_add_def online_def)

text \<open>The main reactor: whatever events it gets, a round ends and leaves the server well-formed.\<close>

lemma run_events_ok:
  assumes "run_inv hash (l_srv l)"
  shows "\<exists>l'. run_events (block_of junk) events l = Inr l' \<and> run_inv hash (l_srv l')"
  using assms
proof (induction "block_of junk" events l rule: run_events.induct)
  case (2 fd epollin conns events l)
  show ?case
  proof (cases "fd = l_listenFd l \<and> epollin")
    case True
    from 2(3) have inv: "srv_inv hash (l_srv l)" by (simp add: run_inv_def)
    obtain s where s: "handleAccept (block_of junk) conns (l_srv l) = Inr s" "srv_inv hash s"
      using handleAccept_ok [OF inv] by blast
    with 2(3) inv have "run_inv hash s"
      using run_inv_adds [OF 2(3) handleAccept_adds [OF srv_invD(1) [OF inv] s(1)]] by simp
    with 2(1) [OF True, of s] True s(1) show ?thesis by simp
  next
    case False
    with 2(2) 2(3) show ?thesis by auto
  qed
qed simp

text \<open>
  (C28) From start to the last step: when \<open>start\<close> reaches its loop, the server accepts on the
  listening socket, has one thread per sub-reactor and the two background threads, and its state
  is well-formed. From there on, with memory for every request and Redis values and query results within their size
  limits, every run of its threads keeps it well-formed; a step can be stopped only by a loop that does
  not end, by a null handle or statement that the database library gives in this step, or by a \<open>NULL\<close> column that it
  returns.
\<close>

theorem started_server_stays_wellformed:
  assumes "start os (EpollChatServer h port db redis) = (Serving, l)"
    and "redis_values_ok api" and "db_sizes_ok mysql" and "\<forall>e \<in> envs. run_env hash e"
    and "(world_next envs api mysql)\<^sup>*\<^sup>* \<lparr>w_srv = l_srv l, w_redis = r, w_db = d\<rparr> w" and "world_step envs api mysql w x"
  shows "l_listenFd l = b_socket os \<and> s_epoll (l_srv l) (b_epoll os) (b_socket os) = Some {EPOLLIN, EPOLLET}
    \<and> length (s_subReactors (l_srv l)) = l_reactorThreads l \<and> 0 < l_reactorThreads l \<and> l_flushThread l \<and> l_retryThread l
    \<and> run_inv hash (l_srv l) \<and> run_inv hash (w_srv w)
    \<and> (case x of
         Inr w' \<Rightarrow> run_inv hash (w_srv w')
       | Inl f \<Rightarrow> f = Diverges
           \<or> f = NullPointer \<and> (\<not> db_conn mysql (w_db w) \<or> \<not> db_stmt mysql (w_db w))
           \<or> f = Uninitialised \<and> (\<exists>sql ps rows. db_select mysql sql ps (w_db w) = Some rows \<and> \<not> no_nulls rows))"
proof -
  note st = start_serving_state [OF assms(1)]
  then have l: "run_inv hash (l_srv l)" using started_run_inv by simp
  with world_reach_ok [OF assms(5,2-4)] have w: "run_inv hash (w_srv w)" by simp
  have "case x of Inl f \<Rightarrow> f = Diverges \<or> f \<in> db_faults mysql (w_db w) | Inr w' \<Rightarrow> run_inv hash (w_srv w')"
    by (rule world_step_ok [OF assms(2-4) w assms(6)])
  then have "case x of Inr w' \<Rightarrow> run_inv hash (w_srv w')
      | Inl f \<Rightarrow> f = Diverges
          \<or> f = NullPointer \<and> (\<not> db_conn mysql (w_db w) \<or> \<not> db_stmt mysql (w_db w))
          \<or> f = Uninitialised \<and> (\<exists>sql ps rows. db_select mysql sql ps (w_db w) = Some rows \<and> \<not> no_nulls rows)"
    by (simp add: db_faults_def split: sum.splits)
  with st l w show ?thesis by (simp add: epoll_add_def reactors_def)
qed

section \<open>Stopping\<close>

lemma mset_fold_remove1: "mset (fold remove1 xs ys) = mset ys - mset xs"
  by (induction xs arbitrary: ys) auto

lemma remove_opened: "remove1 b (remove1 a (fold remove1 xs (a # b # xs))) = []"
proof -
  have "mset (remove1 b (remove1 a (fold remove1 xs (a # b # xs)))) = {#}" by (simp add: mset_fold_remove1)
  then show ?thesis by (rule mset_zero_iff [THEN iffD1])
qed

lemma fold_SubReactor_destroy:
  assumes "set fds \<subseteq> {0..}"
  shows "fold SubReactor_destroy fds l = l\<lparr>l_open := fold remove1 fds (l_open l)\<rparr>"
  using assms by (induction fds arbitrary: l) (auto simp: SubReactor_destroy_def close_fd_def)

lemma start_failed_state:
  assumes "start os (EpollChatServer h port db redis) = (StartFailed, l)"
  shows "s_subReactors (l_srv l) = [] \<and> l_reactorThreads l = 0 \<and> l_epollFd l < 0
    \<and> l_open l = (if l_listenFd l < 0 then [] else [l_listenFd l])
    \<and> s_pool (l_srv l) = ThreadPool 12 50000 \<and> s_dbPool (l_srv l) = ThreadPool 20 0 \<and> s_redisPool (l_srv l) = ThreadPool 16 0"
proof -
  have "add_reactors fds i n l0 \<noteq> (StartFailed, l)" for fds i n l0
    using add_reactors_result [of fds i n l0] by (auto split: if_splits)
  with assms show ?thesis by (auto simp: start_simps empty_server_def split: if_splits prod.splits)
qed

lemma destroy_failed:
  assumes "start os (EpollChatServer h port db redis) = (StartFailed, l)"
  shows "l_open (destroy l) = [] \<and> \<not> l_flushThread (destroy l) \<and> \<not> l_retryThread (destroy l)
    \<and> l_reactorThreads (destroy l) = 0 \<and> l_dbConns (destroy l) = l_dbConns l \<and> l_redisConns (destroy l) = l_redisConns l
    \<and> s_pool (l_srv (destroy l)) = ThreadPool 12 50000 \<and> s_dbPool (l_srv (destroy l)) = ThreadPool 20 0
    \<and> s_redisPool (l_srv (destroy l)) = ThreadPool 16 0"
proof -
  obtain batches log where "final_flush ((s_chatLog (l_srv l))\<lparr>cl_stop := True\<rparr>) = (batches, log)" by fastforce
  with start_failed_state [OF assms] show ?thesis
    by (auto simp: destroy_def stop_threads_def Let_def close_fd_def)
qed

lemma destroy_new_pool:
  "ThreadPool_destroy (ThreadPool n m) = Some ((ThreadPool n m)\<lparr>tp_stop := True, tp_workers := replicate n Exited\<rparr>)"
  by (rule ThreadPool_destroy_idle) (simp_all add: ThreadPool_def)

text \<open>
  (C29) A failed start leaves nothing behind: when \<open>start\<close> returns \<open>false\<close>, at whatever step, \<open>main\<close>
  returns, and the destructors that run then close every descriptor that \<open>start\<close> opened, join the two background threads
  and all workers of the three thread pools, and close every MySQL and Redis connection that the pools
  hold, which \<open>~EpollChatServer\<close> alone does not: the connections are closed by the static pools' own destructors.
\<close>

theorem failed_start_releases_everything:
  assumes "start os (EpollChatServer h port db redis) = (StartFailed, l)"
  shows "\<exists>l'. exit_process l = Some l' \<and> l_open l' = []
    \<and> \<not> l_flushThread l' \<and> \<not> l_retryThread l' \<and> l_reactorThreads l' = 0
    \<and> set (tp_workers (s_pool (l_srv l'))) \<subseteq> {Exited} \<and> set (tp_workers (s_dbPool (l_srv l'))) \<subseteq> {Exited}
    \<and> set (tp_workers (s_redisPool (l_srv l'))) \<subseteq> {Exited}
    \<and> m_connections (l_dbConns l') = [] \<and> m_closed (l_dbConns l') = m_closed (l_dbConns l) @ m_connections (l_dbConns l)
    \<and> r_connections (l_redisConns l') = [] \<and> r_freed (l_redisConns l') = r_freed (l_redisConns l) @ r_connections (l_redisConns l)"
  using destroy_failed [OF assms]
  by (auto simp: exit_process_def Let_def destroy_new_pool db_closeAll_def redis_closeAll_def close_loop_append)

text \<open>
  Stopping a server that runs: the flush thread writes every entry of the chat log that is still
  queued, in order, and every descriptor that \<open>start\<close> itself opened is closed; but the threads of the
  sub-reactors are only detached, and go on with a pointer to the destroyed server. This is the body of
  the destructor alone: \<open>main\<close> never gets there, since \<open>run\<close> does not return.
\<close>

theorem destructor_flushes_and_closes:
  assumes "start os (EpollChatServer h port db redis) = (Serving, l)" and "s_subReactors s = s_subReactors (l_srv l)"
  shows "l_open (destroy (l\<lparr>l_srv := s\<rparr>)) = []
    \<and> concat (l_written (destroy (l\<lparr>l_srv := s\<rparr>))) = cl_flush (s_chatLog s) @ cl_active (s_chatLog s)
    \<and> l_reactorThreads (destroy (l\<lparr>l_srv := s\<rparr>)) = reactors os"
proof -
  note st = start_serving_state [OF assms(1)]
  obtain batches log where f: "final_flush ((s_chatLog s)\<lparr>cl_stop := True\<rparr>) = (batches, log)" by fastforce
  have up: "boot_up os port db redis" and "\<not> (\<exists>i < reactors os. b_subEpoll os i < 0)"
    using start_result [of os h port db redis] assms(1) by (auto split: if_splits)
  then have fds: "set (map (b_subEpoll os) [0..<reactors os]) \<subseteq> {0..}" by auto
  have "s_subReactors s = map (b_subEpoll os) [0..<reactors os]" using st assms(2) by (simp add: epoll_add_def)
  with st f final_flush_ok [OF f] up show ?thesis
    by (simp add: destroy_def stop_threads_def Let_def close_fd_def boot_up_def remove_opened fold_SubReactor_destroy [OF fds])
qed


definition small_boot :: "(nat, nat) boot" where
  "small_boot = \<lparr>b_socket = 3, b_bind = (\<lambda>_ _. True), b_listen = (\<lambda>_. True), b_mysql_init = Some,
     b_mysql_connect = (\<lambda>_. True), b_getenv = (\<lambda>_. None), b_redisConnect = Some, b_redisErr = (\<lambda>_. False),
     b_epoll = 4, b_cores = 1, b_subEpoll = (\<lambda>_. 5)\<rparr>"

definition no_db :: "nat db_pool" where
  "no_db = \<lparr>m_host = '''', m_user = '''', m_password = '''', m_dbname = '''', m_port = 0, m_poolSize = 0, m_connections = [], m_closed = []\<rparr>"

definition no_redis :: "nat redis_pool" where
  "no_redis = \<lparr>r_host = '''', r_port = 0, r_poolSize = 0, r_connections = [], r_freed = []\<rparr>"

lemma small_boot_serves:
  "\<exists>l. start small_boot (EpollChatServer 1 8080 no_db no_redis) = (Serving, l)"
proof -
  have "db_starts small_boot no_db" "redis_starts small_boot no_redis" by code_simp+
  then have "fst (start small_boot (EpollChatServer 1 8080 no_db no_redis)) = Serving"
    by (simp add: start_result boot_up_def) (simp add: small_boot_def)
  then show ?thesis by (metis prod.collapse)
qed


text \<open>The first connection on the server that was started.\<close>

lemma started_accepts:
  assumes "start small_boot (EpollChatServer 1 8080 no_db no_redis) = (Serving, l)"
  shows "\<exists>s. handleAccept (e_alloc witness_env) [NewConnection 7 ''10.0.0.1''] (l_srv l) = Inr s
    \<and> getClientCtxByFd (s_reg s) 7 = Some 0 \<and> c_reactorEpollFd (s_ctxs s 0) = 5"
proof -
  let ?j = "\<lambda>_ :: nat. CHR 0x00"
  obtain c where c: "ClientContext (block_of ?j) 7 ''10.0.0.1'' = Inr c" "c_fd c = 7"
    using ClientContext_ok [of ?j 7 "''10.0.0.1''"] by blast
  have l: "l_srv l = epoll_add 4 3 {EPOLLIN, EPOLLET} (empty_server\<lparr>s_subReactors := [5], s_ids := SnowflakeIdGenerator 1\<rparr>)"
    using start_serving_state [OF assms] by (simp add: small_boot_def reactors_def)
  show ?thesis
    unfolding l using c client_lookup(1) [OF empty_registry_inv [of "\<lambda>_. 0"]]
    by (auto simp: witness_env_def Let_def empty_server_def addFd_def epoll_add_def)
qed

theorem started_server_stays_wellformed_witness:
  "\<exists>l s. start small_boot (EpollChatServer 1 8080 no_db no_redis) = (Serving, l)
     \<and> s_epoll (l_srv l) 4 3 = Some {EPOLLIN, EPOLLET}
     \<and> handleAccept (e_alloc witness_env) [NewConnection 7 ''10.0.0.1''] (l_srv l) = Inr s
     \<and> getClientCtxByFd (s_reg s) 7 = Some 0 \<and> run_inv (\<lambda>_. 0) s"
proof -
  obtain l where l: "start small_boot (EpollChatServer 1 8080 no_db no_redis) = (Serving, l)" using small_boot_serves ..
  let ?w = "\<lparr>w_srv = l_srv l, w_redis = empty_store, w_db = small_db\<rparr>"
  obtain s where s: "handleAccept (e_alloc witness_env) [NewConnection 7 ''10.0.0.1''] (l_srv l) = Inr s"
      "getClientCtxByFd (s_reg s) 7 = Some 0"
    using started_accepts [OF l] by blast
  have "world_step {witness_env} capped_redis capped_mysql ?w (Inr (?w\<lparr>w_srv := s\<rparr>))"
    using world_step.accept [of witness_env "{witness_env}" capped_redis capped_mysql ?w "[NewConnection 7 ''10.0.0.1'']"] s
    by simp
  from started_server_stays_wellformed [OF l capped_ok witness_run_env rtranclp.rtrancl_refl this] l s
  show ?thesis by (auto simp: small_boot_def)
qed

text \<open>The main reactor gets no descriptor, when all connections are open.\<close>

lemma no_epoll_start:
  assumes "os = small_boot\<lparr>b_epoll := - 1\<rparr>" and "start os (EpollChatServer 1 8080 no_db no_redis) = (r, l)"
  shows "r = StartFailed \<and> l_open l = [3] \<and> m_connections (l_dbConns l) = [0..<20] \<and> m_closed (l_dbConns l) = []
    \<and> r_connections (l_redisConns l) = [0..<16]"
proof -
  have db: "fst (initDB (Some :: nat \<Rightarrow> nat option) (\<lambda>_. True) no_db)"
      "m_connections (snd (initDB Some (\<lambda>_. True) no_db)) = [0..<20]" "m_closed (snd (initDB Some (\<lambda>_. True) no_db)) = []"
    by code_simp+
  have redis: "fst (initRedis None None None (Some :: nat \<Rightarrow> nat option) (\<lambda>_. False) no_redis)"
      "r_connections (snd (initRedis None None None Some (\<lambda>_. False) no_redis)) = [0..<16]"
    by code_simp+
  show ?thesis
    using assms db redis by (auto simp: start_def Let_def small_boot_def EpollChatServer_def split: prod.splits)
qed

theorem failed_start_releases_everything_witness:
  "\<exists>l l'. start (small_boot\<lparr>b_epoll := - 1\<rparr>) (EpollChatServer 1 8080 no_db no_redis) = (StartFailed, l)
     \<and> m_connections (l_dbConns l) = [0..<20] \<and> r_connections (l_redisConns l) = [0..<16]
     \<and> exit_process l = Some l' \<and> l_open l' = [] \<and> m_connections (l_dbConns l') = [] \<and> m_closed (l_dbConns l') = [0..<20]"
proof -
  obtain l where l: "start (small_boot\<lparr>b_epoll := - 1\<rparr>) (EpollChatServer 1 8080 no_db no_redis) = (StartFailed, l)"
    using no_epoll_start [OF refl] by (metis surj_pair)
  from failed_start_releases_everything [OF l] no_epoll_start [OF refl l] l show ?thesis by auto
qed

theorem destructor_flushes_and_closes_witness:
  "\<exists>l. start small_boot (EpollChatServer 1 8080 no_db no_redis) = (Serving, l) \<and> l_open l = [3, 4, 5]
     \<and> l_open (destroy l) = [] \<and> l_reactorThreads (destroy l) = 1"
proof -
  obtain l where l: "start small_boot (EpollChatServer 1 8080 no_db no_redis) = (Serving, l)" using small_boot_serves ..
  have "l_open (destroy l) = [] \<and> l_reactorThreads (destroy l) = reactors small_boot"
    using destructor_flushes_and_closes [OF l, of "l_srv l"] by simp
  with start_serving_state [OF l] l show ?thesis by (auto simp: small_boot_def reactors_def)
qed


end
