(* ===== verification/Spec2Isabelle.thy ===== *)
theory Spec2Isabelle
  imports SizeClass RecvBuffer SendBuffer Wire Json Codec Snowflake Frame Connection Registry
    TaskPool ConnPool ChatLog Server Chain KeyStore PageCache CentralCache ThreadCache Pending
    Database Friends Chat Bounds World Delivery Lifecycle
begin

text \<open>
  Verification of the epoll chat server: \<open>EpollChatServer.h\<close> and \<open>.cpp\<close>, \<open>main.cpp\<close>, the thread pool,
  the connection pools and the memory pool under \<open>v2\<close>.

  \<^bold>\<open>The program.\<close> A main reactor accepts connections and deals them out to sub-reactors, one per core. A
  sub-reactor reads bytes into the ring buffer of a connection, cuts packets off it (four bytes
  of length, two of type, a body of protobuf-style fields), turns each body into a JSON text and queues it on
  the business pool. \<open>processPacket\<close> handles the text: identification, chat, heartbeat, login,
  acknowledgement, history, adding a friend, friend list. What needs the database or Redis becomes a
  task of two more pools. Replies go through \<open>sendPacket\<close> into a double buffer per
  connection that \<open>handleWrite\<close> empties into the socket. Private messages wait in Redis until they are
  acknowledged; a retry thread sends them again. Chat texts go to the database in batches written by a
  flush thread. Send buffers come from a memory pool of three layers.

  \<^bold>\<open>Theories and sources.\<close>
  \<^item> \<open>Prelude\<close>: machine words, the faults (outside an object, null or dangling pointer, uninitialised variable,
    a loop that does not end, exceptions), checked block copies. A call that may fail has type \<open>fault + 'a\<close>.
  \<^item> \<open>ByteFifo\<close> (contract of a byte queue), \<open>RecvBuffer\<close> (\<open>PoolRecvBuffer\<close>), \<open>SendBuffer\<close> (\<open>PoolSendBuffer\<close>).
  \<^item> \<open>Wire\<close> (namespace \<open>pb\<close>), \<open>Json\<close> (scanners and builders), \<open>Codec\<close> (\<open>decodeProtoToJson\<close>,
    \<open>encodeJsonToProto\<close>, and the protocol as the table \<open>wire_json\<close>, from which the decoder is not derived), \<open>Snowflake\<close> (\<open>SnowflakeIdGenerator\<close>), \<open>Frame\<close> (packet loop of \<open>handleRead\<close>).
  \<^item> \<open>Connection\<close>: \<open>ClientContext\<close> and the critical sections of \<open>sendPacket\<close> and \<open>handleWrite\<close>, also
    interleaved, with the closing of the connection on overflow and on failed sends. \<open>Registry\<close>: the sharded maps of connections and online users.
  \<^item> \<open>TaskPool\<close> (\<open>ThreadPool.h\<close>, \<open>ThreadPool.cpp\<close>), \<open>ConnPool\<close> (\<open>DBConnectionPool\<close>, \<open>RedisConnectionPool\<close>,
    \<open>initDB\<close>, \<open>initRedis\<close>), \<open>ChatLog\<close> (\<open>enqueueChatLog\<close>, \<open>chatLogFlushLoop\<close>, \<open>flushChatLogsBatch\<close>, \<open>buildSessionId\<close>).
  \<^item> \<open>Server\<close>: the server object and its I/O: \<open>handleAccept\<close>, \<open>handleRead\<close>, \<open>handleWrite\<close>, \<open>sendPacket\<close>,
    \<open>handleDisconnect\<close>, the events of a sub-reactor, the queues of tasks.
  \<^item> \<open>Pending\<close>: messages in Redis, from \<open>storePendingMessage\<close> to \<open>retryLoop\<close>. \<open>Database\<close>: the queries.
    \<open>Friends\<close>: the cached friend list. \<open>Chat\<close>: \<open>processPacket\<close> and the bodies of the tasks it queues.
  \<^item> \<open>Bounds\<close> (how long texts get), \<open>World\<close> (all threads together as the step relation \<open>world_step\<close>),
    \<open>Delivery\<close> (what packets achieve from end to end), \<open>Lifecycle\<close> (\<open>main\<close>, constructor, \<open>start\<close>, \<open>run\<close>,
    destructor, and the destructors that run when \<open>main\<close> returns).
  \<^item> \<open>SizeClass\<close> (\<open>Common.h\<close>), \<open>Chain\<close> and \<open>KeyStore\<close> (linked lists, \<open>std::map\<close>), \<open>PageCache\<close>, \<open>CentralCache\<close>,
    \<open>ThreadCache\<close> (also \<open>MemoryPool.h\<close> and \<open>PoolBuffer\<close>): the memory pool.

  \<^bold>\<open>State.\<close> Classes are records with the names of the members; contexts are numbers that index \<open>s_ctxs\<close>, so that
  a \<open>shared_ptr\<close> is an optional number and aliasing is visible. Closures are values of
  \<open>biz_task\<close>, \<open>db_task\<close> and \<open>redis_task\<close> with what they capture. A handler is one step of the model where
  the code holds a lock or where the interleaving inside it is treated on its own (\<open>Connection\<close>, \<open>ChatLog\<close>,
  \<open>TaskPool\<close>). Sizes are 64-bit words that wrap around; the statistics counters are unbounded integers.

  \<^bold>\<open>Arguments.\<close> The kernel (\<open>accept4\<close>, \<open>recv\<close>, \<open>send\<close>, \<open>epoll\<close>, \<open>mmap\<close>), the clocks, the hash of strings, MD5, the
  liveness of weak pointers and the client libraries are arguments: lists of answers, functions, or the
  records \<open>redis_api\<close> and \<open>db_api\<close>. Where a theorem needs more of Redis or MySQL than arbitrary answers it
  says so by \<open>redis_laws\<close>, \<open>redis_up\<close>, \<open>friend_laws\<close> (what the documented commands do), \<open>redis_values_ok\<close> and
  \<open>db_sizes_ok\<close> (limits on sizes and nothing else); \<open>mem_redis\<close> and \<open>mem_mysql\<close> are stores that satisfy them. Null handles,
  null statements and \<open>NULL\<close> columns are not excluded: they cause the faults \<open>db_faults\<close>, because the code does not check for
  them. The answer of the memory pool to a connection's buffers is an argument too; theorems that take it to be a block say so
  (\<open>block_of\<close>, \<open>memory_available\<close>, \<open>run_env\<close>), and \<open>send_append_unchecked_null\<close> shows what a null pointer does. Scores of Redis are
  integers, exact for times in milliseconds; \<open>atoi\<close> is meant for texts in the range of \<open>int\<close>.

  \<^bold>\<open>Interfaces.\<close> The locales \<open>byte_fifo\<close> (both buffers), \<open>key_store\<close> and \<open>sharding\<close> (both registries,
  \<open>std::map\<close>), \<open>connection_pool\<close> (both connection pools) and \<open>span_provider\<close> (page cache) state what a component
  promises; each is interpreted on the definitions of the program.

  \<^bold>\<open>What is shown.\<close> Buffers are byte queues; packets are cut exactly as the wire format says, and leave in
  order under any interleaving; the decoder follows the
  protocol table, and what is encoded is read back for values without quotes and backslashes, which the code does not escape; message
  numbers increase; registries are maps; pools run tasks in order and drain; log entries are written once,
  in order; blocks of the memory pool do not overlap. On top of this: from \<open>start\<close> on, as long as the memory pool gives
  blocks, no thread ever leaves a buffer or follows a dangling pointer, and the server stays well-formed; what can
  stop a thread is a loop that does not end or a null or \<open>NULL\<close> answer of the database library. A chat text that
  names an online receiver is stored, confirmed and queued for the receiver; a login brings the friend list and the
  fifty earliest waiting messages; nothing is confirmed that is not stored; after a failed start everything is
  released when \<open>main\<close> returns, the worker threads and the connections of the pools included.
  Theorems whose text describes a defect prove it of the code as it is: bodies that loop forever, lost
  wake-ups, blocks handed out twice, exhausted messages that block the retry, a stale disconnect that takes a
  user offline, chat messages from the network that reach nobody, identities nobody checks.

  \<^bold>\<open>Termination and fuel.\<close> Loops are structural recursion or have a measure. Loops that may not end
  (decoding, growing a buffer of capacity zero, waiting for the clock, walking a cyclic list) are
  partial functions with result \<open>None\<close> or the fault \<open>Diverges\<close>; that they return is a theorem where it holds. There is
  no fuel.

  \<^bold>\<open>Not modelled.\<close> Console output and the statistics of \<open>run\<close> (the counters are); socket options and
  \<open>setNonBlocking\<close>; \<open>currentTimeStrCached\<close> and \<open>getServerTimeStr\<close>, which format the clock (the text is an argument); data races
  on members the code reads without a lock, such as \<open>accountID\<close>; the expiry of Redis keys; the tests, benchmarks,
  scripts and the database schema.
\<close>

end
